(* ===== verification/Prelude.thy ===== *)
theory Prelude
  imports Main "HOL-Library.Word"
begin

text \<open>
  What every component shares: the names of the machine types, the outcome of a C function
  that may stop the process, byte order conversion on a little-endian host, and the generic
  lemmas on lists and words the component theories use.
\<close>

unbundle bit_operations_syntax

section \<open>Machine types\<close>

type_synonym byte = "8 word"
type_synonym u8 = "8 word"
type_synonym u16 = "16 word"
type_synonym u32 = "32 word"
type_synonym u64 = "64 word"

section \<open>Outcomes\<close>

text \<open>
  A C function either returns or the process stops: \<open>ASSERT_ALWAYS\<close> calls
  \<open>exit(EXIT_FAILURE)\<close>, the usage text ends with \<open>exit(EXIT_SUCCESS)\<close>, a \<open>NULL\<close> pointer is dereferenced, an access leaves the array it
  belongs to, an integer is shifted by its width or more, a system call never returns
  because nothing more happens in the scenario under consideration, or a loop never ends.
\<close>

datatype fault = Exit_failure | Exit_success | Null_deref | Out_of_bounds | Undefined_shift | Blocked | Endless

type_synonym 'a res = "fault + 'a"

definition rbind :: "'a res \<Rightarrow> ('a \<Rightarrow> 'b res) \<Rightarrow> 'b res" where
  "rbind m k = (case m of Inl e \<Rightarrow> Inl e | Inr x \<Rightarrow> k x)"

lemma rbind_simps [simp]:
  "rbind (Inl e) k = Inl e"
  "rbind (Inr x) k = k x"
  by (simp_all add: rbind_def)

lemma rbind_Inr_iff: "rbind m k = Inr y \<longleftrightarrow> (\<exists>x. m = Inr x \<and> k x = Inr y)"
  by (auto simp: rbind_def split: sum.splits)

lemma rbind_InrE: "rbind m f = Inr y \<Longrightarrow> (\<And>x. m = Inr x \<Longrightarrow> f x = Inr y \<Longrightarrow> P) \<Longrightarrow> P"
  by (cases m) simp_all

lemma rbind_Inl_iff: "rbind m k = Inl e \<longleftrightarrow> m = Inl e \<or> (\<exists>x. m = Inr x \<and> k x = Inl e)"
  by (auto simp: rbind_def split: sum.splits)

lemma rbind_cong [fundef_cong]:
  "m = m' \<Longrightarrow> (\<And>x. m' = Inr x \<Longrightarrow> k x = k' x) \<Longrightarrow> rbind m k = rbind m' k'"
  by (auto simp: rbind_def split: sum.splits)

text \<open>Facts that open the definitions of handlers, and facts about the memory layout.\<close>

named_theorems layout_simps \<open>reading back the bytes of the packet structure\<close>

section \<open>Byte order\<close>

text \<open>
  The host is little-endian (the bit-field layout the protocol needs exists only there): the
  bytes of an integer in memory, least significant first, and back.
\<close>

definition le16 :: "u16 \<Rightarrow> byte list" where
  "le16 w = [ucast w, ucast (drop_bit 8 w)]"

definition le32 :: "u32 \<Rightarrow> byte list" where
  "le32 w = [ucast w, ucast (drop_bit 8 w), ucast (drop_bit 16 w), ucast (drop_bit 24 w)]"

definition of_le16 :: "byte \<Rightarrow> byte \<Rightarrow> u16" where
  "of_le16 a b = ucast a OR push_bit 8 (ucast b)"

definition of_le32 :: "byte \<Rightarrow> byte \<Rightarrow> byte \<Rightarrow> byte \<Rightarrow> u32" where
  "of_le32 a b c d =
     ucast a OR push_bit 8 (ucast b) OR push_bit 16 (ucast c) OR push_bit 24 (ucast d)"

text \<open>\<open>ntohs\<close>/\<open>htons\<close> and \<open>ntohl\<close>/\<open>htonl\<close> of \<open>arpa/inet.h\<close>: the bytes reversed.\<close>

definition ntohs :: "u16 \<Rightarrow> u16" where
  "ntohs w = of_le16 (ucast (drop_bit 8 w)) (ucast w)"

definition htons :: "u16 \<Rightarrow> u16" where
  "htons w = ntohs w"

definition ntohl :: "u32 \<Rightarrow> u32" where
  "ntohl w = of_le32 (ucast (drop_bit 24 w)) (ucast (drop_bit 16 w)) (ucast (drop_bit 8 w)) (ucast w)"

definition htonl :: "u32 \<Rightarrow> u32" where
  "htonl w = ntohl w"

lemma length_le16 [simp]: "length (le16 w) = 2"
  by (simp add: le16_def)

lemma length_le32 [simp]: "length (le32 w) = 4"
  by (simp add: le32_def)

lemma bit_of_le16:
  "bit (of_le16 a b) n \<longleftrightarrow> (if n < 8 then bit a n else n < 16 \<and> bit b (n - 8))"
  by (auto simp: of_le16_def bit_simps dest: bit_imp_le_length)

lemma bit_of_le32:
  "bit (of_le32 a b c d) n \<longleftrightarrow>
     (if n < 8 then bit a n else if n < 16 then bit b (n - 8)
      else if n < 24 then bit c (n - 16) else n < 32 \<and> bit d (n - 24))"
  by (auto simp: of_le32_def bit_simps dest: bit_imp_le_length)

lemma of_le16_le16 [layout_simps]: "of_le16 (ucast w) (ucast (drop_bit 8 w)) = w"
  by (rule bit_word_eqI) (auto simp: bit_of_le16 bit_simps)

lemma of_le32_le32 [layout_simps]:
  "of_le32 (ucast w) (ucast (drop_bit 8 w)) (ucast (drop_bit 16 w)) (ucast (drop_bit 24 w)) = w"
  by (rule bit_word_eqI) (auto simp: bit_of_le32 bit_simps)

lemma le16_of_le16 [layout_simps]: "le16 (of_le16 a b) = [a, b]"
  unfolding le16_def by (auto intro!: bit_word_eqI simp: bit_of_le16 bit_simps)

lemma le32_of_le32 [layout_simps]: "le32 (of_le32 a b c d) = [a, b, c, d]"
  unfolding le32_def by (auto intro!: bit_word_eqI simp: bit_of_le32 bit_simps)

lemma bit_ntohs: "bit (ntohs w) n \<longleftrightarrow> n < 16 \<and> bit w (if n < 8 then n + 8 else n - 8)"
  by (auto simp: ntohs_def bit_of_le16 bit_simps add.commute)

lemma bit_ntohl:
  "bit (ntohl w) n \<longleftrightarrow> n < 32 \<and>
     bit w (if n < 8 then n + 24 else if n < 16 then n + 8 else if n < 24 then n - 8 else n - 24)"
  by (auto simp: ntohl_def bit_of_le32 bit_simps add.commute)

lemma ntohs_ntohs [simp]: "ntohs (ntohs w) = w"
  by (rule bit_word_eqI) (auto simp: bit_ntohs)

lemma ntohl_ntohl [simp]: "ntohl (ntohl w) = w"
  by (rule bit_word_eqI) (auto simp: bit_ntohl)

lemma ntohs_htons [simp]: "ntohs (htons w) = w"
  by (simp add: htons_def)

lemma ntohl_htonl [simp]: "ntohl (htonl w) = w"
  by (simp add: htonl_def)

section \<open>Conversions between widths\<close>

lemma unat_ucast_up:
  assumes "LENGTH('a::len) \<le> LENGTH('b::len)"
  shows "unat (ucast (w :: 'a word) :: 'b word) = unat w"
proof -
  have "unat w < 2 ^ LENGTH('a)"
    using unsigned_less [of w, where ?'a = nat] by simp
  also have "\<dots> \<le> 2 ^ LENGTH('b)"
    using assms by (intro power_increasing) simp_all
  finally show ?thesis
    by (simp add: unsigned_ucast_eq take_bit_nat_eq_self)
qed

lemma unat_ucast_fixed [simp]:
  "unat (ucast (a :: u8) :: u32) = unat a" "unat (ucast (a :: u8) :: u64) = unat a"
  "unat (ucast (b :: u16) :: u64) = unat b" "unat (ucast (b :: u16) :: u32) = unat b"
  by (simp_all add: unat_ucast_up)

lemma unat_less_u8: "unat (a :: u8) < 256"
  using unsigned_less [of a, where ?'a = nat] by simp

lemma unat_less_u16: "unat (a :: u16) < 65536"
  using unsigned_less [of a, where ?'a = nat] by simp

lemma unat_less_u32: "unat (a :: u32) < 4294967296"
  using unsigned_less [of a, where ?'a = nat] by simp

text \<open>Sequence numbers: the distance of two bytes, as a number.\<close>

lemma unat_diff_u8: "unat (a - b :: u8) = (unat a + 256 - unat b) mod 256"
proof (cases "unat b \<le> unat a")
  case True
  then have "(unat a + 256 - unat b) mod 256 = (unat a - unat b) mod 256"
    by (metis add_diff_assoc2 mod_add_self2)
  then show ?thesis
    using True unat_less_u8 [of a] by (simp add: unat_sub_if')
next
  case False
  then show ?thesis
    using unat_less_u8 [of b] by (simp add: unat_sub_if')
qed

lemma unat_ucast_down_u8: "unat (ucast (x :: u32) :: u8) = unat x mod 256"
  by (simp add: unsigned_ucast_eq take_bit_eq_mod)

lemma ucast_add_u8: "(ucast (ucast (s :: u8) + x :: u32) :: u8) = s + ucast x"
proof -
  have "unat (ucast s + x :: u32) mod 256 = (unat s + unat x) mod 256"
    by (simp add: unat_word_ariths mod_mod_cancel)
  then show ?thesis
    by (simp add: word_unat_eq_iff unat_word_ariths unat_ucast_down_u8 mod_simps)
qed

end
