(* ===== verification/Packet.thy ===== *)
theory Packet
  imports Prelude
begin

text \<open>
  The packet structure of \<open>common/packet_interface.h\<close> and the accessors, setters and
  validity checks of \<open>common/packet_implem.c\<close>. A \<^term>\<open>pkt\<close> is the structure with its
  fields at their C widths; \<open>pkt_mem\<close> is the same structure as the 528 bytes it occupies
  (packed, little-endian, bit-fields from the low bit up), and \<open>mem_pkt\<close> reads the fields
  back. The code reinterprets a packet as bytes and bytes as a packet in many places; the
  model goes through these two functions exactly there.
\<close>

unbundle bit_operations_syntax

section \<open>Constants and types of the interface\<close>

definition MAX_PAYLOAD_SIZE :: nat where [simp]: "MAX_PAYLOAD_SIZE = 512"
definition MAX_WINDOW_SIZE :: u32 where [simp]: "MAX_WINDOW_SIZE = 31"
definition PKT_HEADERLEN :: nat where [simp]: "PKT_HEADERLEN = 12"
definition PKT_CRC1LEN :: nat where [simp]: "PKT_CRC1LEN = 4"
definition PKT_FOOTERLEN :: nat where [simp]: "PKT_FOOTERLEN = 4"
definition PKT_MIN_LEN :: nat where [simp]: "PKT_MIN_LEN = PKT_HEADERLEN"
definition PKT_MAX_LEN :: nat where
  [simp]: "PKT_MAX_LEN = PKT_MIN_LEN + MAX_PAYLOAD_SIZE + PKT_FOOTERLEN"
definition PKT_TIMESTAMP :: u32 where "PKT_TIMESTAMP = 0xdeadbeef"

text \<open>An enumeration of C is an integer: a caller can pass any value.\<close>

type_synonym ptypes_t = u32

definition PTYPE_DATA :: ptypes_t where [simp]: "PTYPE_DATA = 1"
definition PTYPE_ACK :: ptypes_t where [simp]: "PTYPE_ACK = 2"
definition PTYPE_NACK :: ptypes_t where [simp]: "PTYPE_NACK = 3"

datatype pkt_status_code =
  PKT_OK | E_TYPE | E_TR | E_LENGTH | E_CRC | E_WINDOW | E_SEQNUM | E_NOMEM
| E_NOHEADER | E_UNCONSISTENT

record pkt =
  p_window :: "5 word"
  p_tr :: "1 word"
  p_type :: "2 word"
  p_seq :: u8
  p_length :: u16
  p_ts :: u32
  p_crc1 :: u32
  p_payload :: "byte list"
  p_crc2 :: u32

text \<open>The payload array has its declared size in every packet the program holds.\<close>

definition wf_pkt :: "pkt \<Rightarrow> bool" where
  "wf_pkt p \<longleftrightarrow> length (p_payload p) = MAX_PAYLOAD_SIZE"

definition pkt_zero :: pkt where
  "pkt_zero = \<lparr>p_window = 0, p_tr = 0, p_type = 0, p_seq = 0, p_length = 0, p_ts = 0,
     p_crc1 = 0, p_payload = replicate MAX_PAYLOAD_SIZE 0, p_crc2 = 0\<rparr>"

definition sizeof_pkt :: nat where [simp]: "sizeof_pkt = 528"

section \<open>The structure in memory\<close>

definition bits_byte :: "2 word \<Rightarrow> 1 word \<Rightarrow> 5 word \<Rightarrow> byte" where
  "bits_byte ty tr win = ucast win OR push_bit 5 (ucast tr) OR push_bit 6 (ucast ty)"

definition pkt_mem :: "pkt \<Rightarrow> byte list" where
  "pkt_mem p =
     bits_byte (p_type p) (p_tr p) (p_window p) # p_seq p # le16 (p_length p) @ le32 (p_ts p)
     @ le32 (p_crc1 p) @ p_payload p @ le32 (p_crc2 p)"

definition load16 :: "byte list \<Rightarrow> nat \<Rightarrow> u16" where
  "load16 bs i = of_le16 (bs ! i) (bs ! (i + 1))"

definition load32 :: "byte list \<Rightarrow> nat \<Rightarrow> u32" where
  "load32 bs i = of_le32 (bs ! i) (bs ! (i + 1)) (bs ! (i + 2)) (bs ! (i + 3))"

definition mem_pkt :: "byte list \<Rightarrow> pkt" where
  "mem_pkt bs = \<lparr>p_window = ucast (bs ! 0), p_tr = ucast (drop_bit 5 (bs ! 0)),
     p_type = ucast (drop_bit 6 (bs ! 0)), p_seq = bs ! 1, p_length = load16 bs 2,
     p_ts = load32 bs 4, p_crc1 = load32 bs 8, p_payload = take 512 (drop 12 bs),
     p_crc2 = load32 bs 524\<rparr>"

text \<open>Writes of raw bytes over memory: a \<open>memcpy\<close> and the store of a 32-bit integer.\<close>

definition splice :: "'a list \<Rightarrow> nat \<Rightarrow> 'a list \<Rightarrow> 'a list" where
  "splice bs off xs = take off bs @ xs @ drop (off + length xs) bs"

definition store_bytes :: "pkt \<Rightarrow> nat \<Rightarrow> byte list \<Rightarrow> pkt" where
  "store_bytes p off xs = mem_pkt (splice (pkt_mem p) off xs)"

lemma length_splice [simp]:
  "off + length xs \<le> length bs \<Longrightarrow> length (splice bs off xs) = length bs"
  by (simp add: splice_def)

lemma splice_0: "splice bs 0 xs = xs @ drop (length xs) bs"
  by (simp add: splice_def)

lemma length_pkt_mem [simp]: "wf_pkt p \<Longrightarrow> length (pkt_mem p) = 528"
  by (simp add: pkt_mem_def wf_pkt_def)

lemma wf_mem_pkt [simp]: "length bs = 528 \<Longrightarrow> wf_pkt (mem_pkt bs)"
  by (simp add: mem_pkt_def wf_pkt_def)

lemma wf_pkt_zero [simp]: "wf_pkt pkt_zero"
  by (simp add: wf_pkt_def pkt_zero_def)

lemma wf_pkt_update [simp]:
  "wf_pkt (p\<lparr>p_window := a\<rparr>) = wf_pkt p" "wf_pkt (p\<lparr>p_tr := b\<rparr>) = wf_pkt p"
  "wf_pkt (p\<lparr>p_type := c\<rparr>) = wf_pkt p" "wf_pkt (p\<lparr>p_seq := d\<rparr>) = wf_pkt p"
  "wf_pkt (p\<lparr>p_length := e\<rparr>) = wf_pkt p" "wf_pkt (p\<lparr>p_ts := f\<rparr>) = wf_pkt p"
  "wf_pkt (p\<lparr>p_crc1 := g\<rparr>) = wf_pkt p" "wf_pkt (p\<lparr>p_crc2 := h\<rparr>) = wf_pkt p"
  by (simp_all add: wf_pkt_def)

lemma wf_store_bytes [simp]:
  "wf_pkt p \<Longrightarrow> off + length xs \<le> 528 \<Longrightarrow> wf_pkt (store_bytes p off xs)"
  by (simp add: store_bytes_def)

lemma bit_bits_byte:
  "bit (bits_byte ty tr win) n \<longleftrightarrow>
     (if n < 5 then bit win n else if n = 5 then bit tr 0 else n < 8 \<and> bit ty (n - 6))"
  using bit_imp_le_length [of win n] bit_imp_le_length [of tr "n - 5"]
    bit_imp_le_length [of ty "n - 6"]
  by (cases "n < 5"; cases "n = 5") (auto simp: bits_byte_def bit_simps)

lemma bits_byte_fields [layout_simps]:
  "ucast (bits_byte ty tr win) = win" "ucast (drop_bit 5 (bits_byte ty tr win)) = tr"
  "ucast (drop_bit 6 (bits_byte ty tr win)) = ty"
  by (rule bit_word_eqI; auto simp: bit_simps bit_bits_byte)+

lemma bits_byte_of_fields [layout_simps]:
  "bits_byte (ucast (drop_bit 6 b)) (ucast (drop_bit 5 b)) (ucast b) = b"
  by (rule bit_word_eqI) (auto simp: bit_simps bit_bits_byte)

lemma bits_byte_inject: "bits_byte a b c = bits_byte a' b' c' \<longleftrightarrow> a = a' \<and> b = b' \<and> c = c'"
  using bits_byte_fields by metis

text \<open>Structure and memory are two views of one object.\<close>

lemma mem_pkt_append:
  "mem_pkt (b0 # b1 # l0 # l1 # t0 # t1 # t2 # t3 # c0 # c1 # c2 # c3 # rest) =
     \<lparr>p_window = ucast b0, p_tr = ucast (drop_bit 5 b0), p_type = ucast (drop_bit 6 b0),
      p_seq = b1, p_length = of_le16 l0 l1, p_ts = of_le32 t0 t1 t2 t3,
      p_crc1 = of_le32 c0 c1 c2 c3, p_payload = take 512 rest, p_crc2 = load32 rest 512\<rparr>"
  by (simp add: mem_pkt_def load16_def load32_def nth_Cons')

lemma mem_pkt_pkt_mem: "wf_pkt p \<Longrightarrow> mem_pkt (pkt_mem p) = p"
  by (simp add: pkt_mem_def mem_pkt_append le16_def le32_def load32_def wf_pkt_def
      nth_append layout_simps)

lemma le16_load16: "i + 1 < length bs \<Longrightarrow> le16 (load16 bs i) = take 2 (drop i bs)"
  by (simp add: load16_def le16_of_le16 Cons_nth_drop_Suc [symmetric] eval_nat_numeral)

lemma le32_load32: "i + 3 < length bs \<Longrightarrow> le32 (load32 bs i) = take 4 (drop i bs)"
  by (simp add: load32_def le32_of_le32 Cons_nth_drop_Suc [symmetric] eval_nat_numeral)

lemma load32_le32 [layout_simps]: "load32 (le32 w) 0 = w"
  by (simp add: load32_def le32_def of_le32_le32)

lemma pkt_mem_mem_pkt:
  assumes "length bs = 528"
  shows "pkt_mem (mem_pkt bs) = bs"
proof -
  have split: "bs = take 2 bs @ take 2 (drop 2 bs) @ take 4 (drop 4 bs) @ take 4 (drop 8 bs)
      @ take 512 (drop 12 bs) @ take 4 (drop 524 bs)"
    using assms by (simp add: take_add [symmetric] append_assoc [symmetric] del: append_assoc)
  have hd: "take 2 bs = [bs ! 0, bs ! 1]"
    using assms by (cases bs; cases "tl bs") (auto simp: numeral_2_eq_2)
  have "pkt_mem (mem_pkt bs) = [bs ! 0, bs ! 1] @ take 2 (drop 2 bs) @ take 4 (drop 4 bs)
      @ take 4 (drop 8 bs) @ take 512 (drop 12 bs) @ take 4 (drop 524 bs)"
    using assms by (simp add: pkt_mem_def mem_pkt_def bits_byte_of_fields le16_load16 le32_load32)
  then show ?thesis
    using split hd by simp
qed

section \<open>Allocation and validity checks\<close>

text \<open>\<open>calloc\<close> either fails or returns a zeroed structure.\<close>

definition pkt_new :: "bool \<Rightarrow> pkt option" where
  "pkt_new calloc_ok = (if calloc_ok then Some pkt_zero else None)"

definition valid_length :: "u16 \<Rightarrow> bool" where
  "valid_length l \<longleftrightarrow> l \<le> of_nat MAX_PAYLOAD_SIZE"

definition valid_window :: "u8 \<Rightarrow> bool" where
  "valid_window w \<longleftrightarrow> w \<le> ucast MAX_WINDOW_SIZE"

definition valid_type :: "u64 \<Rightarrow> bool" where
  "valid_type t \<longleftrightarrow> t = ucast PTYPE_DATA \<or> t = ucast PTYPE_ACK \<or> t = ucast PTYPE_NACK"

definition valid_tr :: "u64 \<Rightarrow> u8 \<Rightarrow> bool" where
  "valid_tr t tr \<longleftrightarrow> tr = 0 \<or> t = ucast PTYPE_DATA"

text \<open>\<open>pkt_len\<close> of the header file: the size on the wire of a packet in host format.\<close>

definition pkt_len :: "pkt \<Rightarrow> u64" where
  "pkt_len p =
     (if p_length p \<noteq> 0 then of_nat PKT_HEADERLEN + of_nat PKT_FOOTERLEN + ucast (p_length p)
      else of_nat PKT_HEADERLEN)"

section \<open>Accessors\<close>

text \<open>The macro \<open>ACCESSOR\<close>: the field, or 0 (for the payload, \<open>NULL\<close>) for a \<open>NULL\<close> packet.\<close>

definition pkt_get_type :: "pkt option \<Rightarrow> ptypes_t" where
  "pkt_get_type p = (case p of Some q \<Rightarrow> ucast (p_type q) | None \<Rightarrow> 0)"
definition pkt_get_tr :: "pkt option \<Rightarrow> u8" where
  "pkt_get_tr p = (case p of Some q \<Rightarrow> ucast (p_tr q) | None \<Rightarrow> 0)"
definition pkt_get_window :: "pkt option \<Rightarrow> u8" where
  "pkt_get_window p = (case p of Some q \<Rightarrow> ucast (p_window q) | None \<Rightarrow> 0)"
definition pkt_get_seqnum :: "pkt option \<Rightarrow> u8" where
  "pkt_get_seqnum p = (case p of Some q \<Rightarrow> p_seq q | None \<Rightarrow> 0)"
definition pkt_get_length :: "pkt option \<Rightarrow> u16" where
  "pkt_get_length p = (case p of Some q \<Rightarrow> p_length q | None \<Rightarrow> 0)"
definition pkt_get_payload :: "pkt option \<Rightarrow> byte list option" where
  "pkt_get_payload p = (case p of Some q \<Rightarrow> Some (p_payload q) | None \<Rightarrow> None)"
definition pkt_get_timestamp :: "pkt option \<Rightarrow> u32" where
  "pkt_get_timestamp p = (case p of Some q \<Rightarrow> p_ts q | None \<Rightarrow> 0)"
definition pkt_get_crc1 :: "pkt option \<Rightarrow> u32" where
  "pkt_get_crc1 p = (case p of Some q \<Rightarrow> p_crc1 q | None \<Rightarrow> 0)"
definition pkt_get_crc2 :: "pkt option \<Rightarrow> u32" where
  "pkt_get_crc2 p = (case p of Some q \<Rightarrow> p_crc2 q | None \<Rightarrow> 0)"

section \<open>Setters\<close>

text \<open>
  The macro \<open>SETTER\<close>: \<open>E_NOMEM\<close> for a \<open>NULL\<close> packet, otherwise the assignment, which
  truncates to the width of the field.
\<close>

definition SETTER :: "pkt option \<Rightarrow> (pkt \<Rightarrow> pkt) \<Rightarrow> pkt_status_code \<times> pkt option" where
  "SETTER p assign = (case p of None \<Rightarrow> (E_NOMEM, None) | Some q \<Rightarrow> (PKT_OK, Some (assign q)))"

definition pkt_set_type :: "pkt option \<Rightarrow> ptypes_t \<Rightarrow> pkt_status_code \<times> pkt option" where
  "pkt_set_type p ty =
     (if \<not> valid_type (ucast ty) then (E_TYPE, p) else SETTER p (\<lambda>q. q\<lparr>p_type := ucast ty\<rparr>))"

text \<open>\<open>pkt_set_tr\<close> reads the type of the packet before it looks for \<open>NULL\<close>.\<close>

definition pkt_set_tr :: "pkt option \<Rightarrow> u8 \<Rightarrow> (pkt_status_code \<times> pkt option) res" where
  "pkt_set_tr p tr =
     (case p of None \<Rightarrow> Inl Null_deref
      | Some q \<Rightarrow> if \<not> valid_tr (ucast (p_type q)) tr then Inr (E_TR, p)
                  else Inr (SETTER p (\<lambda>q. q\<lparr>p_tr := ucast tr\<rparr>)))"

definition pkt_set_window :: "pkt option \<Rightarrow> u8 \<Rightarrow> pkt_status_code \<times> pkt option" where
  "pkt_set_window p w =
     (if \<not> valid_window w then (E_WINDOW, p) else SETTER p (\<lambda>q. q\<lparr>p_window := ucast w\<rparr>))"

definition pkt_set_seqnum :: "pkt option \<Rightarrow> u8 \<Rightarrow> pkt_status_code \<times> pkt option" where
  "pkt_set_seqnum p s = SETTER p (\<lambda>q. q\<lparr>p_seq := s\<rparr>)"

definition pkt_set_length :: "pkt option \<Rightarrow> u16 \<Rightarrow> pkt_status_code \<times> pkt option" where
  "pkt_set_length p l =
     (if \<not> valid_length l then (E_LENGTH, p) else SETTER p (\<lambda>q. q\<lparr>p_length := l\<rparr>))"

definition pkt_set_timestamp :: "pkt option \<Rightarrow> u32 \<Rightarrow> pkt_status_code \<times> pkt option" where
  "pkt_set_timestamp p t = SETTER p (\<lambda>q. q\<lparr>p_ts := t\<rparr>)"

definition pkt_set_crc1 :: "pkt option \<Rightarrow> u32 \<Rightarrow> pkt_status_code \<times> pkt option" where
  "pkt_set_crc1 p c = SETTER p (\<lambda>q. q\<lparr>p_crc1 := c\<rparr>)"

definition pkt_set_crc2 :: "pkt option \<Rightarrow> u32 \<Rightarrow> pkt_status_code \<times> pkt option" where
  "pkt_set_crc2 p c = SETTER p (\<lambda>q. q\<lparr>p_crc2 := c\<rparr>)"

text \<open>
  \<open>pkt_set_payload\<close> validates and stores the length, then copies that many bytes from the
  caller's buffer, here with its true size.
\<close>

definition pkt_set_payload ::
  "pkt option \<Rightarrow> byte list \<Rightarrow> u16 \<Rightarrow> (pkt_status_code \<times> pkt option) res" where
  "pkt_set_payload p data l =
     (case pkt_set_length p l of
        (PKT_OK, Some q) \<Rightarrow>
          if length data < unat l then Inl Out_of_bounds
          else Inr (PKT_OK, Some (q\<lparr>p_payload := splice (p_payload q) 0 (take (unat l) data)\<rparr>))
      | (s, p') \<Rightarrow> Inr (s, p'))"

section \<open>Descriptions\<close>

fun pkt_err_code :: "pkt_status_code \<Rightarrow> string" where
  "pkt_err_code PKT_OK = ''[OK] The packet has been processed successfully''"
| "pkt_err_code E_TYPE = ''[E_TYPE] Invalid packet type''"
| "pkt_err_code E_TR = ''[E_TR] Invalid tr value''"
| "pkt_err_code E_LENGTH = ''[E_LENGTH] Invalid packet length''"
| "pkt_err_code E_CRC = ''[E_CRC] Invalid packet crc''"
| "pkt_err_code E_WINDOW = ''[E_WINDOW] Invalid packet window''"
| "pkt_err_code E_SEQNUM = ''[E_SEQNUM] Invalid packet sequence number''"
| "pkt_err_code E_NOMEM = ''[E_NOMEM] Not enough memory''"
| "pkt_err_code E_NOHEADER = ''[E_NOHEADER] Packet has no header''"
| "pkt_err_code E_UNCONSISTENT = ''[E_UNCONSISTENT] Packet is unconsistent''"

definition pkt_type_descr :: "ptypes_t \<Rightarrow> string" where
  "pkt_type_descr t =
     (if t = PTYPE_DATA then ''[PTYPE_DATA]'' else if t = PTYPE_ACK then ''[PTYPE_ACK]''
      else if t = PTYPE_NACK then ''[PTYPE_NACK]'' else ''Unknown type'')"

end
