(* ===== verification/Packet_Codec.thy ===== *)
theory Packet_Codec
  imports Packet
begin

text \<open>
  Decoding and encoding, \<open>pkt_decode\<close>, \<open>pkt_decode_inline\<close>, \<open>pkt_encode\<close> and
  \<open>pkt_encode_inline\<close> of \<open>common/packet_implem.c\<close>, and the wire format of the protocol
  as their specification. The checksum is zlib's \<open>crc32\<close>, which is not part of the
  repository: it is a parameter of every definition that uses it, and the theorems hold for
  any function in its place.
\<close>

unbundle bit_operations_syntax

section \<open>The checksum\<close>

text \<open>
  \<open>uLong crc32(uLong crc, const Bytef *buf, uInt len)\<close>: the running value and the bytes,
  \<^term>\<open>None\<close> for \<open>Z_NULL\<close>.
\<close>

type_synonym crc_fun = "u64 \<Rightarrow> byte list option \<Rightarrow> u64"

definition crc_of :: "crc_fun \<Rightarrow> byte list \<Rightarrow> u32" where
  "crc_of crc32 data = (let crc = crc32 0 None in ucast (crc32 crc (Some data)))"

section \<open>Decoding\<close>

text \<open>
  \<open>pkt_decode_inline\<close> works on the packet that holds the received bytes and changes it as
  it goes: after a failed check of the first checksum the TR bit stays cleared. Its
  computation of the payload length, \<open>payload_crc2_len - PKT_FOOTERLEN\<close>, wraps around
  when one to three bytes follow the header.
\<close>

definition decode_payload_len :: "u64 \<Rightarrow> u64" where
  "decode_payload_len rlen =
    (let payload_crc2_len = rlen - of_nat PKT_HEADERLEN in
     if payload_crc2_len \<noteq> 0 then payload_crc2_len - of_nat PKT_FOOTERLEN else 0)"

definition pkt_decode_inline :: "crc_fun \<Rightarrow> pkt \<Rightarrow> u64 \<Rightarrow> pkt_status_code \<times> pkt" where
  "pkt_decode_inline crc32 pkt rlen =
    (if \<not> (rlen \<ge> of_nat PKT_MIN_LEN) then (E_NOHEADER, pkt) else
     let plen = ucast (ntohs (p_length pkt)) :: u64 in
     if \<not> valid_type (ucast (p_type pkt)) then (E_TYPE, pkt) else
     if \<not> valid_tr (ucast (p_type pkt)) (ucast (p_tr pkt)) then (E_TR, pkt) else
     if \<not> valid_length (ucast plen) then (E_LENGTH, pkt) else
     let tr = ucast (p_tr pkt) :: u8;
         pkt = pkt\<lparr>p_tr := 0\<rparr>;
         crc1 = ntohl (load32 (pkt_mem pkt) (PKT_HEADERLEN - 4));
         computed_crc1 = crc_of crc32 (take (PKT_HEADERLEN - 4) (pkt_mem pkt)) in
     if \<not> (crc1 = computed_crc1) then (E_CRC, pkt) else
     let pkt = pkt\<lparr>p_crc1 := crc1, p_tr := ucast tr\<rparr>;
         payload_len = decode_payload_len rlen in
     if p_type pkt = ucast PTYPE_DATA then
       if p_tr pkt \<noteq> 0 \<and> \<not> (payload_len = 0) then (E_UNCONSISTENT, pkt) else
       if p_tr pkt = 0 \<and> \<not> (plen = payload_len) then (E_UNCONSISTENT, pkt) else
       if payload_len \<noteq> 0 then
         let crc2 = ntohl (load32 (pkt_mem pkt) (unat rlen - PKT_FOOTERLEN));
             computed_crc2 = crc_of crc32 (take (unat payload_len) (p_payload pkt)) in
         if \<not> (crc2 = computed_crc2) then (E_CRC, pkt)
         else (PKT_OK, pkt\<lparr>p_crc2 := crc2, p_length := ucast plen\<rparr>)
       else (PKT_OK, pkt\<lparr>p_length := ucast plen\<rparr>)
     else
       if \<not> (payload_len = 0 \<and> plen = 0) then (E_UNCONSISTENT, pkt)
       else (PKT_OK, pkt\<lparr>p_length := ucast plen\<rparr>))"

text \<open>\<open>pkt_decode\<close> copies \<open>len\<close> bytes of the caller's array, here with its true size.\<close>

definition pkt_decode ::
  "crc_fun \<Rightarrow> byte list \<Rightarrow> u64 \<Rightarrow> pkt \<Rightarrow> (pkt_status_code \<times> pkt) res" where
  "pkt_decode crc32 data len pkt =
    (if \<not> (len \<le> of_nat sizeof_pkt) then Inr (E_UNCONSISTENT, pkt) else
     if length data < unat len then Inl Out_of_bounds else
     let pkt = store_bytes pkt 0 (take (unat len) data) in
     Inr (pkt_decode_inline crc32 pkt len))"

section \<open>Encoding\<close>

text \<open>
  \<open>pkt_encode_inline\<close> reads and writes behind the payload array when the length field is
  larger than the array.
\<close>

definition pkt_encode_inline :: "crc_fun \<Rightarrow> pkt \<Rightarrow> (pkt_status_code \<times> pkt) res" where
  "pkt_encode_inline crc32 pkt =
    (let plen = unat (p_length pkt);
         offset1 = PKT_HEADERLEN - PKT_CRC1LEN;
         offset2 = PKT_HEADERLEN + plen;
         pkt = pkt\<lparr>p_length := htons (p_length pkt)\<rparr>;
         tr = ucast (p_tr pkt) :: u8;
         pkt = pkt\<lparr>p_tr := 0\<rparr>;
         pkt = store_bytes pkt offset1 (le32 (htonl (crc_of crc32 (take offset1 (pkt_mem pkt)))));
         pkt = pkt\<lparr>p_tr := ucast tr\<rparr> in
     if plen \<noteq> 0 then
       if MAX_PAYLOAD_SIZE < plen then Inl Out_of_bounds
       else Inr (PKT_OK, store_bytes pkt offset2
                  (le32 (htonl (crc_of crc32 (take plen (p_payload pkt))))))
     else Inr (PKT_OK, pkt))"

text \<open>
  \<open>pkt_encode\<close> fills the caller's buffer and lays the structure over it. The buffer may be
  shorter than the structure: the bytes that are missing are not touched.
\<close>

definition buf_as_pkt :: "byte list \<Rightarrow> pkt" where
  "buf_as_pkt b = mem_pkt (take sizeof_pkt (b @ replicate sizeof_pkt 0))"

definition pkt_over_buf :: "pkt \<Rightarrow> byte list \<Rightarrow> byte list" where
  "pkt_over_buf p b = take (length b) (pkt_mem p) @ drop sizeof_pkt b"

definition pkt_encode ::
  "crc_fun \<Rightarrow> pkt \<Rightarrow> byte list option \<Rightarrow> u64 option
     \<Rightarrow> (pkt_status_code \<times> byte list option \<times> u64 option) res" where
  "pkt_encode crc32 pkt buf len =
    (case (len, buf) of
       (Some l, Some b) \<Rightarrow>
         let target_len = pkt_len pkt in
         if \<not> (l \<ge> target_len) then Inr (E_NOMEM, buf, len) else
         if length b < unat target_len then Inl Out_of_bounds else
         let n = unat (target_len - of_nat PKT_FOOTERLEN);
             b = splice b 0 (take n (pkt_mem pkt)) in
         rbind (pkt_encode_inline crc32 (buf_as_pkt b)) (\<lambda>(s, q).
           Inr (s, Some (pkt_over_buf q b), Some target_len))
     | _ \<Rightarrow> Inr (E_NOMEM, buf, len))"

end
