(* ===== verification/Packet_Decode.thy ===== *)
theory Packet_Decode
  imports Packet_Wire
begin

text \<open>
  The decoder against the wire format: \<open>decode_ok\<close> is the condition \<open>pkt_decode_inline\<close>
  checks, on the structure the received bytes were copied into; \<open>decode_datagram\<close> carries
  it over to the bytes: a datagram is accepted exactly when it is the encoding of a valid
  segment, which the decoded packet then stands for.
\<close>

section \<open>The decoder on the packet structure\<close>


lemma unat_ucast_add16: "unat ((ucast (l :: u16) :: u64) + 16) = unat l + 16"
proof -
  have "unat l < 2 ^ 16"
    using unsigned_less [of l, where ?'a = nat] by simp
  then show ?thesis by (simp add: unat_word_ariths)
qed

lemma decode_payload_len_eq:
  "decode_payload_len rlen = ucast (l :: u16) \<longleftrightarrow>
     (if unat rlen = 12 then l = 0 else unat rlen = unat l + 16)"
proof -
  have a: "rlen - 12 = 0 \<longleftrightarrow> unat rlen = 12"
    using word_unat_eq_iff [of rlen 12] by simp
  have "rlen - 12 - 4 = ucast l \<longleftrightarrow> rlen = ucast l + 16"
    by (auto simp: algebra_simps)
  then have b: "rlen - 12 - 4 = ucast l \<longleftrightarrow> unat rlen = unat l + 16"
    by (simp only: word_unat_eq_iff [of rlen] unat_ucast_add16)
  have c: "0 = (ucast l :: u64) \<longleftrightarrow> l = 0"
    using ucast_length_0 by metis
  have d: "decode_payload_len rlen = (if rlen - 12 \<noteq> 0 then rlen - 12 - 4 else 0)"
    by (simp add: decode_payload_len_def)
  show ?thesis
    by (simp only: a b c d if_split_eq1) auto
qed

lemma decode_payload_len_0: "decode_payload_len rlen = 0 \<longleftrightarrow> unat rlen = 12 \<or> unat rlen = 16"
  using decode_payload_len_eq [of rlen 0] by simp

lemma pkt_mem_hdr: "take 12 (pkt_mem p) = wire_header (net_segment_of p) @ le32 (p_crc1 p)"
  by (simp add: pkt_mem_def net_segment_of_def segment_of_def wire_header_def be16_ntohs le16_def le32_def)

lemma pkt_mem_hdr8: "take 8 (pkt_mem p) = wire_header (net_segment_of p)"
  by (simp add: pkt_mem_def net_segment_of_def segment_of_def wire_header_def be16_ntohs le16_def le32_def)

lemma load32_crc1: "load32 (pkt_mem p) 8 = p_crc1 p"
  by (simp add: pkt_mem_def load32_def le16_def le32_def of_le32_le32)

definition pkt_tail :: "pkt \<Rightarrow> byte list" where
  "pkt_tail p = p_payload p @ le32 (p_crc2 p)"

lemma pkt_mem_append: "pkt_mem p = take 12 (pkt_mem p) @ pkt_tail p"
  by (simp add: pkt_mem_def pkt_tail_def le16_def le32_def)

lemma load32_tail: "load32 (pkt_mem p) (12 + k) = load32 (pkt_tail p) k"
  by (simp add: pkt_mem_def pkt_tail_def load32_def le16_def le32_def add.commute)

lemma header_tr0: "wire_header (net_segment_of (p\<lparr>p_tr := 0\<rparr>)) = wire_header ((net_segment_of p)\<lparr>s_tr := 0\<rparr>)"
  by (simp add: wire_header_inject net_segment_of_def segment_of_def)

definition decode_ok :: "crc_fun \<Rightarrow> pkt \<Rightarrow> nat \<Rightarrow> bool" where
  "decode_ok crc p n \<longleftrightarrow>
     (let L = unat (ntohs (p_length p)) in
      12 \<le> n \<and> p_type p \<noteq> 0 \<and> (p_tr p = 0 \<or> p_type p = 1) \<and> L \<le> 512 \<and>
      ntohl (p_crc1 p) = crc_of crc (wire_header ((net_segment_of p)\<lparr>s_tr := 0\<rparr>)) \<and>
      (if p_type p = 1 \<and> p_tr p = 0
       then (if n = 12 then L = 0 else n = L + 16) \<and>
            (L \<noteq> 0 \<longrightarrow> ntohl (load32 (pkt_tail p) L) = crc_of crc (take L (p_payload p)))
       else (n = 12 \<or> n = 16) \<and> (p_type p \<noteq> 1 \<longrightarrow> L = 0)))"

lemma pkt_tail_updates [simp]: "pkt_tail (p\<lparr>p_crc1 := a, p_tr := b\<rparr>) = pkt_tail p"
 "pkt_tail (p\<lparr>p_crc1 := a\<rparr>) = pkt_tail p" "pkt_tail (p\<lparr>p_tr := b\<rparr>) = pkt_tail p"
  by (simp_all add: pkt_tail_def)

lemma valid_type_const [simp]: "\<not> valid_type 0" "valid_type 1" "valid_tr 1 x"
  by (simp_all add: valid_type_def valid_tr_def)
lemma unat_ge_12: "12 \<le> rlen \<longleftrightarrow> 12 \<le> unat rlen" for rlen :: u64
  by (simp add: word_le_nat_alt)

lemma decode_inline_iff:
  "fst (pkt_decode_inline crc p rlen) = PKT_OK \<longleftrightarrow> decode_ok crc p (unat rlen)"
proof (cases "p_type p = 1 \<and> p_tr p = 0 \<and> ntohs (p_length p) \<noteq> 0 \<and> unat rlen = unat (ntohs (p_length p)) + 16")
  case True
  then have "decode_payload_len rlen = ucast (ntohs (p_length p))"
    by (simp add: decode_payload_len_eq)
  moreover have "unat rlen - 4 = 12 + unat (ntohs (p_length p))"
    using True by simp
  ultimately show ?thesis
    using True
    by (simp add: pkt_decode_inline_def Let_def decode_ok_def unat_ge_12 load32_crc1 pkt_mem_hdr8 header_tr0 load32_tail unat_gt_0)
next
  case False
  have "(ucast (ntohs (p_length p)) = decode_payload_len rlen) \<longleftrightarrow> (if unat rlen = 12 then ntohs (p_length p) = 0 else unat rlen = unat (ntohs (p_length p)) + 16)"
    using decode_payload_len_eq by metis
  with False show ?thesis
    by (simp add: pkt_decode_inline_def Let_def decode_ok_def unat_ge_12 load32_crc1 pkt_mem_hdr8
        header_tr0 load32_tail decode_payload_len_0)
       (auto simp: unsigned_eq_0_iff)
qed

lemma decode_inline_frame:
  assumes "pkt_decode_inline crc p rlen = (st, q)"
  shows "p_payload q = p_payload p" "p_type q = p_type p" "p_window q = p_window p"
    "p_seq q = p_seq p" "p_ts q = p_ts p"
  using assms by (auto simp: pkt_decode_inline_def Let_def split: if_splits)

lemma decode_inline_result:
  assumes "pkt_decode_inline crc p rlen = (PKT_OK, q)"
  shows "p_tr q = p_tr p" "p_length q = ntohs (p_length p)" "p_crc1 q = ntohl (p_crc1 p)"
proof -
  have r: "(ucast (ntohs (p_length p)) :: u64) = x \<Longrightarrow> ucast x = ntohs (p_length p)" for x
    by auto
  show "p_tr q = p_tr p" "p_length q = ntohs (p_length p)" "p_crc1 q = ntohl (p_crc1 p)"
    using assms
    by (auto simp: pkt_decode_inline_def Let_def load32_crc1 split: if_splits intro: r)
qed

lemma decode_inline_segment:
  assumes "pkt_decode_inline crc p rlen = (PKT_OK, q)"
  shows "segment_of q = net_segment_of p"
  using decode_inline_frame [OF assms] decode_inline_result [OF assms]
  by (simp add: net_segment_of_def segment_of_def)

lemma le32_load32_tail: "wf_pkt p \<Longrightarrow> k \<le> 512 \<Longrightarrow> le32 (load32 (pkt_tail p) k) = take 4 (drop k (pkt_tail p))"
  by (rule le32_load32) (simp add: pkt_tail_def wf_pkt_def)

lemma take_pkt_mem: "12 \<le> n \<Longrightarrow>
  take n (pkt_mem p) = wire_header (net_segment_of p) @ le32 (p_crc1 p) @ take (n - 12) (pkt_tail p)"
  by (subst pkt_mem_append) (simp add: pkt_mem_hdr)

lemma decode_ok_sound:
  assumes ok: "decode_ok crc p n" and wf: "wf_pkt p" and "n \<le> 528"
  shows "valid_segment (net_segment_of p) \<and>
    (\<exists>t. take n (pkt_mem p) = wire_of crc (net_segment_of p) @ t \<and>
         (t = [] \<or> length t = 4 \<and> s_data (net_segment_of p) = []))"
proof -
  let ?s = "net_segment_of p" and ?L = "unat (ntohs (p_length p))"
  have v: "valid_segment ?s"
    using ok wf by (auto simp: decode_ok_def Let_def valid_segment_def net_segment_of_def segment_of_def wf_pkt_def
       unsigned_eq_0_iff split: if_splits)
  have crc1: "le32 (p_crc1 p) = be32 (crc_of crc (wire_header (?s\<lparr>s_tr := 0\<rparr>)))"
    using ok by (auto simp: decode_ok_def Let_def be32_ntohl [symmetric])
  show ?thesis
  proof (cases "s_data ?s = []")
    case True
    then have "n = 12 \<or> n = 16"
      using ok wf by (auto simp: decode_ok_def Let_def net_segment_of_def segment_of_def wf_pkt_def split: if_splits)
    then show ?thesis
      using v True wf
      by (intro conjI exI [of _ "take (n - 12) (pkt_tail p)"])
         (auto simp: take_pkt_mem wire_of_def crc1 pkt_tail_def wf_pkt_def)
  next
    case False
    then have n: "n = ?L + 16" "?L \<noteq> 0" "?L \<le> 512" and d: "s_data ?s = take ?L (p_payload p)"
      and c: "ntohl (load32 (pkt_tail p) ?L) = crc_of crc (take ?L (p_payload p))"
      using ok wf by (auto simp: decode_ok_def Let_def net_segment_of_def segment_of_def wf_pkt_def split: if_splits)
    have "take (?L + 4) (pkt_tail p) = take ?L (pkt_tail p) @ take 4 (drop ?L (pkt_tail p))"
      by (rule take_add)
    also have "\<dots> = take ?L (p_payload p) @ be32 (crc_of crc (take ?L (p_payload p)))"
      using n wf le32_load32_tail [OF wf n(3)] c by (simp add: pkt_tail_def wf_pkt_def be32_ntohl [symmetric])
    finally show ?thesis
      using v False n d by (simp add: take_pkt_mem wire_of_def crc1 add.commute)
  qed
qed

lemma decode_ok_complete:
  assumes v: "valid_segment s" and wf: "wf_pkt p" and "n \<le> 528"
    and bytes: "take n (pkt_mem p) = wire_of crc s @ t"
    and t: "t = [] \<or> length t = 4 \<and> s_data s = []"
  shows "decode_ok crc p n \<and> net_segment_of p = s"
proof -
  let ?L = "unat (s_length s)"
  have n: "n = length (wire_of crc s) + length t"
    using arg_cong [OF bytes, of length] wf \<open>n \<le> 528\<close> by simp
  then have "12 \<le> n"
    by (simp add: length_wire_of)
  then have eqs: "wire_header (net_segment_of p) = wire_header s"
    "le32 (p_crc1 p) = be32 (crc_of crc (wire_header (s\<lparr>s_tr := 0\<rparr>)))"
    "take (n - 12) (pkt_tail p) =
       (if s_data s = [] then [] else s_data s @ be32 (crc_of crc (s_data s))) @ t"
    using bytes by (simp_all add: take_pkt_mem wire_of_def)
  from eqs(1) have f: "p_type p = s_type s" "p_tr p = s_tr s" "p_window p = s_window s"
    "p_seq p = s_seq s" "ntohs (p_length p) = s_length s" "p_ts p = s_ts s"
    by (auto simp: wire_header_inject net_segment_of_def segment_of_def)
  have hdr: "wire_header ((net_segment_of p)\<lparr>s_tr := 0\<rparr>) = wire_header (s\<lparr>s_tr := 0\<rparr>)"
    using eqs(1) by (simp add: wire_header_inject)
  have c1: "ntohl (p_crc1 p) = crc_of crc (wire_header (s\<lparr>s_tr := 0\<rparr>))"
    using eqs(2) by (simp add: be32_ntohl [symmetric])
  have sn: "net_segment_of p = s\<lparr>s_data := (if s_tr s = 0 then take ?L (p_payload p) else [])\<rparr>"
    using f by (simp add: net_segment_of_def segment_of_def)
  show ?thesis
  proof (cases "s_data s = []")
    case True
    then have "?L = 0 \<or> s_tr s \<noteq> 0"
      using v by (auto simp: valid_segment_def split: if_splits)
    then have "net_segment_of p = s"
      using True sn by auto
    moreover have "n = 12 \<or> n = 16"
      using n t True by (auto simp: length_wire_of)
    ultimately show ?thesis
      using v f c1 hdr True
      by (auto simp: decode_ok_def Let_def valid_segment_def unsigned_eq_0_iff split: if_splits)
  next
    case False
    then have l1: "length (s_data s) = ?L" "s_type s = 1" "s_tr s = 0" "?L \<le> 512" "t = []"
      using v t by (auto simp: valid_segment_def split: if_splits)
    then have l: "length (s_data s) = ?L" "?L \<noteq> 0" "s_type s = 1" "s_tr s = 0" "?L \<le> 512" "t = []"
      using False by (simp_all flip: l1(1))
    then have n16: "n = ?L + 16"
      using n False by (simp add: length_wire_of)
    have e: "take (?L + 4) (pkt_tail p) = s_data s @ be32 (crc_of crc (s_data s))"
      using eqs(3) False n16 l by (simp add: add.commute)
    have d: "take ?L (pkt_tail p) = s_data s"
      using arg_cong [OF e, of "take ?L"] l by simp
    have "drop ?L (take (?L + 4) (pkt_tail p)) = be32 (crc_of crc (s_data s))"
      using l by (simp add: e)
    then have "le32 (load32 (pkt_tail p) ?L) = be32 (crc_of crc (s_data s))"
      using le32_load32_tail [OF wf l(5)] by (simp add: drop_take)
    then have "ntohl (load32 (pkt_tail p) ?L) = crc_of crc (s_data s)"
      by (simp add: be32_ntohl [symmetric])
    moreover have p: "take ?L (p_payload p) = s_data s"
      using d wf l by (simp add: pkt_tail_def wf_pkt_def)
    ultimately show ?thesis
      using f c1 hdr l n16 sn by (simp add: decode_ok_def Let_def)
  qed
qed

lemma store_bytes_0:
  assumes "wf_pkt q" and "length bs \<le> 528"
  shows "wf_pkt (store_bytes q 0 bs)" "take (length bs) (pkt_mem (store_bytes q 0 bs)) = bs"
  using assms by (simp_all add: store_bytes_def pkt_mem_mem_pkt) (simp add: splice_0)

text \<open>The two directions over the bytes of a datagram.\<close>

definition datagram_of :: "crc_fun \<Rightarrow> segment \<Rightarrow> byte list \<Rightarrow> bool" where
  "datagram_of crc s bs \<longleftrightarrow>
     valid_segment s \<and>
     (\<exists>t. bs = wire_of crc s @ t \<and> (t = [] \<or> length t = 4 \<and> s_data s = []))"

lemma decode_datagram:
  assumes "wf_pkt q" and "length bs \<le> 528"
  shows "(\<exists>q'. pkt_decode_inline crc (store_bytes q 0 bs) (of_nat (length bs)) = (PKT_OK, q') \<and>
            segment_of q' = s) \<longleftrightarrow> datagram_of crc s bs"
proof -
  let ?p = "store_bytes q 0 bs" and ?n = "length bs"
  have n: "unat (of_nat ?n :: u64) = ?n"
    using assms(2) by (simp add: unat_of_nat)
  note p = store_bytes_0 [OF assms]
  show ?thesis
  proof
    assume "\<exists>q'. pkt_decode_inline crc ?p (of_nat ?n) = (PKT_OK, q') \<and> segment_of q' = s"
    then obtain q' where q': "pkt_decode_inline crc ?p (of_nat ?n) = (PKT_OK, q')" "segment_of q' = s"
      by blast
    then have "decode_ok crc ?p ?n"
      using decode_inline_iff [of crc ?p "of_nat ?n"] n by simp
    moreover have "s = net_segment_of ?p"
      using q' decode_inline_segment by metis
    ultimately show "datagram_of crc s bs"
      using decode_ok_sound [OF _ p(1) assms(2)] p(2) by (simp add: datagram_of_def)
  next
    assume "datagram_of crc s bs"
    then obtain t where "valid_segment s" "bs = wire_of crc s @ t"
      "t = [] \<or> length t = 4 \<and> s_data s = []"
      by (auto simp: datagram_of_def)
    then have ok: "decode_ok crc ?p ?n" "net_segment_of ?p = s"
      using decode_ok_complete [OF _ p(1) assms(2)] p(2) by simp_all
    then have "fst (pkt_decode_inline crc ?p (of_nat ?n)) = PKT_OK"
      using decode_inline_iff n by simp
    then obtain q' where "pkt_decode_inline crc ?p (of_nat ?n) = (PKT_OK, q')"
      by (metis fst_conv surj_pair)
    then show "\<exists>q'. pkt_decode_inline crc ?p (of_nat ?n) = (PKT_OK, q') \<and> segment_of q' = s"
      using decode_inline_segment ok(2) by blast
  qed
qed

end
