(* ===== verification/Packet_Encode.thy ===== *)
theory Packet_Encode
  imports Packet_Decode
begin

text \<open>
  The encoders against the wire format: \<open>encoded_pkt\<close> is what \<open>pkt_encode_inline\<close> leaves
  in memory, and its first \<open>pkt_len\<close> bytes are the encoding of the segment. Then the
  round trip of encoder and decoder.
\<close>

section \<open>The encoder on the packet structure\<close>

lemma pkt_hdr_eq:
  "take 12 (pkt_mem q) = take 12 (pkt_mem p) \<longleftrightarrow>
     p_type q = p_type p \<and> p_tr q = p_tr p \<and> p_window q = p_window p \<and> p_seq q = p_seq p \<and>
     p_length q = p_length p \<and> p_ts q = p_ts p \<and> p_crc1 q = p_crc1 p"
  by (auto simp: pkt_mem_hdr wire_header_inject net_segment_of_def segment_of_def)
     (metis ntohs_ntohs)+

lemma store_crc1: "wf_pkt p \<Longrightarrow> store_bytes p 8 (le32 w) = p\<lparr>p_crc1 := w\<rparr>"
proof -
  assume wf: "wf_pkt p"
  have "splice (pkt_mem p) 8 (le32 w) = pkt_mem (p\<lparr>p_crc1 := w\<rparr>)"
    by (simp add: splice_def pkt_mem_def le16_def le32_def)
  then show ?thesis
    using wf by (simp add: store_bytes_def mem_pkt_pkt_mem)
qed

lemma pkt_mem_store:
  "wf_pkt p \<Longrightarrow> off + length xs \<le> 528 \<Longrightarrow> pkt_mem (store_bytes p off xs) = splice (pkt_mem p) off xs"
  by (simp add: store_bytes_def pkt_mem_mem_pkt)

lemma length_pkt_tail [simp]: "wf_pkt p \<Longrightarrow> length (pkt_tail p) = 516"
  by (simp add: pkt_tail_def wf_pkt_def)

lemma store_tail:
  assumes "wf_pkt p" and "k \<le> 512"
  shows "take 12 (pkt_mem (store_bytes p (12 + k) (le32 w))) = take 12 (pkt_mem p)"
    and "pkt_tail (store_bytes p (12 + k) (le32 w)) = splice (pkt_tail p) k (le32 w)"
proof -
  have m: "pkt_mem (store_bytes p (12 + k) (le32 w)) = take (12 + k) (pkt_mem p) @ le32 w @ drop (12 + k + 4) (pkt_mem p)"
    using assms by (simp add: pkt_mem_store splice_def add.commute)
  have t: "pkt_tail q = drop 12 (pkt_mem q)" for q
    by (simp add: pkt_mem_def pkt_tail_def le16_def le32_def)
  show "take 12 (pkt_mem (store_bytes p (12 + k) (le32 w))) = take 12 (pkt_mem p)"
    using assms by (simp add: m min_def)
  show "pkt_tail (store_bytes p (12 + k) (le32 w)) = splice (pkt_tail p) k (le32 w)"
    using assms unfolding t m by (simp add: splice_def add.commute drop_take)
qed

definition raw_segment_of :: "pkt \<Rightarrow> segment" where
  "raw_segment_of p = (segment_of p)\<lparr>s_data := take (unat (p_length p)) (p_payload p)\<rparr>"

text \<open>What \<open>pkt_encode_inline\<close> leaves in memory, in full.\<close>

definition encoded_header :: "crc_fun \<Rightarrow> pkt \<Rightarrow> pkt" where
  "encoded_header crc p = p\<lparr>p_length := htons (p_length p),
     p_crc1 := htonl (crc_of crc (wire_header ((segment_of p)\<lparr>s_tr := 0\<rparr>)))\<rparr>"

definition encoded_pkt :: "crc_fun \<Rightarrow> pkt \<Rightarrow> pkt" where
  "encoded_pkt crc p =
    (if p_length p = 0 then encoded_header crc p
     else store_bytes (encoded_header crc p) (12 + unat (p_length p))
       (le32 (htonl (crc_of crc (take (unat (p_length p)) (p_payload p))))))"

lemma pkt_encode_inline_eq:
  assumes "wf_pkt p"
  shows "pkt_encode_inline crc p =
    (if 512 < unat (p_length p) then Inl Out_of_bounds else Inr (PKT_OK, encoded_pkt crc p))"
proof -
  let ?p0 = "p\<lparr>p_length := htons (p_length p), p_tr := 0\<rparr>"
  have h: "take 8 (pkt_mem ?p0) = wire_header ((segment_of p)\<lparr>s_tr := 0\<rparr>)"
    by (simp add: pkt_mem_hdr8 wire_header_inject net_segment_of_def segment_of_def)
  have s: "(store_bytes ?p0 8 (le32 w))\<lparr>p_tr := p_tr p\<rparr> = p\<lparr>p_length := htons (p_length p), p_crc1 := w\<rparr>" for w
    using assms by (simp add: store_crc1)
  show ?thesis
  proof (cases "p_length p = 0")
    case True
    then show ?thesis
      using h s by (simp add: pkt_encode_inline_def Let_def encoded_pkt_def encoded_header_def)
  next
    case False
    then show ?thesis
      by (simp add: pkt_encode_inline_def Let_def h s unsigned_eq_0_iff encoded_pkt_def
          encoded_header_def)
  qed
qed

lemma encoded_pkt:
  assumes wf: "wf_pkt p" and len: "unat (p_length p) \<le> 512"
  shows "wf_pkt (encoded_pkt crc p)"
    and "p_seq (encoded_pkt crc p) = p_seq p" "p_type (encoded_pkt crc p) = p_type p"
      "p_tr (encoded_pkt crc p) = p_tr p" "p_window (encoded_pkt crc p) = p_window p"
      "p_ts (encoded_pkt crc p) = p_ts p" "p_length (encoded_pkt crc p) = htons (p_length p)"
    and "take (unat (pkt_len p)) (pkt_mem (encoded_pkt crc p)) = wire_of crc (raw_segment_of p)"
proof -
  let ?e = "encoded_pkt crc p" and ?h = "encoded_header crc p" and ?L = "unat (p_length p)"
  have wfh: "wf_pkt ?h"
    using wf by (simp add: encoded_header_def)
  show "wf_pkt ?e"
    using wfh len by (simp add: encoded_pkt_def)
  have hdr: "take 12 (pkt_mem ?e) = take 12 (pkt_mem ?h)"
    using store_tail(1) [OF wfh len] by (simp add: encoded_pkt_def)
  then show "p_seq ?e = p_seq p" "p_type ?e = p_type p" "p_tr ?e = p_tr p"
    "p_window ?e = p_window p" "p_ts ?e = p_ts p" "p_length ?e = htons (p_length p)"
    by (simp_all add: pkt_hdr_eq encoded_header_def)
  have h12: "take 12 (pkt_mem ?h) =
     wire_header (raw_segment_of p) @ be32 (crc_of crc (wire_header ((raw_segment_of p)\<lparr>s_tr := 0\<rparr>)))"
  proof -
    have "wire_header (net_segment_of ?h) = wire_header (raw_segment_of p)"
      "wire_header ((segment_of p)\<lparr>s_tr := 0\<rparr>) = wire_header ((raw_segment_of p)\<lparr>s_tr := 0\<rparr>)"
      by (simp_all add: wire_header_inject encoded_header_def raw_segment_of_def net_segment_of_def segment_of_def)
    then show ?thesis
      by (simp add: pkt_mem_hdr le32_htonl) (simp add: encoded_header_def le32_htonl)
  qed
  show "take (unat (pkt_len p)) (pkt_mem ?e) = wire_of crc (raw_segment_of p)"
  proof (cases "p_length p = 0")
    case True
    then show ?thesis
      using hdr h12 by (simp add: unat_pkt_len wire_of_def raw_segment_of_def)
  next
    case False
    then have L: "?L \<noteq> 0" by (simp add: unsigned_eq_0_iff)
    let ?d = "take ?L (p_payload p)"
    have "pkt_tail ?e = splice (pkt_tail ?h) ?L (be32 (crc_of crc ?d))"
      using False store_tail(2) [OF wfh len, of "htonl (crc_of crc ?d)"] by (simp add: encoded_pkt_def le32_htonl)
    then have "take (?L + 4) (pkt_tail ?e) = ?d @ be32 (crc_of crc ?d)"
      using wf len by (simp add: splice_def pkt_tail_def encoded_header_def wf_pkt_def)
    moreover have "take (?L + 16) (pkt_mem ?e) = take 12 (pkt_mem ?e) @ take (?L + 4) (pkt_tail ?e)"
      using take_pkt_mem [of "?L + 16" ?e] take_pkt_mem [of 12 ?e] by (simp add: add.commute)
    moreover have "?d \<noteq> []"
      using L wf by (auto simp: wf_pkt_def)
    ultimately show ?thesis
      using False hdr h12 by (simp add: unat_pkt_len wire_of_def raw_segment_of_def add.commute)
  qed
qed

lemma encoded_pkt_rest:
  assumes wf: "wf_pkt p" and len: "unat (p_length p) \<le> 512"
  shows "drop (unat (pkt_len p)) (pkt_mem (encoded_pkt crc p)) = drop (unat (pkt_len p)) (pkt_mem p)"
proof -
  have t: "drop 12 (pkt_mem q) = pkt_tail q" for q
    by (simp add: pkt_mem_def pkt_tail_def le16_def le32_def)
  have wfh: "wf_pkt (encoded_header crc p)"
    using wf by (simp add: encoded_header_def)
  have "pkt_tail (encoded_header crc p) = pkt_tail p"
    by (simp add: encoded_header_def pkt_tail_def)
  then have "p_length p \<noteq> 0 \<Longrightarrow> drop (unat (p_length p) + 4) (pkt_tail (encoded_pkt crc p)) = drop (unat (p_length p) + 4) (pkt_tail p)"
    "p_length p = 0 \<Longrightarrow> pkt_tail (encoded_pkt crc p) = pkt_tail p"
    using store_tail(2) [OF wfh len] wf len by (simp_all add: encoded_pkt_def splice_def)
  moreover have "drop (k + 16) (pkt_mem q) = drop (k + 4) (drop 12 (pkt_mem q))" for k q
    by (simp add: add.commute)
  ultimately show ?thesis
    by (auto simp: unat_pkt_len t add.commute)
qed

lemma buf_as_pkt:
  "wf_pkt (buf_as_pkt b)" "pkt_mem (buf_as_pkt b) = take 528 (b @ replicate 528 0)"
  by (simp_all add: buf_as_pkt_def pkt_mem_mem_pkt)

text \<open>The first eight bytes and the payload in use determine the segment that is encoded.\<close>

lemma raw_segment_of_cong:
  assumes "take 8 (pkt_mem q) = take 8 (pkt_mem p)"
    and "take (unat (p_length p)) (p_payload q) = take (unat (p_length p)) (p_payload p)"
  shows "raw_segment_of q = raw_segment_of p" "p_length q = p_length p"
proof -
  have "wire_header (net_segment_of q) = wire_header (net_segment_of p)"
    using assms(1) by (simp add: pkt_mem_hdr8)
  then have *: "p_type q = p_type p" "p_tr q = p_tr p" "p_window q = p_window p" "p_seq q = p_seq p"
    "ntohs (p_length q) = ntohs (p_length p)" "p_ts q = p_ts p"
    by (auto simp: wire_header_inject net_segment_of_def segment_of_def)
  show "p_length q = p_length p"
    using *(5) by (metis ntohs_ntohs)
  then show "raw_segment_of q = raw_segment_of p"
    using * assms(2) by (simp add: raw_segment_of_def segment_of_def)
qed

lemma overlay_rest:
  assumes "length W = T" and "T \<le> length b" and "T \<le> N"
  shows "take (length b) (W @ take (N - T) (drop T b @ replicate N z)) @ drop N b = W @ drop T b"
proof (cases "length b \<le> N")
  case True
  then show ?thesis using assms by (simp add: min_def)
next
  case False
  have "drop N b = drop (N - T) (drop T b)"
    using assms by simp
  then have "take (N - T) (drop T b) @ drop N b = drop T b"
    by (metis append_take_drop_id)
  then show ?thesis using False assms by (simp add: min_def)
qed

lemma pkt_encode_wire:
  assumes wf: "wf_pkt p" and len: "unat (p_length p) \<le> 512"
    and room: "unat (pkt_len p) \<le> unat l" "unat (pkt_len p) \<le> length b"
  shows "pkt_encode crc p (Some b) (Some l) =
    Inr (PKT_OK, Some (wire_of crc (raw_segment_of p) @ drop (unat (pkt_len p)) b), Some (pkt_len p))"
proof -
  let ?T = "unat (pkt_len p)" and ?n = "unat (pkt_len p - 4)"
  let ?b = "splice b 0 (take ?n (pkt_mem p))" and ?L = "unat (p_length p)"
  let ?q = "buf_as_pkt ?b"
  have "4 \<le> pkt_len p"
    by (simp add: word_le_nat_alt unat_pkt_len)
  then have n: "?n = ?T - 4"
    by (simp add: unat_sub)
  have T: "?T \<le> 528" "12 \<le> ?T"
    using len by (simp_all add: unat_pkt_len)
  have lb: "length ?b = length b"
    using room n wf T by simp
  have mq: "take ?n (pkt_mem ?q) = take ?n (pkt_mem p)"
    using wf n T room by (simp add: buf_as_pkt(2) splice_0 min_def)
  have tl: "drop 12 (pkt_mem r) = p_payload r @ le32 (p_crc2 r)" for r
    by (simp add: pkt_mem_def le16_def le32_def)
  have "take 8 (pkt_mem ?q) = take 8 (pkt_mem p)"
  proof -
    have "min 8 ?n = 8"
      using n T by simp
    then show ?thesis
      using arg_cong [OF mq, of "take 8"] by simp
  qed
  moreover have "take ?L (p_payload ?q) = take ?L (p_payload p)"
  proof (cases "p_length p = 0")
    case False
    then have "?n = 12 + ?L"
      by (simp add: n unat_pkt_len)
    then have "take ?L (drop 12 (pkt_mem ?q)) = take ?L (drop 12 (pkt_mem p))"
      using arg_cong [OF mq, of "drop 12"] by (simp add: drop_take)
    then show ?thesis
      using len wf buf_as_pkt(1) [of ?b] by (simp add: tl wf_pkt_def)
  qed simp
  ultimately have seg: "raw_segment_of ?q = raw_segment_of p" "p_length ?q = p_length p"
    by (rule raw_segment_of_cong)+
  have Tq: "unat (pkt_len ?q) = ?T"
    by (simp add: unat_pkt_len seg(2))
  note e = encoded_pkt(8) [OF buf_as_pkt(1), of ?b crc] encoded_pkt_rest [OF buf_as_pkt(1), of ?b crc]
  have lenq: "length (pkt_mem (encoded_pkt crc ?q)) = 528"
    using encoded_pkt(1) [OF buf_as_pkt(1)] len seg by simp
  have "pkt_mem (encoded_pkt crc ?q) = wire_of crc (raw_segment_of p) @ drop ?T (pkt_mem ?q)"
    using e len seg Tq by (metis append_take_drop_id)
  moreover have "drop ?T (pkt_mem ?q) = take (528 - ?T) (drop ?T b @ replicate 528 0)"
    using n T room wf by (simp add: buf_as_pkt(2) drop_take splice_0)
  moreover have "length (wire_of crc (raw_segment_of p)) = ?T"
    using arg_cong [OF e(1), of length] lenq len seg Tq T by simp
  ultimately have "pkt_over_buf (encoded_pkt crc ?q) ?b = wire_of crc (raw_segment_of p) @ drop ?T b"
    using room T n wf lb overlay_rest [of "wire_of crc (raw_segment_of p)" ?T b 528 "0 :: byte"]
    by (simp add: pkt_over_buf_def splice_0 del: take_append take_take)
  moreover have "pkt_len p \<le> l"
    using room by (simp add: word_le_nat_alt)
  ultimately show ?thesis
    using room len seg by (simp add: pkt_encode_def Let_def pkt_encode_inline_eq buf_as_pkt(1))
qed

end
