(* ===== verification/Packet_Props.thy ===== *)
theory Packet_Props
  imports Packet_Encode
begin

text \<open>
  What the packet module promises its clients: the decoder is exact, it reports the first
  failed check, the encoder produces the wire format, the two are inverse, a truncation by
  the network is recognised, and the setters keep a packet encodable.
\<close>

unbundle bit_operations_syntax

section \<open>Packets and checksums the witnesses use\<close>

definition demo_crc :: crc_fun where
  "demo_crc c d = (case d of None \<Rightarrow> 0 | Some bs \<Rightarrow> c + sum_list (map ucast bs))"

definition demo_ack :: segment where
  "demo_ack = \<lparr>s_type = 2, s_tr = 0, s_window = 31, s_seq = 7, s_length = 0, s_ts = 5, s_data = []\<rparr>"

definition demo_data :: segment where
  "demo_data = \<lparr>s_type = 1, s_tr = 0, s_window = 0, s_seq = 7, s_length = 3, s_ts = 5,
     s_data = [1, 2, 3]\<rparr>"

definition demo_pkt :: pkt where
  "demo_pkt = pkt_zero\<lparr>p_type := 1, p_seq := 7, p_length := 3, p_payload := replicate 512 9\<rparr>"

lemma demo_valid: "valid_segment demo_ack" "valid_segment demo_data"
  by (simp_all add: valid_segment_def demo_ack_def demo_data_def)

lemma demo_pkt_fields [simp]:
  "wf_pkt demo_pkt" "p_type demo_pkt = 1" "p_tr demo_pkt = 0" "p_length demo_pkt = 3"
  by (simp_all add: demo_pkt_def wf_pkt_def pkt_zero_def)

section \<open>The decoder is exact\<close>

lemma length_datagram: "datagram_of crc s bs \<Longrightarrow> 12 \<le> length bs \<and> length bs \<le> 528"
  by (auto simp: datagram_of_def length_wire_of valid_segment_def split: if_splits)

lemma pkt_decode_bytes:
  assumes "length bs < 2 ^ 64"
  shows "pkt_decode crc bs (of_nat (length bs)) q =
    Inr (if length bs \<le> 528 then pkt_decode_inline crc (store_bytes q 0 bs) (of_nat (length bs))
         else (E_UNCONSISTENT, q))"
proof -
  have n: "unat (of_nat (length bs) :: u64) = length bs"
    using assms by (simp add: unat_of_nat)
  then have "(of_nat (length bs) :: u64) \<le> 528 \<longleftrightarrow> length bs \<le> 528"
    by (simp add: word_le_nat_alt)
  then show ?thesis
    by (simp add: pkt_decode_def n)
qed

text \<open>
  C12. \<open>pkt_decode\<close> accepts a datagram exactly when it is the encoding of a valid segment (as
  the statement defines it: type, TR, length and both checksums consistent), possibly with
  four stray bytes behind a segment without payload; the packet it fills in then stands for
  that segment, whatever the packet held before and whatever the checksum function is.
\<close>

theorem pkt_decode_exact:
  assumes "wf_pkt q" and "length bs < 2 ^ 64"
  shows "(\<exists>q'. pkt_decode crc bs (of_nat (length bs)) q = Inr (PKT_OK, q') \<and> segment_of q' = s)
    \<longleftrightarrow> datagram_of crc s bs"
proof (cases "length bs \<le> 528")
  case True
  then show ?thesis
    using decode_datagram [OF assms(1) True, of crc s] assms(2) by (simp add: pkt_decode_bytes)
next
  case False
  then show ?thesis
    using length_datagram [of crc s bs] assms(2) by (auto simp: pkt_decode_bytes)
qed

theorem pkt_decode_exact_witness:
  "\<exists>q'. pkt_decode demo_crc (wire_of demo_crc demo_data)
      (of_nat (length (wire_of demo_crc demo_data))) pkt_zero = Inr (PKT_OK, q')
    \<and> segment_of q' = demo_data"
proof -
  have "length (wire_of demo_crc demo_data) < 2 ^ 64"
    by (simp add: length_wire_of demo_data_def)
  moreover have "datagram_of demo_crc demo_data (wire_of demo_crc demo_data)"
    using demo_valid by (simp add: datagram_of_def)
  ultimately show ?thesis
    using pkt_decode_exact [OF wf_pkt_zero] by blast
qed

section \<open>Which error the decoder reports\<close>

definition decode_status :: "crc_fun \<Rightarrow> pkt \<Rightarrow> nat \<Rightarrow> pkt_status_code" where
  "decode_status crc p n =
    (let L = unat (ntohs (p_length p)); s = net_segment_of p in
     if n < 12 then E_NOHEADER
     else if p_type p = 0 then E_TYPE
     else if p_tr p \<noteq> 0 \<and> p_type p \<noteq> 1 then E_TR
     else if 512 < L then E_LENGTH
     else if ntohl (p_crc1 p) \<noteq> crc_of crc (wire_header (s\<lparr>s_tr := 0\<rparr>)) then E_CRC
     else if (if p_type p = 1 \<and> p_tr p = 0 then n \<noteq> 16 + L \<and> (n \<noteq> 12 \<or> L \<noteq> 0)
              else n \<notin> {12, 16} \<or> p_type p \<noteq> 1 \<and> L \<noteq> 0) then E_UNCONSISTENT
     else if p_type p = 1 \<and> p_tr p = 0 \<and> L \<noteq> 0 \<and>
             ntohl (load32 (pkt_tail p) L) \<noteq> crc_of crc (take L (p_payload p)) then E_CRC
     else PKT_OK)"

text \<open>
  \<open>pkt_decode_inline\<close> reports the first check that fails, in the order header present,
  type, TR, length field, first checksum, number of bytes received, second checksum. The
  number of bytes is compared without wrap-around: one to three bytes behind the header,
  for which the code's subtraction underflows, are reported as inconsistent.
\<close>

theorem pkt_decode_inline_status:
  "fst (pkt_decode_inline crc p rlen) = decode_status crc p (unat rlen)"
proof -
  let ?l = "ntohs (p_length p)" and ?n = "unat rlen"
  let ?crc1_ok = "ntohl (p_crc1 p) = crc_of crc (wire_header ((net_segment_of p)\<lparr>s_tr := 0\<rparr>))"
  note defs = pkt_decode_inline_def Let_def decode_status_def unat_ge_12 load32_crc1
    pkt_mem_hdr8 header_tr0
  have m: "(ucast ?l = decode_payload_len rlen) \<longleftrightarrow> (if ?n = 12 then ?l = 0 else ?n = unat ?l + 16)"
    using decode_payload_len_eq by metis
  show ?thesis
  proof (cases "12 \<le> ?n \<and> p_type p \<noteq> 0 \<and> (p_tr p = 0 \<or> p_type p = 1) \<and> unat ?l \<le> 512 \<and> ?crc1_ok")
    case False
    then show ?thesis
      by (cases "?n < 12"; cases "p_type p = 0"; cases "p_tr p = 0 \<or> p_type p = 1";
          cases "512 < unat ?l"; cases ?crc1_ok; simp add: defs)
  next
    case hdr: True
    show ?thesis
    proof (cases "p_type p = 1 \<and> p_tr p = 0")
      case False
      then show ?thesis
        using hdr by (auto simp: defs decode_payload_len_0 unsigned_eq_0_iff)
    next
      case dat: True
      show ?thesis
      proof (cases "?l \<noteq> 0 \<and> ucast ?l = decode_payload_len rlen")
        case False
        then show ?thesis
          using hdr dat m decode_payload_len_0 [of rlen] by (auto simp: defs unsigned_eq_0_iff)
      next
        case True
        then have "decode_payload_len rlen = ucast ?l" "unat rlen - 4 = 12 + unat ?l" "unat ?l \<noteq> 0"
          "?n = unat ?l + 16"
          using m by (auto simp: unsigned_eq_0_iff split: if_splits)
        then show ?thesis
          using hdr dat conjunct1 [OF True] by (simp add: defs load32_tail)
      qed
    qed
  qed
qed

text \<open>
  The decoder does not look at four bytes behind a segment without payload: a header
  whose own checks succeed is accepted with any four bytes after it.
\<close>

theorem pkt_decode_stray_bytes:
  assumes "wf_pkt q" and "valid_segment s" and "s_data s = []" and "length t = 4"
  shows "\<exists>q'. pkt_decode crc (wire_of crc s @ t) 16 q = Inr (PKT_OK, q') \<and> segment_of q' = s"
proof -
  have "length (wire_of crc s @ t) = 16"
    using assms(3,4) by (simp add: length_wire_of)
  moreover have "datagram_of crc s (wire_of crc s @ t)"
    using assms(2-4) by (auto simp: datagram_of_def)
  ultimately show ?thesis
    using pkt_decode_bytes [of "wire_of crc s @ t"] 
      decode_datagram [OF assms(1), of "wire_of crc s @ t" crc s]
    by auto
qed

theorem pkt_decode_stray_bytes_witness:
  "\<exists>q'. pkt_decode demo_crc (wire_of demo_crc demo_ack @ [1, 2, 3, 4]) 16 pkt_zero =
      Inr (PKT_OK, q') \<and> segment_of q' = demo_ack"
proof -
  have "s_data demo_ack = []"
    by (simp add: demo_ack_def)
  then show ?thesis
    by (intro pkt_decode_stray_bytes demo_valid wf_pkt_zero) simp_all
qed

section \<open>The encoder produces the wire format\<close>

text \<open>
  C13. \<open>pkt_encode\<close> of a packet with a length of at most 512 writes exactly the encoding of
  its segment and nothing else, and sets the length to the number of bytes written; a buffer
  that is too small for it is left alone and reported as \<open>E_NOMEM\<close>.
\<close>

theorem pkt_encode_exact:
  assumes "wf_pkt p" and "unat (p_length p) \<le> 512" and "unat l \<le> length b"
  shows "pkt_encode crc p (Some b) (Some l) =
    Inr (let w = wire_of crc (raw_segment_of p) in
         if unat l < length w then (E_NOMEM, Some b, Some l)
         else (PKT_OK, Some (w @ drop (length w) b), Some (of_nat (length w))))"
proof -
  have "length (wire_of crc (raw_segment_of p)) = unat (pkt_len p)"
    using assms(1,2)
    by (auto simp: unat_pkt_len length_wire_of raw_segment_of_def wf_pkt_def unsigned_eq_0_iff)
  moreover have "unat l < unat (pkt_len p) \<longleftrightarrow> \<not> pkt_len p \<le> l"
    by (simp add: word_le_nat_alt not_le)
  ultimately show ?thesis
    using pkt_encode_wire [OF assms(1,2), of l b crc] assms(3)
    by (auto simp: Let_def not_less pkt_encode_def)
qed

theorem pkt_encode_exact_witness:
  "pkt_encode demo_crc demo_pkt (Some (replicate 528 0)) (Some 20) =
    Inr (let w = wire_of demo_crc (raw_segment_of demo_pkt) in
         if unat (20 :: u64) < length w then (E_NOMEM, Some (replicate 528 0), Some 20)
         else (PKT_OK, Some (w @ drop (length w) (replicate 528 0)), Some (of_nat (length w))))"
  by (rule pkt_encode_exact) simp_all

section \<open>Round trip and truncation\<close>

text \<open>What a host may send: a packet whose payload is present whenever its length says so.\<close>

definition sendable :: "pkt \<Rightarrow> bool" where
  "sendable p \<longleftrightarrow> wf_pkt p \<and> p_type p \<noteq> 0 \<and> p_tr p = 0 \<and> unat (p_length p) \<le> 512 \<and>
     (p_type p = 1 \<or> p_length p = 0)"

lemma sendable_segment:
  assumes "sendable p"
  shows "valid_segment (segment_of p)" and "raw_segment_of p = segment_of p"
  using assms by (auto simp: sendable_def valid_segment_def segment_of_def raw_segment_of_def wf_pkt_def)

lemma sendable_wire:
  assumes "sendable p"
  shows "datagram_of crc (segment_of p) (wire_of crc (segment_of p))"
    and "length (wire_of crc (segment_of p)) = unat (pkt_len p)"
  using assms sendable_segment [OF assms]
  by (auto simp: datagram_of_def length_wire_of unat_pkt_len segment_of_def sendable_def wf_pkt_def
      unsigned_eq_0_iff)

lemma pkt_decode_prefix:
  assumes "length bs \<le> 528"
  shows "pkt_decode crc (bs @ rest) (of_nat (length bs)) q =
    Inr (pkt_decode_inline crc (store_bytes q 0 bs) (of_nat (length bs)))"
proof -
  have n: "unat (of_nat (length bs) :: u64) = length bs"
    using assms by (simp add: unat_of_nat)
  then have "(of_nat (length bs) :: u64) \<le> 528"
    using assms by (simp add: word_le_nat_alt)
  then show ?thesis
    by (simp add: pkt_decode_def n)
qed

text \<open>
  C14. Round trip: a sendable packet encodes into any buffer that has room for it, and
  decoding what was written, into any packet structure, gives \<open>PKT_OK\<close> and a packet with
  the same type, TR, window, sequence number, length, timestamp and payload.
\<close>

theorem encode_decode_roundtrip:
  assumes "sendable p" and "wf_pkt q"
    and "unat (pkt_len p) \<le> unat l" and "unat l \<le> length b"
  shows "\<exists>b' n q'. pkt_encode crc p (Some b) (Some l) = Inr (PKT_OK, Some b', Some n) \<and>
           pkt_decode crc b' n q = Inr (PKT_OK, q') \<and> segment_of q' = segment_of p"
proof -
  let ?w = "wire_of crc (segment_of p)"
  have p: "wf_pkt p" "unat (p_length p) \<le> 512" "length ?w = unat (pkt_len p)" "length ?w \<le> 528"
    using assms(1) sendable_wire [OF assms(1)] length_datagram [OF sendable_wire(1) [OF assms(1)]]
    by (simp_all add: sendable_def)
  have "pkt_encode crc p (Some b) (Some l) =
      Inr (PKT_OK, Some (?w @ drop (length ?w) b), Some (of_nat (length ?w)))"
    using pkt_encode_wire [OF p(1,2) assms(3), of b crc] assms(3,4) p sendable_segment(2) [OF assms(1)]
    by simp
  moreover have "\<exists>q'. pkt_decode_inline crc (store_bytes q 0 ?w) (of_nat (length ?w)) = (PKT_OK, q') \<and>
      segment_of q' = segment_of p"
    using decode_datagram [OF assms(2) p(4)] sendable_wire(1) [OF assms(1)] by blast
  ultimately show ?thesis
    by (auto simp: pkt_decode_prefix [OF p(4)])
qed

theorem encode_decode_roundtrip_witness:
  "\<exists>b' n q'. pkt_encode demo_crc demo_pkt (Some (replicate 528 0)) (Some 528) =
       Inr (PKT_OK, Some b', Some n) \<and>
     pkt_decode demo_crc b' n pkt_zero = Inr (PKT_OK, q') \<and> segment_of q' = segment_of demo_pkt"
  by (rule encode_decode_roundtrip) (simp_all add: sendable_def unat_pkt_len)

text \<open>
  A router that truncates sets the TR bit (bit 5 of the first byte) and drops everything
  behind the header; it does not recompute the first checksum.
\<close>

definition net_truncate :: "byte list \<Rightarrow> byte list" where
  "net_truncate bs = (bs ! 0 OR 32) # take 11 (drop 1 bs)"

lemma bits_byte_truncate: "bits_byte ty 0 win OR 32 = bits_byte ty 1 win"
proof -
  have "bit (32 :: byte) n \<longleftrightarrow> n = 5" for n
    using bit_exp_iff [where ?'a = byte, of 5 n] by auto
  then show ?thesis
    by (intro bit_word_eqI) (auto simp: bit_simps bit_bits_byte)
qed

lemma net_truncate_wire:
  assumes "s_tr s = 0"
  shows "net_truncate (wire_of crc s) = wire_of crc (s\<lparr>s_tr := 1, s_data := []\<rparr>)"
proof -
  have "wire_header (s\<lparr>s_tr := 0, s_data := []\<rparr>) = wire_header (s\<lparr>s_tr := 0\<rparr>)"
    by (simp add: wire_header_def)
  then show ?thesis
    using assms
    by (simp add: net_truncate_def wire_of_def wire_header_def be16_def le16_def le32_def be32_def
        bits_byte_truncate)
qed

text \<open>
  C24. A data segment truncated by the network is still accepted: the first checksum does not
  cover the TR bit, and the receiver sees the same header with TR set, the original length
  and no payload.
\<close>

theorem pkt_decode_truncated:
  assumes "wf_pkt q" and "valid_segment s" and "s_type s = 1" and "s_tr s = 0"
  shows "\<exists>q'. pkt_decode crc (net_truncate (wire_of crc s)) 12 q = Inr (PKT_OK, q') \<and>
           segment_of q' = s\<lparr>s_tr := 1, s_data := []\<rparr>"
proof -
  let ?s = "s\<lparr>s_tr := 1, s_data := []\<rparr>" and ?bs = "net_truncate (wire_of crc s)"
  have "?bs = wire_of crc ?s"
    by (rule net_truncate_wire) (rule assms)
  moreover have "valid_segment ?s"
    using assms(2,3) by (simp add: valid_segment_def)
  moreover have "length (wire_of crc ?s) = 12"
    by (simp add: length_wire_of)
  ultimately show ?thesis
    using decode_datagram [OF assms(1), of ?bs crc ?s] pkt_decode_bytes [of ?bs crc q]
    by (auto simp: datagram_of_def)
qed

theorem pkt_decode_truncated_witness:
  "\<exists>q'. pkt_decode demo_crc (net_truncate (wire_of demo_crc demo_data)) 12 pkt_zero =
      Inr (PKT_OK, q') \<and> segment_of q' = demo_data\<lparr>s_tr := 1, s_data := []\<rparr>"
  by (intro pkt_decode_truncated demo_valid wf_pkt_zero) (simp_all add: demo_data_def)

section \<open>Setters and accessors\<close>

datatype setter_call =
  Set_type ptypes_t | Set_tr u8 | Set_window u8 | Set_seqnum u8 | Set_length u16
| Set_timestamp u32 | Set_crc1 u32 | Set_crc2 u32 | Set_payload "byte list" u16

fun call_setter :: "setter_call \<Rightarrow> pkt option \<Rightarrow> (pkt_status_code \<times> pkt option) res" where
  "call_setter (Set_type ty) p = Inr (pkt_set_type p ty)"
| "call_setter (Set_tr tr) p = pkt_set_tr p tr"
| "call_setter (Set_window w) p = Inr (pkt_set_window p w)"
| "call_setter (Set_seqnum s) p = Inr (pkt_set_seqnum p s)"
| "call_setter (Set_length l) p = Inr (pkt_set_length p l)"
| "call_setter (Set_timestamp t) p = Inr (pkt_set_timestamp p t)"
| "call_setter (Set_crc1 c) p = Inr (pkt_set_crc1 p c)"
| "call_setter (Set_crc2 c) p = Inr (pkt_set_crc2 p c)"
| "call_setter (Set_payload d l) p = pkt_set_payload p d l"

fun call_setters :: "setter_call list \<Rightarrow> pkt option \<Rightarrow> pkt option res" where
  "call_setters [] p = Inr p"
| "call_setters (c # cs) p = rbind (call_setter c p) (\<lambda>(_, p'). call_setters cs p')"

text \<open>The caller's only duty: a payload buffer holds as many bytes as it announces.\<close>

fun honest_call :: "setter_call \<Rightarrow> bool" where
  "honest_call (Set_payload d l) = (unat l \<le> length d)"
| "honest_call _ = True"

definition encodable :: "pkt \<Rightarrow> bool" where
  "encodable p \<longleftrightarrow> wf_pkt p \<and> unat (p_length p) \<le> 512"

lemmas setter_defs = pkt_set_type_def pkt_set_tr_def pkt_set_window_def pkt_set_seqnum_def
  pkt_set_length_def pkt_set_timestamp_def pkt_set_crc1_def pkt_set_crc2_def pkt_set_payload_def
  SETTER_def

lemma call_setter_encodable:
  assumes "honest_call c" and "encodable p"
  shows "\<exists>s p'. call_setter c (Some p) = Inr (s, Some p') \<and> encodable p'"
  using assms by (cases c) (auto simp: setter_defs encodable_def wf_pkt_def)

lemma call_setters_encodable:
  "list_all honest_call cs \<Longrightarrow> encodable p \<Longrightarrow>
     \<exists>p'. call_setters cs (Some p) = Inr (Some p') \<and> encodable p'"
proof (induction cs arbitrary: p)
  case Nil
  then show ?case by simp
next
  case (Cons c cs)
  then obtain s p' where "call_setter c (Some p) = Inr (s, Some p')" "encodable p'"
    using call_setter_encodable by fastforce
  then show ?case
    using Cons by simp
qed

text \<open>
  C25. However a client builds a packet with the setters, starting from \<open>pkt_new\<close> and
  whatever values it passes, no call faults and the result can be encoded: \<open>pkt_encode\<close>
  into a buffer of \<open>PKT_MAX_LEN\<close> bytes succeeds and stays inside it.
\<close>

theorem setters_keep_encodable:
  assumes "list_all honest_call cs" and "length b = PKT_MAX_LEN"
  shows "\<exists>p b' n. call_setters cs (pkt_new True) = Inr (Some p) \<and>
    pkt_encode crc p (Some b) (Some (of_nat PKT_MAX_LEN)) = Inr (PKT_OK, Some b', Some n) \<and>
    length b' = PKT_MAX_LEN"
proof -
  have "encodable pkt_zero"
    by (simp add: encodable_def pkt_zero_def wf_pkt_def)
  then obtain p where p: "call_setters cs (Some pkt_zero) = Inr (Some p)" "encodable p"
    using call_setters_encodable [OF assms(1)] by blast
  let ?w = "wire_of crc (raw_segment_of p)"
  have w: "length ?w = unat (pkt_len p)" "unat (pkt_len p) \<le> 528"
    using p(2)
    by (auto simp: encodable_def unat_pkt_len length_wire_of raw_segment_of_def wf_pkt_def unsigned_eq_0_iff)
  then have "pkt_encode crc p (Some b) (Some 528) =
      Inr (PKT_OK, Some (?w @ drop (unat (pkt_len p)) b), Some (pkt_len p))"
    using p(2) assms(2) by (intro pkt_encode_wire) (simp_all add: encodable_def)
  then show ?thesis
    using p(1) w assms(2) by (simp add: pkt_new_def)
qed

theorem setters_keep_encodable_witness:
  "\<exists>p b' n. call_setters [Set_type 1, Set_tr 1, Set_window 40, Set_payload [1, 2] 2] (pkt_new True)
        = Inr (Some p) \<and>
    pkt_encode demo_crc p (Some (replicate 528 0)) (Some (of_nat PKT_MAX_LEN))
        = Inr (PKT_OK, Some b', Some n) \<and> length b' = PKT_MAX_LEN"
  by (rule setters_keep_encodable) simp_all

lemma valid_type_iff: "valid_type (ucast (ty :: u32)) \<longleftrightarrow> ty \<in> {1, 2, 3}"
proof -
  have "unat ty < 2 ^ 32"
    using unsigned_less [of ty, where ?'a = nat] by simp
  then have "unat (ucast ty :: u64) = unat ty"
    by (simp add: unsigned_ucast_eq take_bit_nat_eq_self)
  then show ?thesis
    by (simp add: valid_type_def word_unat_eq_iff)
qed

lemma valid_tr_iff: "valid_tr (ucast (ty :: 2 word)) tr \<longleftrightarrow> tr = 0 \<or> ty = 1"
  using word2_cases [of ty] by (elim disjE) (simp_all add: valid_tr_def)

lemma window_fits: "w \<le> 31 \<Longrightarrow> (ucast (ucast (w :: u8) :: 5 word) :: u8) = w"
  by (simp add: word_unat_eq_iff unsigned_ucast_eq unsigned_take_bit_eq take_bit_nat_eq_self
      word_le_nat_alt)

lemma type_fits: "ty \<in> {1, 2, 3} \<Longrightarrow> (ucast (ucast (ty :: u32) :: 2 word) :: u32) = ty"
  by auto

text \<open>
  A setter whose value is acceptable stores it, and the accessor gives it back; one whose
  value is not leaves the packet as it was and names the field: the type is 1, 2 or 3, TR is
  only set on data, the window is at most 31 and the length at most 512. (A TR value above 1
  loses its upper bits.)
\<close>

theorem set_then_get:
  "pkt_set_type (Some p) ty =
     (if ty \<in> {1, 2, 3} then (PKT_OK, Some (p\<lparr>p_type := ucast ty\<rparr>)) else (E_TYPE, Some p)) \<and>
   pkt_get_type (snd (pkt_set_type (Some p) ty)) =
     (if ty \<in> {1, 2, 3} then ty else ucast (p_type p)) \<and>
   pkt_set_tr (Some p) tr =
     Inr (if tr = 0 \<or> p_type p = 1 then (PKT_OK, Some (p\<lparr>p_tr := ucast tr\<rparr>)) else (E_TR, Some p)) \<and>
   pkt_set_window (Some p) w =
     (if w \<le> 31 then (PKT_OK, Some (p\<lparr>p_window := ucast w\<rparr>)) else (E_WINDOW, Some p)) \<and>
   pkt_get_window (snd (pkt_set_window (Some p) w)) = (if w \<le> 31 then w else ucast (p_window p)) \<and>
   pkt_set_length (Some p) l =
     (if unat l \<le> 512 then (PKT_OK, Some (p\<lparr>p_length := l\<rparr>)) else (E_LENGTH, Some p)) \<and>
   pkt_get_length (snd (pkt_set_length (Some p) l)) = (if unat l \<le> 512 then l else p_length p) \<and>
   pkt_get_seqnum (snd (pkt_set_seqnum (Some p) s)) = s \<and>
   pkt_get_timestamp (snd (pkt_set_timestamp (Some p) t)) = t"
  using window_fits [of w] type_fits [of ty]
  by (simp add: setter_defs valid_type_iff valid_tr_iff valid_window_def pkt_get_type_def
      pkt_get_window_def pkt_get_length_def pkt_get_seqnum_def pkt_get_timestamp_def)

text \<open>
  On a \<open>NULL\<close> packet every setter with an acceptable value reports \<open>E_NOMEM\<close>, except
  \<open>pkt_set_tr\<close>, which dereferences it first.
\<close>

theorem setters_on_null:
  "pkt_set_type None 1 = (E_NOMEM, None) \<and> pkt_set_window None 0 = (E_NOMEM, None) \<and>
   pkt_set_seqnum None s = (E_NOMEM, None) \<and> pkt_set_length None 0 = (E_NOMEM, None) \<and>
   pkt_set_timestamp None t = (E_NOMEM, None) \<and> pkt_set_crc1 None c = (E_NOMEM, None) \<and>
   pkt_set_crc2 None c = (E_NOMEM, None) \<and> pkt_set_payload None d 0 = Inr (E_NOMEM, None) \<and>
   pkt_set_tr None tr = Inl Null_deref"
  by (simp add: setter_defs valid_type_iff [where ty = 1, simplified] valid_window_def)

end
