(* ===== verification/Net.thy ===== *)
theory Net
  imports Packet_Props
begin

text \<open>
  The socket layer, \<open>common/net.c\<close>. The operating system is an environment record: the
  results the coming system calls will have, in order, and what the program has done to the
  outside world. A \<open>recvfrom\<close> with no result left blocks for ever; a \<open>write\<close> with no result
  left is complete.
\<close>

unbundle bit_operations_syntax

section \<open>The environment\<close>

text \<open>A datagram arrives with the socket address of its source, as bytes.\<close>

datatype rx_event = Rx_error | Rx "byte list" "byte list"

record env =
  e_rx :: "rx_event list"      \<comment> \<open>results of receiving from the socket\<close>
  e_wr :: "int list"           \<comment> \<open>results of writing to the socket, \<open>-1\<close> for an error\<close>
  e_connect :: int             \<comment> \<open>result of \<open>connect\<close>\<close>
  e_tx :: "byte list list"     \<comment> \<open>the datagrams handed to the network, oldest first\<close>
  e_peer :: "byte list option" \<comment> \<open>the address the socket was connected to\<close>
  e_fd :: int                  \<comment> \<open>\<open>net_fd\<close>\<close>
  e_closed :: "int list"       \<comment> \<open>the descriptors closed\<close>

datatype net_status_t = NET_OK | NET_ERROR | NET_DROP

definition sys_recv :: "'a env_scheme \<Rightarrow> (rx_event \<times> 'a env_scheme) res" where
  "sys_recv e = (case e_rx e of [] \<Rightarrow> Inl Blocked | ev # evs \<Rightarrow> Inr (ev, e\<lparr>e_rx := evs\<rparr>))"

text \<open>\<open>write\<close> on the socket: the count the call returns, and the bytes that went out.\<close>

definition sys_write :: "byte list \<Rightarrow> 'a env_scheme \<Rightarrow> int \<times> 'a env_scheme" where
  "sys_write bs e =
    (case e_wr e of
       [] \<Rightarrow> (int (length bs), e\<lparr>e_tx := e_tx e @ [bs]\<rparr>)
     | r # rs \<Rightarrow>
         (r, (if r < 0 then e else e\<lparr>e_tx := e_tx e @ [take (nat r) bs]\<rparr>)\<lparr>e_wr := rs\<rparr>))"

section \<open>Opening and closing\<close>

text \<open>
  One entry of the list \<open>getaddrinfo\<close> returns, with the results of the calls made for it:
  \<open>socket\<close>, the two \<open>setsockopt\<close> and the callback \<open>test_addr\<close>.
\<close>

record addr_try =
  t_socket :: int
  t_reuse :: int
  t_v6only :: int
  t_test :: int

fun try_addrs :: "addr_try list \<Rightarrow> int list \<Rightarrow> int option \<times> int list" where
  "try_addrs [] closed = (None, closed)"
| "try_addrs (a # addrs) closed =
    (let fd = t_socket a in
     if fd = -1 then try_addrs addrs closed
     else if t_reuse a \<noteq> 0 then try_addrs addrs (closed @ [fd])
     else if t_v6only a \<noteq> 0 then try_addrs addrs (closed @ [fd])
     else if t_test a \<noteq> -1 then (Some fd, closed)
     else try_addrs addrs (closed @ [fd]))"

definition net_open_socket ::
  "int \<times> addr_try list \<Rightarrow> 'a env_scheme \<Rightarrow> net_status_t \<times> 'a env_scheme" where
  "net_open_socket gai e =
    (let (err, addrlist) = gai in
     if err \<noteq> 0 then (NET_ERROR, e)
     else case try_addrs addrlist (e_closed e) of
            (None, closed) \<Rightarrow> (NET_ERROR, e\<lparr>e_closed := closed\<rparr>)
          | (Some fd, closed) \<Rightarrow> (NET_OK, e\<lparr>e_fd := fd, e_closed := closed\<rparr>))"

definition net_close_socket :: "'a env_scheme \<Rightarrow> 'a env_scheme" where
  "net_close_socket e = (if e_fd e \<ge> 0 then e\<lparr>e_closed := e_closed e @ [e_fd e]\<rparr> else e)"

section \<open>Receiving\<close>

text \<open>
  The address arguments of \<open>recvfrom\<close>: a buffer and its announced size. The call copies at
  most that many bytes of the source address and stores the full size of the address.
\<close>

definition store_addr ::
  "byte list \<Rightarrow> (byte list \<times> nat) option \<Rightarrow> (byte list \<times> nat) option" where
  "store_addr src addr =
    (case addr of None \<Rightarrow> None
     | Some (buf, len) \<Rightarrow> Some (splice buf 0 (take (min len (length buf)) src), length src))"

definition net_recvfrom ::
  "crc_fun \<Rightarrow> pkt \<Rightarrow> (byte list \<times> nat) option \<Rightarrow> 'a env_scheme
     \<Rightarrow> (net_status_t \<times> pkt \<times> (byte list \<times> nat) option \<times> 'a env_scheme) res" where
  "net_recvfrom crc32 rbuf addr e =
    rbind (sys_recv e) (\<lambda>(ev, e).
      case ev of
        Rx_error \<Rightarrow> Inr (NET_ERROR, rbuf, addr, e)
      | Rx src dgram \<Rightarrow>
          let bs = take sizeof_pkt dgram;
              (st, rbuf) = pkt_decode_inline crc32 (store_bytes rbuf 0 bs) (of_nat (length bs)) in
          Inr (if st \<noteq> PKT_OK then NET_DROP else NET_OK, rbuf, store_addr src addr, e))"

definition net_recv_pkt ::
  "crc_fun \<Rightarrow> pkt \<Rightarrow> u8 \<Rightarrow> u8 \<Rightarrow> 'a env_scheme \<Rightarrow> (net_status_t \<times> pkt \<times> 'a env_scheme) res" where
  "net_recv_pkt crc32 rbuf expected_seq win_size e =
    rbind (net_recvfrom crc32 rbuf None e) (\<lambda>(err, rbuf, _, e).
      if err \<noteq> NET_OK then Inr (err, rbuf, e)
      else if p_seq rbuf - expected_seq > win_size then Inr (NET_DROP, rbuf, e)
      else Inr (NET_OK, rbuf, e))"

text \<open>
  The loop of \<open>net_wait_and_connect\<close>; the first argument is the number of retries left. The
  host and port names that \<open>getnameinfo\<close> looks up are only printed.
\<close>

definition MAX_RETRIES :: nat where "MAX_RETRIES = 5"

definition sockaddr_storage_size :: nat where "sockaddr_storage_size = 128"

fun wait_loop ::
  "nat \<Rightarrow> crc_fun \<Rightarrow> pkt \<Rightarrow> u8 \<Rightarrow> byte list \<times> nat \<Rightarrow> 'a env_scheme
     \<Rightarrow> (net_status_t \<times> pkt \<times> 'a env_scheme) res" where
  "wait_loop 0 crc32 rbuf expect_seq addr e = Inr (NET_ERROR, rbuf, e)"
| "wait_loop (Suc n) crc32 rbuf expect_seq addr e =
    rbind (net_recvfrom crc32 rbuf (Some addr) e) (\<lambda>(err, rbuf, addr', e).
      let addr = the addr' in
      if err \<noteq> NET_OK then
        (if err = NET_DROP then wait_loop n crc32 rbuf expect_seq addr e
         else Inr (NET_ERROR, rbuf, e))
      else if p_seq rbuf \<noteq> expect_seq then wait_loop n crc32 rbuf expect_seq addr e
      else let e = e\<lparr>e_peer := Some (take (snd addr) (fst addr))\<rparr> in
           if e_connect e \<noteq> 0 then Inr (NET_ERROR, rbuf, e) else Inr (NET_OK, rbuf, e))"

text \<open>\<open>socklen_t addr_len = sizeof(addr_len)\<close>: four bytes are announced for the address.\<close>

definition net_wait_and_connect ::
  "crc_fun \<Rightarrow> pkt \<Rightarrow> u8 \<Rightarrow> 'a env_scheme \<Rightarrow> (net_status_t \<times> pkt \<times> 'a env_scheme) res" where
  "net_wait_and_connect crc32 rbuf expect_seq e =
    (let addr = replicate sockaddr_storage_size 0; addr_len = 4 in
     wait_loop MAX_RETRIES crc32 rbuf expect_seq (addr, addr_len) e)"

section \<open>Sending\<close>

definition pkt_len_serial :: "pkt \<Rightarrow> nat" where
  "pkt_len_serial p =
    (if p_length p \<noteq> 0 then PKT_HEADERLEN + PKT_FOOTERLEN + unat (ntohs (p_length p))
     else PKT_HEADERLEN)"

text \<open>\<open>net_send\<close> writes the packet, which must be in wire format, as it lies in memory.\<close>

definition net_send :: "pkt \<Rightarrow> 'a env_scheme \<Rightarrow> (net_status_t \<times> 'a env_scheme) res" where
  "net_send p e =
    (let plen = pkt_len_serial p in
     if sizeof_pkt < plen then Inl Out_of_bounds
     else let (r, e) = sys_write (take plen (pkt_mem p)) e in
          Inr (if r \<noteq> int plen then NET_ERROR else NET_OK, e))"

end
