(* ===== verification/Pktbuf.thy ===== *)
theory Pktbuf
  imports Packet_Encode
begin

text \<open>
  The ring of packets of \<open>common/pktbuf.c\<close> and \<open>common/pktbuf.h\<close>. A pointer to a packet of
  the ring is the index of its slot in \<open>head\<close>, \<open>NULL\<close> is \<^term>\<open>None\<close>; \<open>first\<close> and \<open>last\<close>
  are free-running 32-bit counters. The checks that only exist in the debug build
  (\<open>ASSERT\<close>, \<open>NOTNULL\<close>) are not part of the model of the release build; lemmas state where
  they would succeed.
\<close>

unbundle bit_operations_syntax

section \<open>The ring and its macros\<close>

record pktbuf =
  b_first :: u32
  b_last :: u32
  b_capacity :: u32
  b_head :: "pkt list"

definition mask_index :: "u32 \<Rightarrow> pktbuf \<Rightarrow> u32" where
  "mask_index i buf = i AND (b_capacity buf - 1)"

definition first_item :: "pktbuf \<Rightarrow> u32" where
  "first_item buf = mask_index (b_first buf) buf"

definition last_item :: "pktbuf \<Rightarrow> u32" where
  "last_item buf = mask_index (b_last buf - 1) buf"

text \<open>\<open>buf_get(idx, buf)\<close> is a place: the slot it denotes, and reading and writing it.\<close>

definition buf_get :: "u32 \<Rightarrow> pktbuf \<Rightarrow> nat" where
  "buf_get idx buf = unat (mask_index idx buf)"

definition slot :: "pktbuf \<Rightarrow> nat \<Rightarrow> pkt" where
  "slot buf i = b_head buf ! i"

definition set_slot :: "pktbuf \<Rightarrow> nat \<Rightarrow> pkt \<Rightarrow> pktbuf" where
  "set_slot buf i p = buf\<lparr>b_head := (b_head buf)[i := p]\<rparr>"

definition pktbuf_empty :: "pktbuf \<Rightarrow> bool" where
  "pktbuf_empty buf \<longleftrightarrow> b_first buf = b_last buf"

definition pktbuf_used :: "pktbuf \<Rightarrow> u32" where
  "pktbuf_used buf = b_last buf - b_first buf"

definition pktbuf_freeslots :: "pktbuf \<Rightarrow> u32" where
  "pktbuf_freeslots buf = b_capacity buf - pktbuf_used buf"

definition pktbuf_full :: "pktbuf \<Rightarrow> bool" where
  "pktbuf_full buf \<longleftrightarrow> pktbuf_used buf \<ge> b_capacity buf"

section \<open>Operations\<close>

text \<open>\<open>__builtin_popcount\<close> of gcc: the number of bits set.\<close>

definition popcount :: "u32 \<Rightarrow> nat" where
  "popcount w = length (filter (bit w) [0..<32])"

text \<open>
  \<open>pktbuf_new\<close> stops the process unless the capacity is a power of two below \<open>2^31\<close>;
  \<open>calloc\<close> may fail.
\<close>

definition pktbuf_new :: "bool \<Rightarrow> u32 \<Rightarrow> pktbuf option res" where
  "pktbuf_new calloc_ok capacity =
    (if \<not> (popcount capacity = 1) then Inl Exit_failure
     else if \<not> (capacity \<le> 0x7fffffff) then Inl Exit_failure
     else if \<not> calloc_ok then Inr None
     else Inr (Some \<lparr>b_first = 0, b_last = 0, b_capacity = capacity,
                     b_head = replicate (unat capacity) pkt_zero\<rparr>))"

definition pktbuf_first :: "pktbuf \<Rightarrow> nat option" where
  "pktbuf_first buf =
    (if \<not> pktbuf_empty buf then Some (buf_get (first_item buf) buf) else None)"

definition pktbuf_last :: "pktbuf \<Rightarrow> nat option" where
  "pktbuf_last buf =
    (if \<not> pktbuf_empty buf then Some (buf_get (last_item buf) buf) else None)"

definition pktbuf_dequeue :: "pktbuf \<Rightarrow> nat \<times> pktbuf" where
  "pktbuf_dequeue buf = (buf_get (b_first buf) buf, buf\<lparr>b_first := b_first buf + 1\<rparr>)"

definition pktbuf_enqueue :: "pktbuf \<Rightarrow> nat \<times> pktbuf" where
  "pktbuf_enqueue buf = (buf_get (b_last buf) buf, buf\<lparr>b_last := b_last buf + 1\<rparr>)"

text \<open>
  The loop of \<open>pktbuf_slotfor_seq\<close>: slots are added, each with its sequence number, until
  the requested offset is in use.
\<close>

function extend_slots :: "pktbuf \<Rightarrow> u8 \<Rightarrow> u8 \<Rightarrow> pktbuf" where
  "extend_slots buf first_seq offset =
    (if ucast offset < pktbuf_used buf then buf
     else let (i, buf) = pktbuf_enqueue buf;
              seq = ucast (ucast first_seq + pktbuf_used buf - 1) in
          extend_slots (set_slot buf i ((slot buf i)\<lparr>p_seq := seq\<rparr>)) first_seq offset)"
  by pat_completeness auto

lemma pktbuf_used_simps [simp]:
  "pktbuf_used (set_slot buf i p) = pktbuf_used buf"
  "pktbuf_used (buf\<lparr>b_last := b_last buf + 1\<rparr>) = pktbuf_used buf + 1"
  "pktbuf_used (buf\<lparr>b_first := b_first buf + 1\<rparr>) = pktbuf_used buf - 1"
  by (simp_all add: pktbuf_used_def set_slot_def)

lemma extend_measure:
  assumes "\<not> (ucast (offset :: u8) < (used :: u32))"
  shows "256 - unat (used + 1) < 256 - unat used"
proof -
  have "unat used \<le> unat offset"
    using assms by (simp add: word_less_nat_alt)
  then show ?thesis
    using unat_less_u8 [of offset] by (simp add: unat_word_ariths)
qed

termination extend_slots
  by (relation "measure (\<lambda>(buf, first_seq, offset). 256 - unat (pktbuf_used buf))")
    (auto simp: pktbuf_enqueue_def dest: extend_measure)

declare extend_slots.simps [simp del]

definition pktbuf_slotfor_seq :: "pktbuf \<Rightarrow> u8 \<Rightarrow> (nat \<times> pktbuf) res" where
  "pktbuf_slotfor_seq buf seqnum =
    (let buf = (if pktbuf_empty buf
                then let (i, buf) = pktbuf_enqueue buf in
                     set_slot buf i ((slot buf i)\<lparr>p_seq := seqnum\<rparr>)
                else buf) in
     case pktbuf_first buf of
       None \<Rightarrow> Inl Null_deref
     | Some f \<Rightarrow>
         let first_seq = p_seq (slot buf f);
             offset = seqnum - first_seq in
         if \<not> (ucast offset \<le> b_capacity buf) then Inl Exit_failure
         else let buf = extend_slots buf first_seq offset in
              Inr (buf_get (first_item buf + ucast offset) buf, buf))"

definition pktbuf_at :: "pktbuf \<Rightarrow> u32 \<Rightarrow> nat res" where
  "pktbuf_at buf idx =
    (let masked_idx = mask_index idx buf in
     if \<not> (masked_idx < pktbuf_used buf) then Inl Exit_failure else Inr (buf_get idx buf))"

end
