(* ===== verification/Receiver.thy ===== *)
theory Receiver
  imports Net Pktbuf
begin

text \<open>
  The receiving side, \<open>receiver/receive.c\<close>: its static variables, the results its system
  calls will have (\<open>poll\<close>, the output file; the socket is in the environment of
  \<^theory_text>\<open>Net\<close>), and one definition per function. A pointer to a packet of the buffer is its
  slot number.
\<close>

unbundle bit_operations_syntax

section \<open>State\<close>

text \<open>
  What a \<open>write\<close> to the output file does: it would block, it fails, or it takes some number
  of bytes. With no result left it takes all of them.
\<close>

datatype out_result = Out_again | Out_error | Out_len nat

text \<open>
  What a \<open>poll\<close> returns: an error, a timeout, or which of the output file and the socket
  have an event set.
\<close>

datatype poll_result = Poll_error | Poll_timeout | Poll_ready bool bool

record receiver = env +
  r_max_window :: u32
  r_buf :: pktbuf
  r_oos_mask :: u32
  r_expected_seq :: u8
  r_last_ts :: u32
  r_need_ack :: bool
  r_need_nack :: bool
  r_nack_seq :: u8
  r_last_written_len :: int
  r_ack_pkt :: pkt             \<comment> \<open>the static packet of \<open>send_ack\<close>\<close>
  r_nack_pkt :: pkt            \<comment> \<open>the static packet of \<open>send_nack\<close>\<close>
  r_out_results :: "out_result list"
  r_out :: "byte list"         \<comment> \<open>what has been written to the output file\<close>
  r_fd_flags :: u32            \<comment> \<open>descriptor flags of the output file\<close>
  r_status_flags :: u32        \<comment> \<open>file status flags of the output file\<close>

definition INITIAL_SEQNUM :: u8 where [simp]: "INITIAL_SEQNUM = 0"
definition MAX_LINGER_RETRY :: nat where "MAX_LINGER_RETRY = 5"
definition ECONNABORTED :: int where "ECONNABORTED = 103"

definition ack_pkt_init :: pkt where
  "ack_pkt_init = pkt_zero\<lparr>p_type := ucast PTYPE_ACK, p_length := 0\<rparr>"

definition nack_pkt_init :: pkt where
  "nack_pkt_init = pkt_zero\<lparr>p_type := ucast PTYPE_NACK, p_length := 0\<rparr>"

section \<open>The receive window\<close>

definition rbuf_full :: "receiver \<Rightarrow> bool" where
  "rbuf_full s \<longleftrightarrow> of_nat (popcount (r_oos_mask s)) \<ge> r_max_window s"

definition can_empty_rbuf :: "receiver \<Rightarrow> bool" where
  "can_empty_rbuf s \<longleftrightarrow> \<not> pktbuf_empty (r_buf s) \<and> r_oos_mask s AND 1 \<noteq> 0"

text \<open>The loop of \<open>window_size\<close> counts the low bits set.\<close>

lemma odd_drop_bit_less: "(m :: u32) AND 1 \<noteq> 0 \<Longrightarrow> unat (drop_bit 1 m) < unat m"
proof -
  assume "m AND 1 \<noteq> 0"
  then have "0 < unat m"
    by (auto simp: unat_gt_0)
  then show ?thesis
    by (simp only: unat_drop_bit_eq) (simp add: drop_bit_eq_div)
qed

function count_in_seq :: "u32 \<Rightarrow> u32 \<Rightarrow> u32" where
  "count_in_seq m in_seq_count =
    (if m AND 1 \<noteq> 0 then count_in_seq (drop_bit 1 m) (in_seq_count + 1) else in_seq_count)"
  by pat_completeness auto

termination count_in_seq
  by (relation "measure (\<lambda>(m, c). unat m)") (auto dest: odd_drop_bit_less)

declare count_in_seq.simps [simp del]

definition window_size :: "receiver \<Rightarrow> u32" where
  "window_size s = r_max_window s - count_in_seq (r_oos_mask s) 0"

section \<open>Acknowledgements\<close>

definition send_ack :: "crc_fun \<Rightarrow> receiver \<Rightarrow> (net_status_t \<times> receiver) res" where
  "send_ack crc32 s =
    (let pkt = (r_ack_pkt s)\<lparr>p_seq := r_expected_seq s, p_ts := r_last_ts s,
                              p_window := ucast (window_size s)\<rparr> in
     rbind (pkt_encode_inline crc32 pkt) (\<lambda>(_, pkt). net_send pkt (s\<lparr>r_ack_pkt := pkt\<rparr>)))"

definition send_nack :: "crc_fun \<Rightarrow> u8 \<Rightarrow> receiver \<Rightarrow> (net_status_t \<times> receiver) res" where
  "send_nack crc32 seq s =
    (let pkt = (r_nack_pkt s)\<lparr>p_seq := seq, p_ts := r_last_ts s,
                               p_window := ucast (window_size s)\<rparr> in
     rbind (pkt_encode_inline crc32 pkt) (\<lambda>(_, pkt). net_send pkt (s\<lparr>r_nack_pkt := pkt\<rparr>)))"

section \<open>Incoming data\<close>

definition discard_incoming_data :: "receiver \<Rightarrow> (int \<times> receiver) res" where
  "discard_incoming_data s =
    rbind (sys_recv s) (\<lambda>(ev, s). Inr (case ev of Rx_error \<Rightarrow> -1 | Rx _ _ \<Rightarrow> 0, s))"

definition buf_slot :: "receiver \<Rightarrow> nat \<Rightarrow> pkt" where
  "buf_slot s i = slot (r_buf s) i"

definition put_slot :: "receiver \<Rightarrow> nat \<Rightarrow> pkt \<Rightarrow> receiver" where
  "put_slot s i p = s\<lparr>r_buf := set_slot (r_buf s) i p\<rparr>"

text \<open>
  \<open>process_incoming_pkt\<close> on the packet in slot \<open>i\<close>; its window argument is only printed. The
  sums of 8-bit integers are computed as \<open>int\<close>; a shift by 32 or more is undefined.
\<close>

definition process_incoming_pkt :: "nat \<Rightarrow> receiver \<Rightarrow> (int \<times> receiver) res" where
  "process_incoming_pkt i s =
    (let s = s\<lparr>r_last_ts := p_ts (buf_slot s i)\<rparr> in
     rbind (if r_oos_mask s AND 1 \<noteq> 0
            then case pktbuf_first (r_buf s) of
                   None \<Rightarrow> Inl Null_deref
                 | Some f \<Rightarrow> Inr (r_expected_seq s - p_seq (buf_slot s f) - 1)
            else Inr 0) (\<lambda>distance.
     let gap = p_seq (buf_slot s i) - r_expected_seq s in
     if p_tr (buf_slot s i) \<noteq> 0 then
       let s = s\<lparr>r_need_nack := True, r_nack_seq := p_seq (buf_slot s i)\<rparr> in
       Inr (0, if gap > 0 then put_slot s i ((buf_slot s i)\<lparr>p_seq := r_expected_seq s\<rparr>) else s)
     else if \<not> unat distance + unat gap < 32 then Inl Undefined_shift
     else
       let s = s\<lparr>r_oos_mask := r_oos_mask s OR push_bit (unat distance + unat gap) 1\<rparr> in
       if gap > 0 then
         let received_seq = p_seq (buf_slot s i);
             s = put_slot s i ((buf_slot s i)\<lparr>p_seq := r_expected_seq s\<rparr>) in
         rbind (pktbuf_slotfor_seq (r_buf s) received_seq) (\<lambda>(j, buf).
           let s = s\<lparr>r_buf := buf\<rparr>;
               s = put_slot s j (buf_slot s i) in
           Inr (0, put_slot s j ((buf_slot s j)\<lparr>p_seq := received_seq\<rparr>)))
       else
         Inr (0, s\<lparr>r_expected_seq :=
                     r_expected_seq s + ucast (r_max_window s - window_size s)\<rparr>)))"

definition do_receive_data :: "crc_fun \<Rightarrow> receiver \<Rightarrow> (int \<times> receiver) res" where
  "do_receive_data crc32 s =
    (let win = window_size s in
     rbind (pktbuf_slotfor_seq (r_buf s) (r_expected_seq s)) (\<lambda>(i, buf).
     let s = s\<lparr>r_buf := buf\<rparr> in
     rbind (net_recv_pkt crc32 (buf_slot s i) (r_expected_seq s) (ucast win) s) (\<lambda>(err, pkt, s).
     let s = put_slot s i pkt;
         restored = put_slot s i (pkt\<lparr>p_seq := r_expected_seq s\<rparr>) in
     if err \<noteq> NET_OK then Inr (of_bool (err = NET_ERROR), restored)
     else if p_type pkt \<noteq> ucast PTYPE_DATA then Inr (0, restored)
     else process_incoming_pkt i s)))"

section \<open>Output\<close>

text \<open>\<open>write\<close> on the output file: its result, and the bytes that went out.\<close>

definition sys_write_out :: "byte list \<Rightarrow> receiver \<Rightarrow> out_result \<times> receiver" where
  "sys_write_out bs s =
    (case r_out_results s of
       [] \<Rightarrow> (Out_len (length bs), s\<lparr>r_out := r_out s @ bs\<rparr>)
     | r # rs \<Rightarrow>
         (r, (case r of Out_len n \<Rightarrow> s\<lparr>r_out := r_out s @ take n bs\<rparr> | _ \<Rightarrow> s)
               \<lparr>r_out_results := rs\<rparr>))"

text \<open>What one round of the loop of \<open>do_empty_rbuf\<close> decides.\<close>

datatype write_step = Write_done | Write_stop | Write_fail

definition write_first :: "receiver \<Rightarrow> (write_step \<times> receiver) res" where
  "write_first s =
    (case pktbuf_first (r_buf s) of
       None \<Rightarrow> Inl Null_deref
     | Some f \<Rightarrow>
         let pkt = buf_slot s f;
             s = s\<lparr>r_last_written_len := int (unat (p_length pkt))\<rparr> in
         if p_length pkt \<noteq> 0 then
           if MAX_PAYLOAD_SIZE < unat (p_length pkt) then Inl Out_of_bounds
           else case sys_write_out (take (unat (p_length pkt)) (p_payload pkt)) s of
             (Out_again, s) \<Rightarrow> Inr (Write_stop, s)
           | (Out_error, s) \<Rightarrow> Inr (Write_fail, s)
           | (Out_len n, s) \<Rightarrow> Inr (if n \<noteq> unat (p_length pkt) then Write_fail else Write_done, s)
         else Inr (Write_done, s))"

definition drop_first :: "receiver \<Rightarrow> receiver" where
  "drop_first s = s\<lparr>r_buf := snd (pktbuf_dequeue (r_buf s)), r_oos_mask := drop_bit 1 (r_oos_mask s)\<rparr>"

lemma sys_write_out_mask: "sys_write_out bs s = (r, s') \<Longrightarrow> r_oos_mask s' = r_oos_mask s"
  by (auto simp: sys_write_out_def split: list.splits out_result.splits)

lemma write_first_mask: "write_first s = Inr (w, s') \<Longrightarrow> r_oos_mask s' = r_oos_mask s"
  by (auto simp: write_first_def Let_def dest!: sys_write_out_mask
      split: option.splits prod.splits out_result.splits if_splits)

function do_empty_rbuf :: "receiver \<Rightarrow> (int \<times> receiver) res" where
  "do_empty_rbuf s =
    (if r_oos_mask s AND 1 \<noteq> 0 then
       rbind (write_first s) (\<lambda>(w, s).
         case w of
           Write_stop \<Rightarrow> Inr (0, s)
         | Write_fail \<Rightarrow> Inr (-1, s)
         | Write_done \<Rightarrow> do_empty_rbuf (drop_first s))
     else Inr (0, s))"
  by pat_completeness auto

termination do_empty_rbuf
  by (relation "measure (\<lambda>s. unat (r_oos_mask s))")
    (auto simp: drop_first_def dest!: write_first_mask odd_drop_bit_less)

declare do_empty_rbuf.simps [simp del]

definition do_read_sock :: "crc_fun \<Rightarrow> receiver \<Rightarrow> (int \<times> receiver) res" where
  "do_read_sock crc32 s =
    (if \<not> rbuf_full s then do_receive_data crc32 s else discard_incoming_data s)"

section \<open>The output file's flags\<close>

datatype fcntl_cmd = F_GETFD | F_SETFD u32

definition O_NONBLOCK :: u32 where "O_NONBLOCK = 0x800"

text \<open>
  \<open>fcntl\<close> as far as the code calls it: \<open>F_GETFD\<close> and \<open>F_SETFD\<close> read and write the flags of
  the descriptor, of which only \<open>FD_CLOEXEC\<close> (bit 0) exists. Each call may fail.
\<close>

definition sys_fcntl :: "bool \<Rightarrow> fcntl_cmd \<Rightarrow> receiver \<Rightarrow> int \<times> receiver" where
  "sys_fcntl ok cmd s =
    (if \<not> ok then (-1, s)
     else case cmd of
       F_GETFD \<Rightarrow> (uint (r_fd_flags s), s)
     | F_SETFD arg \<Rightarrow> (0, s\<lparr>r_fd_flags := arg AND 1\<rparr>))"

text \<open>The third argument of the second call is the address of the variable, \<open>flags_addr\<close>.\<close>

definition unblock_out_file :: "bool \<Rightarrow> bool \<Rightarrow> u32 \<Rightarrow> receiver \<Rightarrow> int \<times> receiver" where
  "unblock_out_file get_ok set_ok flags_addr s =
    (case sys_fcntl get_ok F_GETFD s of
       (flags, s) \<Rightarrow>
         if flags = -1 then (-1, s)
         else let flags = word_of_int flags OR O_NONBLOCK in
              case sys_fcntl set_ok (F_SETFD flags_addr) s of
                (flags, s) \<Rightarrow> if flags = -1 then (-1, s) else (0, s))"

section \<open>The main loop\<close>

text \<open>
  One round of the loop after \<open>poll\<close>: whether it goes on, and whether the output file is
  polled too the next time. With only the socket polled the events of the file are cleared.
\<close>

definition receive_ready ::
  "crc_fun \<Rightarrow> bool \<Rightarrow> bool \<Rightarrow> receiver \<Rightarrow> (bool \<times> bool \<times> receiver) res" where
  "receive_ready crc32 file_ev sock_ev s =
    rbind (if sock_ev
           then rbind (do_read_sock crc32 s) (\<lambda>(err, s).
                  Inr (err, if err = 0 \<and> \<not> r_need_nack s then s\<lparr>r_need_ack := True\<rparr> else s))
           else Inr (0, s)) (\<lambda>(err, s).
    if err \<noteq> 0 then Inr (False, True, s) else
    rbind (if file_ev \<or> can_empty_rbuf s then do_empty_rbuf s else Inr (0, s)) (\<lambda>(err, s).
    if err \<noteq> 0 then Inr (False, True, s) else
    rbind (if r_need_ack s then send_ack crc32 s else Inr (NET_OK, s)) (\<lambda>(err, s).
    if err \<noteq> NET_OK then Inr (False, True, s) else
    rbind (if r_need_nack s then send_nack crc32 (r_nack_seq s) s else Inr (NET_OK, s)) (\<lambda>(err, s).
    if err \<noteq> NET_OK then Inr (False, True, s)
    else Inr (True, can_empty_rbuf s, s)))))"

fun receive_loop ::
  "crc_fun \<Rightarrow> bool \<Rightarrow> poll_result list \<Rightarrow> receiver \<Rightarrow> (bool \<times> poll_result list \<times> receiver) res" where
  "receive_loop crc32 both [] s = Inl Blocked"
| "receive_loop crc32 both (ev # polls) s =
    (case ev of
       Poll_error \<Rightarrow> Inr (False, polls, s)
     | Poll_timeout \<Rightarrow> Inr (False, polls, s)
     | Poll_ready file_ev sock_ev \<Rightarrow>
         rbind (receive_ready crc32 (both \<and> file_ev) sock_ev s) (\<lambda>(go_on, both, s).
         if \<not> go_on then Inr (False, polls, s)
         else
           let s = s\<lparr>r_need_ack := False, r_need_nack := False\<rparr> in
           if r_last_written_len s \<noteq> 0 \<or> \<not> pktbuf_empty (r_buf s)
           then receive_loop crc32 both polls s
           else Inr (True, polls, s)))"

text \<open>The last acknowledgement is repeated as long as data keeps arriving.\<close>

fun linger_loop ::
  "crc_fun \<Rightarrow> nat \<Rightarrow> poll_result list \<Rightarrow> receiver \<Rightarrow> (int \<times> receiver) res" where
  "linger_loop crc32 retry [] s = Inl Blocked"
| "linger_loop crc32 retry (ev # polls) s =
    (if ev = Poll_timeout \<or> \<not> retry < MAX_LINGER_RETRY then Inr (0, s)
     else if ev = Poll_error then Inr (- ECONNABORTED, s)
     else rbind (send_ack crc32 s) (\<lambda>(err, s).
            if err \<noteq> NET_OK then Inr (- ECONNABORTED, s)
            else linger_loop crc32 (retry + 1) polls s))"

text \<open>
  \<open>receive\<close>; \<open>unblock\<close> are the results and the argument of the two \<open>fcntl\<close> calls, the list
  the results of \<open>poll\<close>.
\<close>

definition receive ::
  "crc_fun \<Rightarrow> bool \<times> bool \<times> u32 \<Rightarrow> poll_result list \<Rightarrow> receiver \<Rightarrow> (int \<times> receiver) res" where
  "receive crc32 unblock polls s =
    (let (get_ok, set_ok, flags_addr) = unblock;
         (err, s) = unblock_out_file get_ok set_ok flags_addr s in
     if err \<noteq> 0 then Inr (- ECONNABORTED, s) else
     let (i, buf) = pktbuf_enqueue (r_buf s);
         s = s\<lparr>r_buf := buf\<rparr> in
     rbind (net_wait_and_connect crc32 (buf_slot s i) INITIAL_SEQNUM s) (\<lambda>(err, pkt, s).
     let s = put_slot s i pkt in
     if err \<noteq> NET_OK then Inr (- ECONNABORTED, s) else
     rbind (process_incoming_pkt i s) (\<lambda>(_, s).
     let s = s\<lparr>r_need_ack := True\<rparr> in
     rbind (receive_loop crc32 True polls s) (\<lambda>(ok, polls, s).
     if \<not> ok then Inr (- ECONNABORTED, s)
     else linger_loop crc32 0 polls s))))"

text \<open>The static variables before \<open>receive\<close> is called, on a given buffer and environment.\<close>

definition receiver_init :: "u32 \<Rightarrow> pktbuf \<Rightarrow> env \<Rightarrow> receiver" where
  "receiver_init win buf e =
    \<lparr>e_rx = e_rx e, e_wr = e_wr e, e_connect = e_connect e, e_tx = e_tx e, e_peer = e_peer e,
     e_fd = e_fd e, e_closed = e_closed e,
     r_max_window = win, r_buf = buf, r_oos_mask = 0, r_expected_seq = 0, r_last_ts = 0,
     r_need_ack = False, r_need_nack = False, r_nack_seq = 0, r_last_written_len = -1,
     r_ack_pkt = ack_pkt_init, r_nack_pkt = nack_pkt_init, r_out_results = [], r_out = [],
     r_fd_flags = 0, r_status_flags = 1\<rparr>"

end
