(* ===== verification/Pktbuf_Queue.thy ===== *)
theory Pktbuf_Queue
  imports Pktbuf
begin

text \<open>
  The ring as a bounded queue: \<open>items\<close> is the list of the packets in use, oldest first, and
  \<open>wf_buf\<close> the invariant every operation keeps while its debug assertion would succeed. The
  free-running counters may wrap around at \<open>2^32\<close>: the capacity divides it.
\<close>

unbundle bit_operations_syntax

section \<open>Invariant and abstraction\<close>

definition wf_buf :: "pktbuf \<Rightarrow> bool" where
  "wf_buf b \<longleftrightarrow> (\<exists>k<31. unat (b_capacity b) = 2 ^ k) \<and> length (b_head b) = unat (b_capacity b) \<and>
     list_all wf_pkt (b_head b) \<and> pktbuf_used b \<le> b_capacity b"

definition slot_index :: "pktbuf \<Rightarrow> nat \<Rightarrow> nat" where
  "slot_index b j = (unat (b_first b) + j) mod unat (b_capacity b)"

definition used :: "pktbuf \<Rightarrow> nat" where
  "used b = unat (pktbuf_used b)"

definition cap :: "pktbuf \<Rightarrow> nat" where
  "cap b = unat (b_capacity b)"

definition items :: "pktbuf \<Rightarrow> pkt list" where
  "items b = map (\<lambda>j. slot b (slot_index b j)) [0..<used b]"

lemma length_items [simp]: "length (items b) = used b"
  by (simp add: items_def)

lemma nth_items [simp]: "j < used b \<Longrightarrow> items b ! j = slot b (slot_index b j)"
  by (simp add: items_def)

lemma wf_bufD:
  assumes "wf_buf b"
  shows "length (b_head b) = cap b" "list_all wf_pkt (b_head b)" "used b \<le> cap b"
    "0 < cap b" "cap b \<le> 2 ^ 30"
proof -
  obtain k where k: "k < 31" "cap b = 2 ^ k"
    using assms by (auto simp: wf_buf_def cap_def)
  have "(2 :: nat) ^ k \<le> 2 ^ 30"
    using k(1) by (intro power_increasing) simp_all
  then show "cap b \<le> 2 ^ 30" "0 < cap b"
    using k by simp_all
  show "length (b_head b) = cap b" "list_all wf_pkt (b_head b)" "used b \<le> cap b"
    using assms by (simp_all add: wf_buf_def cap_def used_def word_le_nat_alt)
qed

text \<open>The number of packets fits into an \<open>int\<close>.\<close>

lemma sint_used:
  assumes "wf_buf b"
  shows "nat (sint (pktbuf_used b)) = used b"
proof -
  have "used b < 2 ^ 31"
    using wf_bufD(3,5) [OF assms] by simp
  then have "int (used b) < 2 ^ 31"
    by simp
  then have "uint (pktbuf_used b) < 2 ^ 31"
    by (simp add: used_def)
  then have "sint (pktbuf_used b) = uint (pktbuf_used b)"
    unfolding sint_uint by (intro signed_take_bit_int_eq_self) (simp_all add: order_trans [OF _ uint_nonnegative])
  then show ?thesis
    by (simp add: used_def)
qed

text \<open>Masking with \<open>capacity - 1\<close> is the remainder modulo the capacity.\<close>

lemma buf_get_mod:
  assumes "wf_buf b"
  shows "buf_get i b = unat i mod cap b"
proof -
  obtain k where k: "k < 31" "unat (b_capacity b) = 2 ^ k"
    using assms by (auto simp: wf_buf_def)
  have "b_capacity b = of_nat (unat (b_capacity b))"
    by simp
  then have "b_capacity b = 2 ^ k"
    by (simp only: k(2) of_nat_power of_nat_numeral)
  then have "mask_index i b = take_bit k i"
    by (simp add: mask_index_def take_bit_eq_mask mask_eq_exp_minus_1)
  then show ?thesis
    by (simp add: buf_get_def unsigned_take_bit_eq k(2) cap_def) (simp add: take_bit_eq_mod)
qed

lemma cap_dvd:
  assumes "wf_buf b"
  shows "cap b dvd 2 ^ 32"
proof -
  obtain k where "k < 31" "cap b = 2 ^ k"
    using assms by (auto simp: wf_buf_def cap_def)
  then show ?thesis
    by (simp only: le_imp_power_dvd)
qed

lemma unat_add_mod:
  assumes "wf_buf b"
  shows "unat (i + of_nat n :: u32) mod cap b = (unat i + n) mod cap b"
proof -
  have "unat (i + of_nat n :: u32) = (unat i + n) mod 2 ^ 32"
    by (simp add: unat_word_ariths unat_of_nat mod_simps)
  then show ?thesis
    using cap_dvd [OF assms] by (simp add: mod_mod_cancel)
qed

lemma buf_get_first: "wf_buf b \<Longrightarrow> buf_get (b_first b + of_nat j) b = slot_index b j"
  using unat_add_mod [of b "b_first b" j] by (simp add: buf_get_mod slot_index_def cap_def)

lemma buf_get_masked: "wf_buf b \<Longrightarrow> buf_get (mask_index i b + of_nat j) b = (unat i + j) mod cap b"
proof -
  assume b: "wf_buf b"
  have "unat (mask_index i b) = unat i mod cap b"
    using buf_get_mod [OF b, of i] by (simp add: buf_get_def)
  then show ?thesis
    using b by (simp add: buf_get_mod unat_add_mod mod_simps)
qed

lemma slot_index_less: "wf_buf b \<Longrightarrow> slot_index b j < cap b"
  using wf_bufD(4) by (simp add: slot_index_def cap_def)

text \<open>Two items of a ring never share a slot.\<close>

lemma mod_inj_window:
  assumes "(a + i) mod c = (a + j) mod c" and "i < c" and "j < (c :: nat)"
  shows "i = j"
proof (cases i j rule: linorder_le_cases)
  case le
  then have "c dvd j - i"
    using assms(1) mod_eq_dvd_iff_nat [of "a + i" "a + j" c] by simp
  then show ?thesis
    using assms(3) le by (auto dest: dvd_imp_le)
next
  case ge
  then have "c dvd i - j"
    using assms(1) mod_eq_dvd_iff_nat [of "a + j" "a + i" c] by simp
  then show ?thesis
    using assms(2) ge by (auto dest: dvd_imp_le)
qed

lemma slot_index_inject:
  "wf_buf b \<Longrightarrow> i < cap b \<Longrightarrow> j < cap b \<Longrightarrow> slot_index b i = slot_index b j \<longleftrightarrow> i = j"
  unfolding slot_index_def cap_def using mod_inj_window by blast

section \<open>The operations on the abstraction\<close>

lemma used_eq_0: "pktbuf_empty b \<longleftrightarrow> used b = 0"
  by (auto simp: pktbuf_empty_def used_def pktbuf_used_def unsigned_eq_0_iff)

lemma full_iff: "pktbuf_full b \<longleftrightarrow> cap b \<le> used b"
  by (simp add: pktbuf_full_def used_def cap_def word_le_nat_alt)

lemma set_slot_fields [simp]:
  "b_first (set_slot b i p) = b_first b" "b_last (set_slot b i p) = b_last b"
  "b_capacity (set_slot b i p) = b_capacity b" "used (set_slot b i p) = used b"
  "cap (set_slot b i p) = cap b" "slot_index (set_slot b i p) = slot_index b"
  by (simp_all add: set_slot_def used_def cap_def slot_index_def pktbuf_used_def fun_eq_iff)

lemma slot_set_slot:
  "j < length (b_head b) \<Longrightarrow> slot (set_slot b i p) j = (if i = j then p else slot b j)"
  by (simp add: slot_def set_slot_def)

lemma wf_set_slot [simp]: "wf_buf b \<Longrightarrow> wf_pkt p \<Longrightarrow> wf_buf (set_slot b i p)"
  by (auto simp: wf_buf_def set_slot_def pktbuf_used_def list_all_iff dest: set_update_subset_insert [THEN subsetD])

lemma wf_slot: "wf_buf b \<Longrightarrow> i < cap b \<Longrightarrow> wf_pkt (slot b i)"
  using wf_bufD(1,2) [of b] by (simp add: slot_def list_all_length)

text \<open>Writing through the pointer to the j-th item.\<close>

lemma items_set_slot:
  assumes "wf_buf b" and "j < used b"
  shows "items (set_slot b (slot_index b j) p) = (items b)[j := p]"
proof (rule nth_equalityI)
  fix i
  assume "i < length (items (set_slot b (slot_index b j) p))"
  then have "i < used b" by simp
  moreover have "used b \<le> cap b"
    using assms(1) by (rule wf_bufD)
  ultimately show "items (set_slot b (slot_index b j) p) ! i = (items b)[j := p] ! i"
    using assms slot_index_less [OF assms(1), of i] wf_bufD(1) [OF assms(1)]
    by (auto simp: slot_set_slot slot_index_inject nth_list_update)
qed simp

text \<open>A write to a slot that is not in use.\<close>

lemma items_set_free_slot:
  assumes "wf_buf b" and "used b \<le> j" and "j < cap b"
  shows "items (set_slot b (slot_index b j) p) = items b"
proof (rule nth_equalityI)
  fix i
  assume "i < length (items (set_slot b (slot_index b j) p))"
  then have "i < used b" by simp
  then show "items (set_slot b (slot_index b j) p) ! i = items b ! i"
    using assms slot_index_less [OF assms(1), of i] wf_bufD(1) [OF assms(1)]
    by (auto simp: slot_set_slot slot_index_inject)
qed simp

lemma enqueue_slot:
  assumes "wf_buf b"
  shows "fst (pktbuf_enqueue b) = slot_index b (used b)"
proof -
  have "b_first b + of_nat (used b) = b_last b"
    by (simp add: used_def pktbuf_used_def)
  then show ?thesis
    using buf_get_first [OF assms, of "used b"] by (simp add: pktbuf_enqueue_def)
qed

lemma enqueue_used:
  assumes "wf_buf b" and "used b < cap b"
  shows "used (snd (pktbuf_enqueue b)) = Suc (used b)"
proof -
  have "used b < 2 ^ 30"
    using wf_bufD(5) [OF assms(1)] assms(2) by simp
  then show ?thesis
    by (simp add: pktbuf_enqueue_def used_def unat_word_ariths)
qed

lemma enqueue_fields [simp]:
  "cap (snd (pktbuf_enqueue b)) = cap b" "slot (snd (pktbuf_enqueue b)) = slot b"
  "slot_index (snd (pktbuf_enqueue b)) = slot_index b" "b_head (snd (pktbuf_enqueue b)) = b_head b"
  "b_first (snd (pktbuf_enqueue b)) = b_first b" "b_capacity (snd (pktbuf_enqueue b)) = b_capacity b"
  by (simp_all add: pktbuf_enqueue_def cap_def slot_def slot_index_def fun_eq_iff)

lemma enqueue_items:
  assumes "wf_buf b" and "used b < cap b"
  shows "wf_buf (snd (pktbuf_enqueue b))"
    and "items (snd (pktbuf_enqueue b)) = items b @ [slot b (slot_index b (used b))]"
proof -
  have "pktbuf_used (snd (pktbuf_enqueue b)) \<le> b_capacity b"
    using enqueue_used [OF assms] assms(2) by (simp add: word_le_nat_alt used_def cap_def)
  then show "wf_buf (snd (pktbuf_enqueue b))"
    using assms(1) by (simp add: wf_buf_def)
  show "items (snd (pktbuf_enqueue b)) = items b @ [slot b (slot_index b (used b))]"
    using enqueue_used [OF assms] by (simp add: items_def)
qed

lemma dequeue_items:
  assumes "wf_buf b" and "0 < used b"
  shows "wf_buf (snd (pktbuf_dequeue b))" "fst (pktbuf_dequeue b) = slot_index b 0"
    and "items (snd (pktbuf_dequeue b)) = tl (items b)"
    and "used (snd (pktbuf_dequeue b)) = used b - 1" "cap (snd (pktbuf_dequeue b)) = cap b"
    and "slot (snd (pktbuf_dequeue b)) = slot b"
proof -
  let ?b = "snd (pktbuf_dequeue b)"
  have u: "used ?b = used b - 1"
    using assms(2) by (simp add: pktbuf_dequeue_def used_def unat_sub_if')
  then show "used ?b = used b - 1" .
  show c: "cap ?b = cap b" "slot ?b = slot b"
    by (simp_all add: pktbuf_dequeue_def cap_def slot_def fun_eq_iff)
  have "used ?b \<le> cap b"
    using u wf_bufD(3) [OF assms(1)] by simp
  then have "pktbuf_used ?b \<le> b_capacity b"
    by (simp add: word_le_nat_alt used_def cap_def)
  then show "wf_buf ?b"
    using assms(1) by (simp add: wf_buf_def pktbuf_dequeue_def)
  show "fst (pktbuf_dequeue b) = slot_index b 0"
    using buf_get_first [OF assms(1), of 0] by (simp add: pktbuf_dequeue_def)
  have "slot_index ?b j = slot_index b (Suc j)" for j
  proof -
    have "unat (b_first b + 1) mod cap b = (unat (b_first b) + 1) mod cap b"
      using unat_add_mod [OF assms(1), of "b_first b" 1] by simp
    then have "(unat (b_first b + 1) + j) mod cap b = (unat (b_first b) + 1 + j) mod cap b"
      by (rule mod_add_cong) (rule refl)
    then show ?thesis
      by (simp add: slot_index_def pktbuf_dequeue_def cap_def)
  qed
  then show "items ?b = tl (items b)"
    using u c by (auto simp: list_eq_iff_nth_eq nth_tl)
qed

lemma pktbuf_first_eq: "wf_buf b \<Longrightarrow> pktbuf_first b = (if used b = 0 then None else Some (slot_index b 0))"
  using buf_get_masked [of b "b_first b" 0]
  by (simp add: pktbuf_first_def used_eq_0 first_item_def slot_index_def cap_def)

lemma pktbuf_last_eq:
  assumes "wf_buf b"
  shows "pktbuf_last b = (if used b = 0 then None else Some (slot_index b (used b - 1)))"
proof -
  have "buf_get (last_item b) b = unat (b_last b - 1) mod cap b"
    using buf_get_masked [OF assms, of "b_last b - 1" 0] by (simp add: last_item_def)
  also have "\<dots> = slot_index b (used b - 1)" if "used b \<noteq> 0"
  proof -
    have "b_last b - 1 = b_first b + of_nat (used b - 1)"
      using that by (simp add: used_def pktbuf_used_def of_nat_diff)
    then show ?thesis
      using buf_get_first [OF assms, of "used b - 1"] by (simp only: buf_get_mod [OF assms])
  qed
  finally show ?thesis
    by (simp add: pktbuf_last_def used_eq_0)
qed

section \<open>Slots by sequence number\<close>

text \<open>The packets of a list carry consecutive sequence numbers, modulo 256.\<close>

definition seq_from :: "u8 \<Rightarrow> pkt list \<Rightarrow> bool" where
  "seq_from s ps \<longleftrightarrow> (\<forall>j < length ps. p_seq (ps ! j) = s + of_nat j)"

lemma seq_from_Nil [simp]: "seq_from s []"
  by (simp add: seq_from_def)

lemma seq_from_snoc: "seq_from s (ps @ [p]) \<longleftrightarrow> seq_from s ps \<and> p_seq p = s + of_nat (length ps)"
  by (auto simp: seq_from_def nth_append less_Suc_eq)

lemma seq_from_Cons: "seq_from s (p # ps) \<longleftrightarrow> p_seq p = s \<and> seq_from (s + 1) ps"
  by (auto simp: seq_from_def nth_Cons algebra_simps split: nat.splits)

lemma seq_from_update:
  "seq_from s ps \<Longrightarrow> p_seq p = s + of_nat j \<Longrightarrow> seq_from s (ps[j := p])"
proof -
  assume s: "seq_from s ps" and p: "p_seq p = s + of_nat j"
  have "p_seq (ps[j := p] ! i) = s + of_nat i" if "i < length ps" for i
    using that s p by (cases "i = j") (simp_all add: seq_from_def)
  then show ?thesis
    by (simp add: seq_from_def)
qed

text \<open>One round of the loop: a slot is added at the end, with the next sequence number.\<close>

definition reserve :: "pktbuf \<Rightarrow> u8 \<Rightarrow> pktbuf" where
  "reserve b seq = (let (i, b) = pktbuf_enqueue b in set_slot b i ((slot b i)\<lparr>p_seq := seq\<rparr>))"

lemma reserve_eq:
  assumes "wf_buf b"
  shows "reserve b seq = set_slot (snd (pktbuf_enqueue b)) (slot_index b (used b))
    ((slot b (slot_index b (used b)))\<lparr>p_seq := seq\<rparr>)"
  using enqueue_slot [OF assms] by (simp add: reserve_def case_prod_unfold)

lemma reserve:
  assumes "wf_buf b" and "used b < cap b"
  shows "wf_buf (reserve b seq)" "used (reserve b seq) = Suc (used b)"
    "items (reserve b seq) = items b @ [(slot b (slot_index b (used b)))\<lparr>p_seq := seq\<rparr>]"
    "cap (reserve b seq) = cap b" "b_first (reserve b seq) = b_first b"
    "slot_index (reserve b seq) = slot_index b" "b_capacity (reserve b seq) = b_capacity b"
proof -
  let ?b = "snd (pktbuf_enqueue b)" and ?i = "slot_index b (used b)"
  have i: "?i < cap b" and wf: "wf_pkt (slot b ?i)"
    using wf_slot [OF assms(1)] slot_index_less [OF assms(1)] by simp_all
  note e = enqueue_items [OF assms] enqueue_used [OF assms]
  show "wf_buf (reserve b seq)" "used (reserve b seq) = Suc (used b)"
    "cap (reserve b seq) = cap b" "b_first (reserve b seq) = b_first b"
    "slot_index (reserve b seq) = slot_index b" "b_capacity (reserve b seq) = b_capacity b"
    using e wf by (simp_all add: reserve_eq [OF assms(1)])
  show "items (reserve b seq) = items b @ [(slot b ?i)\<lparr>p_seq := seq\<rparr>]"
    using items_set_slot [OF e(1), of "used b"] e
      list_update_length [of "items b" _ "[]"]
    by (simp add: reserve_eq [OF assms(1)])
qed

lemma extend_slots_unfold:
  assumes "wf_buf b"
  shows "extend_slots b s offset =
    (if unat offset < used b then b else extend_slots (reserve b (s + of_nat (used b))) s offset)"
proof -
  have "(ucast offset < pktbuf_used b) = (unat offset < used b)"
    by (simp add: word_less_nat_alt used_def)
  moreover have "(ucast (ucast s + pktbuf_used b :: u32) :: u8) = s + of_nat (used b)"
    by (simp add: ucast_add_u8 used_def unsigned_of_nat)
  ultimately show ?thesis
    using assms
    by (subst extend_slots.simps) (simp add: reserve_def pktbuf_enqueue_def Let_def)
qed

lemma extend_slots:
  assumes "wf_buf b" and "seq_from s (items b)" and "unat offset < cap b"
  shows "wf_buf (extend_slots b s offset) \<and>
    used (extend_slots b s offset) = max (used b) (Suc (unat offset)) \<and>
    seq_from s (items (extend_slots b s offset)) \<and>
    take (used b) (items (extend_slots b s offset)) = items b \<and>
    cap (extend_slots b s offset) = cap b \<and> b_first (extend_slots b s offset) = b_first b \<and>
    slot_index (extend_slots b s offset) = slot_index b"
  using assms
proof (induction "Suc (unat offset) - used b" arbitrary: b)
  case 0
  then show ?case
    by (subst (1 2 3 4 5 6 7) extend_slots_unfold) auto
next
  case (Suc n)
  let ?b = "reserve b (s + of_nat (used b))"
  have u: "used b \<le> unat offset" "used b < cap b"
    using Suc.hyps(2) Suc.prems(3) by simp_all
  note r = reserve [OF Suc.prems(1) u(2)]
  have eq: "extend_slots b s offset = extend_slots ?b s offset"
    using u(1) extend_slots_unfold [OF Suc.prems(1)] by simp
  have sq: "seq_from s (items ?b)"
    using Suc.prems(2) r(3) by (simp add: seq_from_snoc)
  have IH: "wf_buf (extend_slots ?b s offset) \<and>
    used (extend_slots ?b s offset) = max (used ?b) (Suc (unat offset)) \<and>
    seq_from s (items (extend_slots ?b s offset)) \<and>
    take (used ?b) (items (extend_slots ?b s offset)) = items ?b \<and>
    cap (extend_slots ?b s offset) = cap ?b \<and> b_first (extend_slots ?b s offset) = b_first ?b \<and>
    slot_index (extend_slots ?b s offset) = slot_index ?b"
    using Suc.hyps(2) r Suc.prems(3) sq by (intro Suc.hyps(1)) simp_all
  have "take (used b) (items (extend_slots ?b s offset)) = take (used b) (items ?b)"
    using IH r(2) by (metis le_add2 min.absorb1 plus_1_eq_Suc take_take)
  then show ?case
    using IH r u eq by simp
qed

text \<open>
  \<open>pktbuf_slotfor_seq\<close> on a ring in order: the slot for the distance from the first packet,
  with new slots up to there, and the process stops when the distance is larger than the
  capacity.
\<close>

lemma slotfor_seq_nonempty:
  assumes "wf_buf b" and "seq_from s (items b)" and "used b \<noteq> 0"
  shows "pktbuf_slotfor_seq b seq =
    (if cap b < unat (seq - s) then Inl Exit_failure
     else let b' = extend_slots b s (seq - s) in
          Inr (buf_get (first_item b' + ucast (seq - s)) b', b'))"
proof -
  have "p_seq (slot b (slot_index b 0)) = s"
    using assms(2,3) by (auto simp: seq_from_def)
  moreover have "(ucast (seq - s) \<le> b_capacity b) \<longleftrightarrow> \<not> cap b < unat (seq - s)"
    by (simp add: word_le_nat_alt cap_def not_less)
  ultimately show ?thesis
    using assms(1,3)
    by (simp add: pktbuf_slotfor_seq_def pktbuf_first_eq used_eq_0 Let_def)
qed

lemma slotfor_seq_ok:
  assumes "wf_buf b" and "seq_from s (items b)" and "used b \<noteq> 0" and "unat (seq - s) < cap b"
  shows "\<exists>b'. pktbuf_slotfor_seq b seq = Inr (slot_index b (unat (seq - s)), b') \<and> wf_buf b' \<and>
    used b' = max (used b) (Suc (unat (seq - s))) \<and> seq_from s (items b') \<and>
    take (used b) (items b') = items b \<and> cap b' = cap b \<and> slot_index b' = slot_index b"
proof -
  let ?b = "extend_slots b s (seq - s)"
  note e = extend_slots [OF assms(1,2,4)]
  have "buf_get (first_item ?b + ucast (seq - s)) ?b = slot_index ?b (unat (seq - s))"
    using buf_get_masked [of ?b "b_first ?b" "unat (seq - s)"] e
    by (simp add: first_item_def slot_index_def cap_def unsigned_of_nat)
  then show ?thesis
    using slotfor_seq_nonempty [OF assms(1-3), of seq] assms(4) e by (auto simp: Let_def)
qed

lemma slotfor_seq_empty:
  assumes "wf_buf b" and "used b = 0"
  shows "\<exists>b'. pktbuf_slotfor_seq b seq = Inr (slot_index b 0, b') \<and> wf_buf b' \<and>
    items b' = [(slot b (slot_index b 0))\<lparr>p_seq := seq\<rparr>] \<and> used b' = 1 \<and>
    cap b' = cap b \<and> slot_index b' = slot_index b"
proof -
  have c: "used b < cap b"
    using wf_bufD(4) [OF assms(1)] assms(2) by simp
  note r = reserve [OF assms(1) c, of seq]
  have i: "items (reserve b seq) = [(slot b (slot_index b 0))\<lparr>p_seq := seq\<rparr>]"
    using r(3) assms(2) by (simp add: items_def)
  then have sq: "seq_from seq (items (reserve b seq))"
    by (simp add: seq_from_Cons)
  have "pktbuf_slotfor_seq b seq = pktbuf_slotfor_seq (reserve b seq) seq"
    using assms r(2) by (simp add: pktbuf_slotfor_seq_def used_eq_0 reserve_def)
  moreover have "extend_slots (reserve b seq) seq 0 = reserve b seq"
    using extend_slots_unfold [OF r(1), of seq 0] r(2) by simp
  ultimately show ?thesis
    using slotfor_seq_ok [OF r(1) sq, of seq] slotfor_seq_nonempty [OF r(1) sq, of seq] r i assms(2) wf_bufD(4) [OF assms(1)]
    by (auto simp: Let_def)
qed

end
