(* ===== verification/Receiver_Window.thy ===== *)
theory Receiver_Window
  imports Receiver Pktbuf_Queue
begin

text \<open>
  The receive window: what the bit mask and the ring of the receiver mean together, and how
  emptying the buffer changes them. \<open>ones m\<close> is the number of low bits set, that is the
  number of packets in sequence at the front of the buffer.
\<close>

unbundle bit_operations_syntax

declare nth_items [simp del]

lemma items_Cons: "0 < used b \<Longrightarrow> items b = items b ! 0 # tl (items b)"
  by (cases "items b") (auto dest: arg_cong [of _ _ length])

section \<open>The low bits of the mask\<close>

definition ones :: "u32 \<Rightarrow> nat" where
  "ones m = length (takeWhile (bit m) [0..<32])"

lemma and_1_bit: "(m :: u32) AND 1 \<noteq> 0 \<longleftrightarrow> bit m 0"
  by (simp add: bit_0 and_one_eq odd_iff_mod_2_eq_one)

lemma takeWhile_upt:
  "i < length (takeWhile P [0..<n]) \<Longrightarrow> P i"
  "length (takeWhile P [0..<n]) < n \<Longrightarrow> \<not> P (length (takeWhile P [0..<n]))"
  "length (takeWhile P [0..<n]) \<le> n"
proof -
  show le: "length (takeWhile P [0..<n]) \<le> n"
    using length_takeWhile_le [of P "[0..<n]"] by simp
  show "\<not> P (length (takeWhile P [0..<n]))" if "length (takeWhile P [0..<n]) < n"
    using that nth_length_takeWhile [of P "[0..<n]"] by simp
  assume i: "i < length (takeWhile P [0..<n])"
  then have "takeWhile P [0..<n] ! i = i"
    using le by (simp add: takeWhile_nth)
  then have "i \<in> set (takeWhile P [0..<n])"
    using nth_mem [OF i] by simp
  then show "P i"
    by (auto dest: set_takeWhileD)
qed

lemma ones_le: "ones m \<le> 32"
  unfolding ones_def by (rule takeWhile_upt)

lemma bit_less_ones: "i < ones m \<Longrightarrow> bit m i"
  unfolding ones_def by (rule takeWhile_upt)

lemma not_bit_ones: "\<not> bit m (ones m)"
proof (cases "ones m < 32")
  case True
  then show ?thesis
    unfolding ones_def by (rule takeWhile_upt)
next
  case False
  then show ?thesis
    using bit_imp_le_length [of m "ones m"] by auto
qed

lemma ones_eqI: "(\<And>i. i < k \<Longrightarrow> bit m i) \<Longrightarrow> \<not> bit m k \<Longrightarrow> ones m = k"
  by (metis bit_less_ones linorder_neqE_nat not_bit_ones)

lemma ones_0_iff: "ones m = 0 \<longleftrightarrow> \<not> bit m 0"
  by (metis bit_less_ones gr0I not_bit_ones)

lemma bit_drop_1: "bit (drop_bit 1 (m :: u32)) j \<longleftrightarrow> bit m (Suc j)"
  by (simp only: bit_drop_bit_eq comp_def plus_1_eq_Suc)

lemma ones_drop_bit: "ones (drop_bit 1 m) = ones m - 1" if "bit m 0"
proof (rule ones_eqI)
  have "ones m \<noteq> 0"
    using that by (simp add: ones_0_iff)
  then show "\<not> bit (drop_bit 1 m) (ones m - 1)"
    using not_bit_ones [of m] by (simp only: bit_drop_1) simp
  show "bit (drop_bit 1 m) i" if "i < ones m - 1" for i
    using that bit_less_ones [of "Suc i" m] by (simp only: bit_drop_1)
qed

lemma count_in_seq_eq: "count_in_seq m c = c + of_nat (ones m)"
proof (induction m c rule: count_in_seq.induct)
  case (1 m c)
  show ?case
  proof (cases "bit m 0")
    case True
    then have "ones m = Suc (ones (drop_bit 1 m))"
      using ones_drop_bit [OF True] ones_0_iff [of m] by simp
    then show ?thesis
      using 1 True by (subst count_in_seq.simps) (simp add: and_1_bit)
  next
    case False
    then show ?thesis
      using ones_0_iff [of m] by (subst count_in_seq.simps) (simp add: and_1_bit)
  qed
qed

lemma window_size_eq: "window_size s = r_max_window s - of_nat (ones (r_oos_mask s))"
  by (simp add: window_size_def count_in_seq_eq)

lemma bit_or_exp: "n < 32 \<Longrightarrow> bit ((m :: u32) OR push_bit n 1) j \<longleftrightarrow> bit m j \<or> j = n"
  by (auto simp: bit_simps)

section \<open>Mask and buffer together\<close>

text \<open>A stored packet: whole, and with a length inside the payload array.\<close>

definition whole_pkt :: "pkt \<Rightarrow> bool" where
  "whole_pkt p \<longleftrightarrow> p_tr p = 0 \<and> unat (p_length p) \<le> 512"

definition payload_of :: "pkt \<Rightarrow> byte list" where
  "payload_of p = take (unat (p_length p)) (p_payload p)"

text \<open>
  The receiver's invariant: the buffer carries consecutive sequence numbers, ending its
  in-sequence part right before the expected one, and every bit of the mask is a stored
  packet.
\<close>

definition synced :: "receiver \<Rightarrow> bool" where
  "synced s \<longleftrightarrow>
     wf_buf (r_buf s) \<and> cap (r_buf s) = 32 \<and> r_max_window s \<le> MAX_WINDOW_SIZE \<and>
     seq_from (r_expected_seq s - of_nat (ones (r_oos_mask s))) (items (r_buf s)) \<and>
     (\<forall>j. bit (r_oos_mask s) j \<longrightarrow> j < used (r_buf s) \<and> whole_pkt (items (r_buf s) ! j))"

text \<open>The segments the mask says are there, by their distance from the first slot.\<close>

definition marked :: "receiver \<Rightarrow> nat \<Rightarrow> segment option" where
  "marked s j =
     (if bit (r_oos_mask s) j then Some (segment_of (items (r_buf s) ! j)) else None)"

lemma syncedD:
  assumes "synced s"
  shows "wf_buf (r_buf s)" "cap (r_buf s) = 32" "r_max_window s \<le> 31"
    "seq_from (r_expected_seq s - of_nat (ones (r_oos_mask s))) (items (r_buf s))"
    "bit (r_oos_mask s) j \<Longrightarrow> j < used (r_buf s)"
    "bit (r_oos_mask s) j \<Longrightarrow> whole_pkt (items (r_buf s) ! j)"
  using assms by (simp_all add: synced_def)

lemma synced_update [simp]:
  "synced (s\<lparr>r_out := a\<rparr>) = synced s" "synced (s\<lparr>r_out_results := b\<rparr>) = synced s"
  "synced (s\<lparr>r_last_written_len := c\<rparr>) = synced s" "synced (s\<lparr>r_need_ack := d\<rparr>) = synced s"
  "synced (s\<lparr>r_need_nack := d\<rparr>) = synced s" "synced (s\<lparr>r_ack_pkt := p\<rparr>) = synced s"
  "synced (s\<lparr>r_nack_pkt := p\<rparr>) = synced s" "synced (s\<lparr>e_rx := f\<rparr>) = synced s"
  "synced (s\<lparr>e_wr := g\<rparr>) = synced s" "synced (s\<lparr>e_tx := h\<rparr>) = synced s"
  by (simp_all add: synced_def)

section \<open>Emptying the buffer\<close>

lemma synced_first:
  assumes "synced s" and "bit (r_oos_mask s) 0"
  shows "pktbuf_first (r_buf s) = Some (slot_index (r_buf s) 0)" "0 < used (r_buf s)"
    "buf_slot s (slot_index (r_buf s) 0) = items (r_buf s) ! 0"
    "whole_pkt (items (r_buf s) ! 0)"
proof -
  show u: "0 < used (r_buf s)" and "whole_pkt (items (r_buf s) ! 0)"
    using syncedD(5,6) [OF assms] by simp_all
  then show "pktbuf_first (r_buf s) = Some (slot_index (r_buf s) 0)"
    "buf_slot s (slot_index (r_buf s) 0) = items (r_buf s) ! 0"
    using pktbuf_first_eq [OF syncedD(1) [OF assms(1)]] by (simp_all add: buf_slot_def nth_items)
qed

lemma drop_first_mask: "r_oos_mask (drop_first s) = drop_bit 1 (r_oos_mask s)"
  by (simp only: drop_first_def) simp

lemma drop_first_synced:
  assumes "synced s" and "bit (r_oos_mask s) 0"
  shows "synced (drop_first s)" "items (r_buf (drop_first s)) = tl (items (r_buf s))"
    "ones (r_oos_mask (drop_first s)) = ones (r_oos_mask s) - 1"
proof -
  note u = synced_first(2) [OF assms]
  note d = dequeue_items [OF syncedD(1) [OF assms(1)] u]
  show i: "items (r_buf (drop_first s)) = tl (items (r_buf s))"
    using d by (simp add: drop_first_def)
  show o: "ones (r_oos_mask (drop_first s)) = ones (r_oos_mask s) - 1"
    using ones_drop_bit [OF assms(2)] by (simp only: drop_first_def) simp
  obtain k where k: "ones (r_oos_mask s) = Suc k"
    using ones_0_iff [of "r_oos_mask s"] assms(2) by (cases "ones (r_oos_mask s)") simp_all
  have b: "r_expected_seq s - of_nat (ones (r_oos_mask s)) + 1 =
      r_expected_seq s - of_nat (ones (r_oos_mask s) - 1)"
    by (simp add: k)
  obtain p ps where p: "items (r_buf s) = p # ps"
    using u by (cases "items (r_buf s)") (simp_all add: items_def)
  have "seq_from (r_expected_seq s - of_nat (ones (r_oos_mask s)) + 1) (tl (items (r_buf s)))"
    using syncedD(4) [OF assms(1)] by (simp add: p seq_from_Cons)
  then have "seq_from (r_expected_seq s - of_nat (ones (r_oos_mask s) - 1)) (tl (items (r_buf s)))"
    by (simp only: b)
  moreover have "j < used (r_buf s) - 1 \<and> whole_pkt (tl (items (r_buf s)) ! j)"
    if "bit (drop_bit 1 (r_oos_mask s)) j" for j
    using that syncedD(5,6) [OF assms(1), of "Suc j"] p by (simp only: bit_drop_1) (auto simp: nth_tl)
  moreover note drop_first_mask [of s]
  ultimately show "synced (drop_first s)"
    using d i o syncedD(2,3) [OF assms(1)]
    by (simp only: synced_def) (simp add: drop_first_def)
qed

text \<open>Emptying the buffer only touches the buffer, the mask and the output.\<close>

definition out_frame :: "receiver \<Rightarrow> receiver \<Rightarrow> bool" where
  "out_frame s s' \<longleftrightarrow>
     s' = s\<lparr>r_buf := r_buf s', r_oos_mask := r_oos_mask s', r_out := r_out s',
       r_out_results := r_out_results s', r_last_written_len := r_last_written_len s'\<rparr>"

lemma out_frame_refl [simp]: "out_frame s s"
  by (simp add: out_frame_def)

lemma out_frame_trans: "out_frame s s1 \<Longrightarrow> out_frame s1 s' \<Longrightarrow> out_frame s s'"
  by (cases s; cases s1; cases s') (simp add: out_frame_def)

lemma out_frame_drop_first: "out_frame s (drop_first s)"
  unfolding out_frame_def drop_first_def by (cases s) simp

lemma out_frame_update [simp]:
  "out_frame s (s\<lparr>r_out := a, r_out_results := b, r_last_written_len := c\<rparr>)"
  "out_frame s (s\<lparr>r_last_written_len := c, r_out := a\<rparr>)" "out_frame s (s\<lparr>r_last_written_len := c\<rparr>)"
  "out_frame s (s\<lparr>r_last_written_len := c, r_out := a, r_out_results := b\<rparr>)"
  "out_frame s (s\<lparr>r_last_written_len := c, r_out_results := b\<rparr>)"
  by (simp_all add: out_frame_def)

lemma out_frameD:
  assumes "out_frame s s'"
  shows "r_expected_seq s' = r_expected_seq s" "r_max_window s' = r_max_window s"
    "r_last_ts s' = r_last_ts s" "r_need_ack s' = r_need_ack s" "r_need_nack s' = r_need_nack s"
    "r_nack_seq s' = r_nack_seq s" "r_ack_pkt s' = r_ack_pkt s" "r_nack_pkt s' = r_nack_pkt s"
    "e_rx s' = e_rx s" "e_tx s' = e_tx s" "e_wr s' = e_wr s"
  using assms by (cases s; cases s'; simp add: out_frame_def)+

text \<open>
  Writing one chunk to a file that gives these results: how many of its bytes go out, the value
  to return if the writing ends here, and the results that are left. An empty chunk needs no write,
  a file that would block ends the writing without an error, and a short write is an error.
\<close>

fun write_chunk :: "byte list \<Rightarrow> out_result list \<Rightarrow> nat \<times> int option \<times> out_result list" where
  "write_chunk [] rs = (0, None, rs)"
| "write_chunk b [] = (length b, None, [])"
| "write_chunk b (Out_again # rs) = (0, Some 0, rs)"
| "write_chunk b (Out_error # rs) = (0, Some (-1), rs)"
| "write_chunk b (Out_len n # rs) = (n, if n = length b then None else Some (-1), rs)"

text \<open>
  Writing chunks one after the other: how many went out whole, the bytes written, the value to
  return, and the results that are left.
\<close>

fun drain :: "byte list list \<Rightarrow> out_result list \<Rightarrow> nat \<times> byte list \<times> int \<times> out_result list" where
  "drain [] rs = (0, [], 0, rs)"
| "drain (b # bs) rs =
    (case write_chunk b rs of
       (n, Some r, rs) \<Rightarrow> (0, take n b, r, rs)
     | (n, None, rs) \<Rightarrow> (case drain bs rs of (j, out, r, rs) \<Rightarrow> (Suc j, b @ out, r, rs)))"

lemma write_first_chunk:
  assumes "synced s" and "bit (r_oos_mask s) 0" and "write_chunk (payload_of (items (r_buf s) ! 0)) (r_out_results s) = (n, stop, rs)"
  defines "b \<equiv> payload_of (items (r_buf s) ! 0)"
  shows "write_first s = Inr (case stop of None \<Rightarrow> Write_done | Some r \<Rightarrow> if r = 0 then Write_stop else Write_fail,
      s\<lparr>r_last_written_len := int (length b), r_out := r_out s @ take n b, r_out_results := rs\<rparr>)"
proof -
  let ?p = "items (r_buf s) ! 0"
  note f = synced_first [OF assms(1,2)]
  have len: "unat (p_length ?p) \<le> 512"
    using f(4) by (simp add: whole_pkt_def)
  have wf: "wf_pkt ?p"
    using wf_slot [OF syncedD(1) [OF assms(1)] slot_index_less [OF syncedD(1) [OF assms(1)]], of 0] f(2)
    by (simp add: nth_items)
  have pl: "length b = unat (p_length ?p)"
    using wf len by (simp add: b_def payload_of_def wf_pkt_def)
  show ?thesis
  proof (cases "b = []")
    case True
    then have "p_length ?p = 0"
      using pl by (simp add: unat_eq_zero)
    then show ?thesis
      using assms(3) f True by (cases s) (simp add: write_first_def b_def)
  next
    case False
    then have "p_length ?p \<noteq> 0"
      using pl by auto
    let ?s = "s\<lparr>r_last_written_len := int (length b)\<rparr>"
    have eq: "write_first s = (case sys_write_out b ?s of
         (Out_again, s) \<Rightarrow> Inr (Write_stop, s)
       | (Out_error, s) \<Rightarrow> Inr (Write_fail, s)
       | (Out_len n, s) \<Rightarrow> Inr (if n \<noteq> length b then Write_fail else Write_done, s))"
      unfolding pl using f len \<open>p_length ?p \<noteq> 0\<close> by (simp add: write_first_def b_def payload_of_def not_less Let_def)
    obtain x xs where x: "b = x # xs"
      using False by (cases b) auto
    show ?thesis
    proof (cases "r_out_results s")
      case Nil
      then show ?thesis
        using assms(3) unfolding b_def [symmetric] by (simp add: eq sys_write_out_def x)
    next
      case (Cons r rs')
      then show ?thesis
        using assms(3) unfolding b_def [symmetric] by (cases r) (auto simp: eq sys_write_out_def x)
    qed
  qed
qed

lemma do_empty_rbuf_drains:
  assumes "synced s" and "drain (map payload_of (take (ones (r_oos_mask s)) (items (r_buf s)))) (r_out_results s) = (j, out, r, rs)"
  shows "\<exists>s'. do_empty_rbuf s = Inr (r, s') \<and> synced s' \<and> items (r_buf s') = drop j (items (r_buf s)) \<and>
    r_oos_mask s' = drop_bit j (r_oos_mask s) \<and> r_out s' = r_out s @ out \<and> r_out_results s' = rs \<and>
    (ones (r_oos_mask s) \<noteq> 0 \<longrightarrow> r_last_written_len s' =
       int (length (payload_of (items (r_buf s) ! min j (ones (r_oos_mask s) - 1))))) \<and>
    (ones (r_oos_mask s) = 0 \<longrightarrow> r_last_written_len s' = r_last_written_len s) \<and> out_frame s s'"
  using assms
proof (induction "ones (r_oos_mask s)" arbitrary: s j out)
  case 0
  then have "do_empty_rbuf s = Inr (0, s)"
    using ones_0_iff [of "r_oos_mask s"] by (simp add: do_empty_rbuf.simps [of s] and_1_bit)
  then show ?case
    using 0 by simp
next
  case (Suc k)
  let ?b = "payload_of (items (r_buf s) ! 0)"
  have b: "bit (r_oos_mask s) 0"
    using Suc.hyps(2) ones_0_iff [of "r_oos_mask s"] by simp
  note u = synced_first(2) [OF Suc.prems(1) b]
  obtain p ps where p: "items (r_buf s) = p # ps"
    using u by (cases "items (r_buf s)") (simp_all add: items_def)
  obtain n stop rs1 where c: "write_chunk ?b (r_out_results s) = (n, stop, rs1)"
    by (metis prod_cases3)
  let ?s1 = "s\<lparr>r_last_written_len := int (length ?b), r_out := r_out s @ take n ?b, r_out_results := rs1\<rparr>"
  note w = write_first_chunk [OF Suc.prems(1) b c]
  have d: "(case stop of Some r' \<Rightarrow> (0, take n ?b, r', rs1)
     | None \<Rightarrow> (case drain (map payload_of (take k ps)) rs1 of (j, out, r, rs) \<Rightarrow> (Suc j, ?b @ out, r, rs))) = (j, out, r, rs)"
    using Suc.prems(2) c p unfolding Suc.hyps(2) [symmetric] by (cases stop) simp_all
  have f1: "r_out_results ?s1 = rs1" "r_buf ?s1 = r_buf s" "r_oos_mask ?s1 = r_oos_mask s" "out_frame s ?s1"
    by simp_all
  have s1: "synced ?s1" "bit (r_oos_mask ?s1) 0"
    using Suc.prems(1) b by (simp_all add: synced_def)
  note run = do_empty_rbuf.simps [of s, unfolded w]
  show ?case
  proof (cases stop)
    case (Some r')
    then have e: "j = 0" "out = take n ?b" "r' = r" "rs1 = rs"
      using d by simp_all
    have "r = 0 \<or> r = -1"
      using c Some e(3) by (cases "(?b, r_out_results s)" rule: write_chunk.cases) (auto split: if_splits)
    then have "do_empty_rbuf s = Inr (r, ?s1)"
      using b Some e(3) unfolding run by (auto simp: and_1_bit)
    then show ?thesis
      using s1(1) f1(4) e Suc.hyps(2) by (intro exI [of _ ?s1]) (simp add: Suc.hyps(2) [symmetric])
  next
    case None
    let ?s2 = "drop_first ?s1"
    note ds = drop_first_synced [OF s1]
    obtain j' out' where e: "drain (map payload_of (take k ps)) rs1 = (j', out', r, rs)" "j = Suc j'" "out = ?b @ out'"
      using d None by (cases "drain (map payload_of (take k ps)) rs1") simp
    have s2: "ones (r_oos_mask ?s2) = k" "items (r_buf ?s2) = ps" "r_out_results ?s2 = rs1"
      "r_oos_mask ?s2 = drop_bit 1 (r_oos_mask s)" "r_out ?s2 = r_out s @ take n ?b" "r_last_written_len ?s2 = int (length ?b)"
      using ds(2,3) p Suc.hyps(2) [symmetric] drop_first_mask [of ?s1] by (simp_all add: drop_first_def)
    have "take n ?b = ?b"
      using c None by (cases "(?b, r_out_results s)" rule: write_chunk.cases) (auto split: if_splits)
    obtain s' where s': "do_empty_rbuf ?s2 = Inr (r, s')" "synced s'" "items (r_buf s') = drop j' ps"
      "r_oos_mask s' = drop_bit j' (drop_bit 1 (r_oos_mask s))" "r_out s' = (r_out s @ take n ?b) @ out'" "r_out_results s' = rs"
      "k \<noteq> 0 \<longrightarrow> r_last_written_len s' = int (length (payload_of (ps ! min j' (k - 1))))"
      "k = 0 \<longrightarrow> r_last_written_len s' = int (length ?b)" "out_frame ?s2 s'"
      using Suc.hyps(1) [OF s2(1) [symmetric] ds(1), unfolded s2(1-3), OF e(1), unfolded s2(4-6)] by blast
    have "do_empty_rbuf s = Inr (r, s')"
      using b None s'(1) unfolding run by (simp add: and_1_bit)
    moreover have "out_frame s s'"
      using f1(4) out_frame_drop_first [of ?s1] s'(9) out_frame_trans by blast
    moreover have "r_last_written_len s' = int (length (payload_of (items (r_buf s) ! min j k)))"
      using s'(7,8) e(2) p by (cases k) (simp_all add: min_def)
    ultimately show ?thesis
      using s'(2-6) e(2,3) p \<open>take n ?b = ?b\<close> by (intro exI [of _ s']) (simp add: Suc.hyps(2) [symmetric] drop_bit_drop_bit)
  qed
qed

lemma drain_all: "drain bs [] = (length bs, concat bs, 0, [])"
proof (induction bs)
  case (Cons b bs)
  then show ?case
    by (cases b) simp_all
qed simp

lemma drain_part:
  "drain bs rs = (j, out, r, rs') \<Longrightarrow> j \<le> length bs \<and> (\<exists>n. out = concat (take j bs) @ take n (concat (drop j bs))) \<and>
    (r = 0 \<or> r = -1)"
proof (induction bs arbitrary: rs j out)
  case (Cons b bs)
  obtain n stop rs1 where c: "write_chunk b rs = (n, stop, rs1)"
    by (metis prod_cases3)
  show ?case
  proof (cases stop)
    case None
    then obtain j' out' where e: "drain bs rs1 = (j', out', r, rs')" "j = Suc j'" "out = b @ out'"
      using Cons.prems c by (auto split: prod.splits)
    then show ?thesis
      using Cons.IH [OF e(1)] by auto
  next
    case (Some r')
    have "r' = 0 \<or> r' = -1"
      using c Some by (cases "(b, rs)" rule: write_chunk.cases) (auto split: if_splits)
    moreover have e: "j = 0" "out = take n b" "r' = r"
      using Cons.prems c Some by simp_all
    moreover have "take n b = take (min n (length b)) (concat (b # bs))"
      by (simp add: min_def)
    ultimately show ?thesis
      by (metis append_Nil concat.simps(1) drop0 take_0 zero_le)
  qed
qed simp

text \<open>A file that takes what it is given: everything in sequence is written and taken out.\<close>

definition emptied :: "receiver \<Rightarrow> receiver \<Rightarrow> bool" where
  "emptied s s' \<longleftrightarrow> (let j = ones (r_oos_mask s) in
     synced s' \<and> items (r_buf s') = drop j (items (r_buf s)) \<and> r_oos_mask s' = drop_bit j (r_oos_mask s) \<and>
     r_out s' = r_out s @ concat (map payload_of (take j (items (r_buf s)))) \<and> r_out_results s' = [] \<and>
     r_last_written_len s' = (case j of 0 \<Rightarrow> r_last_written_len s
       | Suc i \<Rightarrow> int (length (payload_of (items (r_buf s) ! i)))) \<and>
     out_frame s s')"

lemma synced_ones: "synced s \<Longrightarrow> ones (r_oos_mask s) \<le> used (r_buf s)"
  using syncedD(5) bit_less_ones by (metis linorder_le_less_linear nat_less_le order_refl)

lemma do_empty_all:
  assumes "synced s" and "r_out_results s = []"
  shows "\<exists>s'. do_empty_rbuf s = Inr (0, s') \<and> emptied s s'"
proof -
  let ?j = "ones (r_oos_mask s)" and ?bs = "map payload_of (take (ones (r_oos_mask s)) (items (r_buf s)))"
  have "drain ?bs (r_out_results s) = (?j, concat ?bs, 0, [])"
    using synced_ones [OF assms(1)] by (simp add: assms(2) drain_all)
  from do_empty_rbuf_drains [OF assms(1) this] show ?thesis
    unfolding emptied_def Let_def by (cases ?j) (auto simp: min_def)
qed

end
