(* ===== verification/Net_Props.thy ===== *)
theory Net_Props
  imports Net
begin

text \<open>
  What the socket layer promises the sender and the receiver: what is sent is the encoding of
  the packet and decodes at the other end, what is received was a valid segment inside the
  window, connecting takes a bounded number of datagrams, and no descriptor is lost.
\<close>

unbundle bit_operations_syntax

section \<open>Sending what the encoder left in memory\<close>

lemma ntohs_0 [simp]: "ntohs w = 0 \<longleftrightarrow> w = 0"
proof -
  have "ntohs 0 = 0"
    by (simp add: ntohs_def of_le16_def)
  then show ?thesis
    by (metis ntohs_ntohs)
qed

lemma pkt_len_serial_encoded:
  assumes "wf_pkt p" and "unat (p_length p) \<le> 512"
  shows "pkt_len_serial (encoded_pkt crc p) = unat (pkt_len p)"
  using encoded_pkt(7) [OF assms, of crc]
  by (simp add: pkt_len_serial_def unat_pkt_len htons_def)

text \<open>Whether the next write succeeds completely.\<close>

definition write_ok :: "nat \<Rightarrow> 'a env_scheme \<Rightarrow> bool" where
  "write_ok n e \<longleftrightarrow> (case e_wr e of [] \<Rightarrow> True | r # _ \<Rightarrow> r = int n)"

definition after_write :: "byte list \<Rightarrow> 'a env_scheme \<Rightarrow> 'a env_scheme" where
  "after_write bs e = e\<lparr>e_tx := e_tx e @ [bs], e_wr := drop 1 (e_wr e)\<rparr>"

lemma sys_write_ok:
  "write_ok (length bs) e \<Longrightarrow> sys_write bs e = (int (length bs), after_write bs e)"
  by (auto simp: sys_write_def write_ok_def after_write_def drop_Suc split: list.splits)

lemma net_send_encoded:
  assumes "wf_pkt p" and "unat (p_length p) \<le> 512"
    and "write_ok (unat (pkt_len p)) e"
  shows "net_send (encoded_pkt crc p) e = Inr (NET_OK, after_write (wire_of crc (raw_segment_of p)) e)"
proof -
  have l: "unat (pkt_len p) \<le> 528"
    using assms(2) by (simp add: unat_pkt_len)
  have "length (take (unat (pkt_len p)) (pkt_mem (encoded_pkt crc p))) = unat (pkt_len p)"
    using encoded_pkt(1) [OF assms(1,2)] l by simp
  then have "length (wire_of crc (raw_segment_of p)) = unat (pkt_len p)"
    using encoded_pkt(8) [OF assms(1,2), of crc] by simp
  then show ?thesis
    using assms encoded_pkt(8) [OF assms(1,2), of crc] l
      sys_write_ok [of "wire_of crc (raw_segment_of p)" e]
    by (simp add: net_send_def pkt_len_serial_encoded)
qed

section \<open>Receiving\<close>

lemma net_recvfrom_Rx:
  assumes "e_rx e = Rx src dgram # evs"
  shows "net_recvfrom crc rbuf addr e =
    Inr (let bs = take 528 dgram;
             (st, q) = pkt_decode_inline crc (store_bytes rbuf 0 bs) (of_nat (length bs)) in
         (if st \<noteq> PKT_OK then NET_DROP else NET_OK, q, store_addr src addr, e\<lparr>e_rx := evs\<rparr>))"
  using assms by (simp add: net_recvfrom_def sys_recv_def Let_def case_prod_unfold)

lemma decode_inline_wf:
  "pkt_decode_inline crc p n = (st, q) \<Longrightarrow> wf_pkt p \<Longrightarrow> wf_pkt q"
  using decode_inline_frame(1) [of crc p n] by (simp add: wf_pkt_def)

lemma net_recv_pkt_wf:
  assumes "net_recv_pkt crc rbuf ex win e = Inr (st, q, e')" and "wf_pkt rbuf"
  shows "wf_pkt q"
  using assms
  by (auto simp: net_recv_pkt_def net_recvfrom_def sys_recv_def rbind_Inr_iff Let_def
      split: list.splits rx_event.splits prod.splits if_splits intro: decode_inline_wf)

text \<open>The three things a receive can come to, when there is anything to receive.\<close>

lemma net_recv_pkt_error:
  "e_rx e = Rx_error # evs \<Longrightarrow>
    net_recv_pkt crc rbuf expected win e = Inr (NET_ERROR, rbuf, e\<lparr>e_rx := evs\<rparr>)"
  by (simp add: net_recv_pkt_def net_recvfrom_def sys_recv_def)

lemma net_recv_pkt_cases:
  assumes "wf_pkt rbuf" and "e_rx e = Rx src dgram # evs"
  obtains (accepted) q where "net_recv_pkt crc rbuf expected win e = Inr (NET_OK, q, e\<lparr>e_rx := evs\<rparr>)"
      "datagram_of crc (segment_of q) (take 528 dgram)" "s_seq (segment_of q) - expected \<le> win"
  | (dropped) q where "net_recv_pkt crc rbuf expected win e = Inr (NET_DROP, q, e\<lparr>e_rx := evs\<rparr>)"
      "\<And>s. datagram_of crc s (take 528 dgram) \<Longrightarrow> \<not> s_seq s - expected \<le> win"
proof -
  let ?bs = "take 528 dgram"
  obtain st q where d: "pkt_decode_inline crc (store_bytes rbuf 0 ?bs) (of_nat (length ?bs)) = (st, q)"
    by fastforce
  have *: "(st = PKT_OK \<and> segment_of q = s) \<longleftrightarrow> datagram_of crc s ?bs" for s
    using decode_datagram [OF assms(1), of ?bs crc s] d by auto
  have sq: "s_seq (segment_of q) = p_seq q"
    by (simp add: segment_of_def)
  have run: "net_recv_pkt crc rbuf expected win e =
      Inr (if st = PKT_OK \<and> p_seq q - expected \<le> win then NET_OK else NET_DROP, q, e\<lparr>e_rx := evs\<rparr>)"
    using d by (simp add: net_recv_pkt_def net_recvfrom_Rx [OF assms(2)] not_less)
  show thesis
  proof (cases "st = PKT_OK \<and> p_seq q - expected \<le> win")
    case True
    then show thesis
      using * [of "segment_of q"] run sq by (intro accepted [of q]) simp_all
  next
    case False
    then have "\<not> s_seq s - expected \<le> win" if "datagram_of crc s ?bs" for s
      using * [of s] sq that by auto
    then show thesis
      using run False by (intro dropped [of q]) simp_all
  qed
qed

lemma datagram_of_unique:
  assumes "datagram_of crc s (take 528 d)" and "datagram_of crc s' (take 528 d)"
  shows "s = s'"
proof -
  have "length (take 528 d) \<le> 528"
    by simp
  from decode_datagram [OF wf_pkt_zero this, of crc] assms show ?thesis
    by (metis Pair_inject)
qed

lemma net_recv_pkt_iff:
  assumes "wf_pkt rbuf" and "e_rx e = Rx src dgram # evs"
  shows "(\<exists>q. net_recv_pkt crc rbuf expected win e = Inr (NET_OK, q, e\<lparr>e_rx := evs\<rparr>) \<and>
            segment_of q = s)
    \<longleftrightarrow> datagram_of crc s (take 528 dgram) \<and> s_seq s - expected \<le> win"
proof (cases rule: net_recv_pkt_cases [OF assms, of crc expected win, case_names accepted dropped])
  case (accepted q)
  have "datagram_of crc s (take 528 dgram) \<longleftrightarrow> s = segment_of q"
    using accepted(2) datagram_of_unique by blast
  then show ?thesis
    using accepted by auto
next
  case (dropped q)
  then show ?thesis
    by auto
qed

text \<open>
  C17. \<open>net_recv_pkt\<close> accepts the next datagram exactly when its first 528 bytes are a valid
  segment and its sequence number is at most \<open>win_size\<close> ahead of the expected one, modulo
  256; the packet then stands for that segment.
\<close>

theorem net_recv_pkt_exact:
  assumes "wf_pkt rbuf" and "e_rx e = Rx src dgram # evs"
  shows "(\<exists>q. net_recv_pkt crc rbuf expected win e = Inr (NET_OK, q, e\<lparr>e_rx := evs\<rparr>) \<and>
            segment_of q = s)
    \<longleftrightarrow> datagram_of crc s (take 528 dgram) \<and> s_seq s - expected \<le> win"
  by (rule net_recv_pkt_iff [OF assms])

definition demo_env :: env where
  "demo_env = \<lparr>e_rx = [Rx [10, 0, 5, 57, 1, 2] (wire_of demo_crc demo_data)], e_wr = [],
     e_connect = 0, e_tx = [], e_peer = None, e_fd = 3, e_closed = []\<rparr>"

lemma demo_env_rx: "e_rx demo_env = [Rx [10, 0, 5, 57, 1, 2] (wire_of demo_crc demo_data)]"
  by (simp add: demo_env_def)

lemma take_demo_wire [simp]: "take 528 (wire_of demo_crc demo_data) = wire_of demo_crc demo_data"
  by (simp add: length_wire_of demo_data_def)

theorem net_recv_pkt_exact_witness:
  "\<exists>q. net_recv_pkt demo_crc pkt_zero 5 31 demo_env = Inr (NET_OK, q, demo_env\<lparr>e_rx := []\<rparr>) \<and>
     segment_of q = demo_data"
proof -
  have "datagram_of demo_crc demo_data (take 528 (wire_of demo_crc demo_data))"
    using demo_valid by (simp add: datagram_of_def)
  moreover have "s_seq demo_data - 5 \<le> 31"
    by (simp add: demo_data_def)
  ultimately show ?thesis
    using net_recv_pkt_exact [OF wf_pkt_zero demo_env_rx] by blast
qed

text \<open>
  C16. Send and receive are inverse: a packet the sender encodes in place and writes to the
  socket in one piece is, when the network delivers that datagram unchanged to a receiver
  whose window covers it, accepted with the same type, sequence number, length, timestamp
  and payload.
\<close>

theorem net_send_recv:
  assumes "sendable p" and "pkt_encode_inline crc p = Inr (st, q)" and "wf_pkt rbuf"
    and "e_wr e = []" and "net_send q e = Inr (st', e1)"
    and "e_rx e2 = Rx src (last (e_tx e1)) # evs" and "p_seq p - expected \<le> win"
  shows "st' = NET_OK \<and> (\<exists>r. net_recv_pkt crc rbuf expected win e2 = Inr (NET_OK, r, e2\<lparr>e_rx := evs\<rparr>) \<and>
    segment_of r = segment_of p)"
proof -
  let ?w = "wire_of crc (segment_of p)"
  have p: "wf_pkt p" "unat (p_length p) \<le> 512"
    using assms(1) by (simp_all add: sendable_def)
  have "q = encoded_pkt crc p"
    using assms(2) p by (simp add: pkt_encode_inline_eq)
  then have "net_send q e = Inr (NET_OK, after_write ?w e)"
    using net_send_encoded [OF p, of e crc] sendable_segment(2) [OF assms(1)] assms(4)
    by (simp add: write_ok_def)
  then have st: "st' = NET_OK" and w: "last (e_tx e1) = ?w"
    using assms(5) by (auto simp: after_write_def)
  have "length ?w \<le> 528"
    using sendable_wire(1) [OF assms(1)] length_datagram by blast
  then have "datagram_of crc (segment_of p) (take 528 (last (e_tx e1)))"
    using sendable_wire(1) [OF assms(1)] w by simp
  moreover have "s_seq (segment_of p) = p_seq p"
    by (simp add: segment_of_def)
  ultimately show ?thesis
    using net_recv_pkt_iff [OF assms(3,6), of crc expected win "segment_of p"] assms(7) st by simp
qed

theorem net_send_recv_witness:
  "\<exists>e1 r. net_send (encoded_pkt demo_crc demo_pkt) demo_env = Inr (NET_OK, e1) \<and>
     net_recv_pkt demo_crc pkt_zero 7 31 (demo_env\<lparr>e_rx := [Rx [] (last (e_tx e1))]\<rparr>) =
       Inr (NET_OK, r, demo_env\<lparr>e_rx := []\<rparr>) \<and> segment_of r = segment_of demo_pkt"
proof -
  let ?e1 = "after_write (wire_of demo_crc (raw_segment_of demo_pkt)) demo_env"
  have s: "sendable demo_pkt"
    by (simp add: sendable_def)
  have enc: "pkt_encode_inline demo_crc demo_pkt = Inr (PKT_OK, encoded_pkt demo_crc demo_pkt)"
    by (simp add: pkt_encode_inline_eq)
  have snd: "net_send (encoded_pkt demo_crc demo_pkt) demo_env = Inr (NET_OK, ?e1)"
    by (rule net_send_encoded) (simp_all add: write_ok_def demo_env_def)
  have "p_seq demo_pkt - 7 \<le> 31" "e_wr demo_env = []"
    by (simp_all add: demo_pkt_def demo_env_def)
  then show ?thesis
    using net_send_recv [OF s enc wf_pkt_zero _ snd,
        where ?e2.0 = "demo_env\<lparr>e_rx := [Rx [] (last (e_tx ?e1))]\<rparr>"] snd
    by auto
qed

section \<open>Waiting for the peer\<close>

text \<open>A datagram that carries a segment with the awaited number, and one that does not.\<close>

definition awaited :: "crc_fun \<Rightarrow> u8 \<Rightarrow> byte list \<Rightarrow> segment \<Rightarrow> bool" where
  "awaited crc ex d seg \<longleftrightarrow> datagram_of crc seg (take 528 d) \<and> s_seq seg = ex"

definition passed_over :: "crc_fun \<Rightarrow> u8 \<Rightarrow> rx_event \<Rightarrow> bool" where
  "passed_over crc ex ev \<longleftrightarrow> (\<exists>src d. ev = Rx src d \<and> (\<forall>seg. \<not> awaited crc ex d seg))"

text \<open>The address and the length variable after some calls of \<open>recvfrom\<close>.\<close>

fun addr_after :: "rx_event list \<Rightarrow> byte list \<times> nat \<Rightarrow> byte list \<times> nat" where
  "addr_after [] a = a"
| "addr_after (Rx_error # evs) a = addr_after evs a"
| "addr_after (Rx src d # evs) a = addr_after evs (the (store_addr src (Some a)))"

definition wait_outcome ::
  "nat \<Rightarrow> crc_fun \<Rightarrow> u8 \<Rightarrow> byte list \<times> nat \<Rightarrow> 'a env_scheme \<Rightarrow> (net_status_t \<times> pkt \<times> 'a env_scheme) res \<Rightarrow> bool" where
  "wait_outcome n crc ex addr e r \<longleftrightarrow>
     (let k = length (takeWhile (passed_over crc ex) (take n (e_rx e))) in
      if k = n then \<exists>q. r = Inr (NET_ERROR, q, e\<lparr>e_rx := drop n (e_rx e)\<rparr>)
      else case drop k (e_rx e) of
          [] \<Rightarrow> r = Inl Blocked
        | Rx_error # evs \<Rightarrow> \<exists>q. r = Inr (NET_ERROR, q, e\<lparr>e_rx := evs\<rparr>)
        | Rx src d # evs \<Rightarrow> \<exists>q. awaited crc ex d (segment_of q) \<and>
            r = Inr (if e_connect e \<noteq> 0 then NET_ERROR else NET_OK, q, e\<lparr>e_rx := evs,
              e_peer := (let (buf, len) = addr_after (take (Suc k) (e_rx e)) addr in Some (take len buf))\<rparr>))"

lemma wait_outcome_skip:
  assumes "e_rx e = ev # evs" and "passed_over crc ex ev"
    and "wait_outcome n crc ex (addr_after [ev] addr) (e\<lparr>e_rx := evs\<rparr>) r"
  shows "wait_outcome (Suc n) crc ex addr e r"
proof -
  obtain src d where ev: "ev = Rx src d"
    using assms(2) by (auto simp: passed_over_def)
  show ?thesis
    using assms unfolding wait_outcome_def Let_def ev
    by (simp cong: if_cong list.case_cong rx_event.case_cong)
qed

lemma wait_loop_outcome:
  "wf_pkt rbuf \<Longrightarrow> wait_outcome n crc ex addr e (wait_loop n crc rbuf ex addr e)"
proof (induction n arbitrary: rbuf addr e)
  case 0
  then show ?case
    by (simp add: wait_outcome_def)
next
  case (Suc n)
  show ?case
  proof (cases "e_rx e")
    case Nil
    then show ?thesis
      by (simp add: wait_outcome_def net_recvfrom_def sys_recv_def)
  next
    case (Cons ev evs)
    show ?thesis
    proof (cases ev)
      case Rx_error
      then show ?thesis
        using Cons by (simp add: wait_outcome_def passed_over_def net_recvfrom_def sys_recv_def)
    next
      case (Rx src d)
      let ?bs = "take 528 d" and ?a = "the (store_addr src (Some addr))"
      obtain st q where q: "pkt_decode_inline crc (store_bytes rbuf 0 ?bs) (of_nat (length ?bs)) = (st, q)"
        by fastforce
      have dec: "st = PKT_OK \<and> segment_of q = s \<longleftrightarrow> datagram_of crc s ?bs" for s
        using decode_datagram [OF Suc.prems, of ?bs crc s] q by auto
      have sq: "s_seq (segment_of q) = p_seq q"
        by (simp add: segment_of_def)
      have wf: "wf_pkt q"
        using decode_inline_wf [OF q] Suc.prems by simp
      have run: "wait_loop (Suc n) crc rbuf ex addr e =
        (if st \<noteq> PKT_OK \<or> p_seq q \<noteq> ex then wait_loop n crc q ex ?a (e\<lparr>e_rx := evs\<rparr>)
         else Inr (if e_connect e \<noteq> 0 then NET_ERROR else NET_OK, q, e\<lparr>e_rx := evs, e_peer := Some (take (snd ?a) (fst ?a))\<rparr>))"
        using q by (simp add: net_recvfrom_Rx [OF Cons [unfolded Rx]] Let_def)
      show ?thesis
      proof (cases "st = PKT_OK \<and> p_seq q = ex")
        case False
        then have "passed_over crc ex ev"
          using dec sq unfolding passed_over_def awaited_def Rx by metis
        then show ?thesis
          using wait_outcome_skip [OF Cons] Suc.IH [OF wf, of ?a "e\<lparr>e_rx := evs\<rparr>"] False run Rx by simp
      next
        case True
        then have "awaited crc ex d (segment_of q)"
          using dec [of "segment_of q"] sq by (simp add: awaited_def)
        moreover from this have "\<not> passed_over crc ex ev"
          unfolding passed_over_def Rx by blast
        ultimately show ?thesis
          using Cons Rx run True by (auto simp: wait_outcome_def case_prod_unfold Let_def simp del: wait_loop.simps)
      qed
    qed
  qed
qed

text \<open>
  C27. What \<open>net_wait_and_connect\<close> does with the next datagrams, exactly. It passes over datagrams
  that are no segment or have another number than the awaited one. After five of them it returns
  an error; with fewer and nothing after them it waits; an error of the socket is returned. The
  first one awaited, and only that, makes it connect, to the address the calls of \<open>recvfrom\<close> have
  left; it succeeds if \<open>connect\<close> does. Nothing but the datagrams read and the peer changes.
\<close>

theorem net_wait_and_connect_exact:
  assumes "wf_pkt rbuf"
  shows "let k = length (takeWhile (passed_over crc ex) (take 5 (e_rx e))); r = net_wait_and_connect crc rbuf ex e in
    if k = 5 then \<exists>q. r = Inr (NET_ERROR, q, e\<lparr>e_rx := drop 5 (e_rx e)\<rparr>)
    else case drop k (e_rx e) of
        [] \<Rightarrow> r = Inl Blocked
      | Rx_error # evs \<Rightarrow> \<exists>q. r = Inr (NET_ERROR, q, e\<lparr>e_rx := evs\<rparr>)
      | Rx src d # evs \<Rightarrow> \<exists>q. awaited crc ex d (segment_of q) \<and>
          r = Inr (if e_connect e \<noteq> 0 then NET_ERROR else NET_OK, q, e\<lparr>e_rx := evs,
            e_peer := (let (buf, len) = addr_after (take (Suc k) (e_rx e)) (replicate 128 0, 4) in Some (take len buf))\<rparr>)"
  using wait_loop_outcome [OF assms, of 5 crc ex "(replicate 128 0, 4)" e]
  unfolding net_wait_and_connect_def MAX_RETRIES_def sockaddr_storage_size_def wait_outcome_def Let_def .

lemma demo_awaited: "\<not> passed_over demo_crc 7 (Rx src (wire_of demo_crc demo_data))"
proof -
  have "datagram_of demo_crc demo_data (wire_of demo_crc demo_data)" "s_seq demo_data = 7"
    using demo_valid by (simp_all add: datagram_of_def demo_data_def)
  then have "awaited demo_crc 7 (wire_of demo_crc demo_data) demo_data"
    by (simp add: awaited_def)
  then show ?thesis
    unfolding passed_over_def by blast
qed

theorem net_wait_and_connect_exact_witness:
  "\<exists>q. awaited demo_crc 7 (wire_of demo_crc demo_data) (segment_of q) \<and>
    net_wait_and_connect demo_crc pkt_zero 7 demo_env =
      Inr (NET_OK, q, demo_env\<lparr>e_rx := [], e_peer := Some [10, 0, 5, 57, 0, 0]\<rparr>)"
  using net_wait_and_connect_exact [OF wf_pkt_zero, of demo_crc 7 demo_env] demo_awaited
  by (simp add: demo_env_def store_addr_def splice_0 eval_nat_numeral)

lemma wait_and_connect_first:
  assumes "e_rx e = Rx src dgram # evs"
    and "pkt_decode_inline crc (store_bytes rbuf 0 (take 528 dgram))
      (of_nat (length (take 528 dgram))) = (PKT_OK, q)"
    and "p_seq q = ex" and "store_addr src (Some (replicate 128 0, 4)) = Some (buf, len)"
  shows "net_wait_and_connect crc rbuf ex e = Inr (if e_connect e \<noteq> 0 then NET_ERROR else NET_OK, q,
      e\<lparr>e_rx := evs, e_peer := Some (take len buf)\<rparr>)"
proof -
  have "net_wait_and_connect crc rbuf ex e = wait_loop (Suc 4) crc rbuf ex (replicate 128 0, 4) e"
    unfolding net_wait_and_connect_def MAX_RETRIES_def sockaddr_storage_size_def Let_def
    by (simp only: eval_nat_numeral)
  also have "\<dots> = Inr (if e_connect e \<noteq> 0 then NET_ERROR else NET_OK, q,
      e\<lparr>e_rx := evs, e_peer := Some (take len buf)\<rparr>)"
    using assms(2-)
    by (simp only: wait_loop.simps net_recvfrom_Rx [OF assms(1)]) (simp add: Let_def)
  finally show ?thesis .
qed

text \<open>
  C28. When the first datagram is the awaited one, the socket is connected to an address of
  which only the first four bytes are those of the sender: \<open>addr_len\<close> starts as the size of
  the length variable, so \<open>recvfrom\<close> stores four bytes of the address and the rest stays 0.
\<close>

theorem first_peer_address_truncated:
  assumes "wf_pkt rbuf" and "e_rx e = Rx src dgram # evs" and "datagram_of crc s (take 528 dgram)"
    and "s_seq s = ex" and "4 \<le> length src" and "length src \<le> 128"
  shows "\<exists>st q e'. net_wait_and_connect crc rbuf ex e = Inr (st, q, e') \<and>
    e_peer e' = Some (take 4 src @ replicate (length src - 4) 0)"
proof -
  let ?bs = "take 528 dgram"
  obtain q where d: "pkt_decode_inline crc (store_bytes rbuf 0 ?bs) (of_nat (length ?bs)) = (PKT_OK, q)"
    "segment_of q = s"
    using decode_datagram [OF assms(1), of ?bs crc s] assms(3) by auto
  have q: "p_seq q = ex"
    using d(2) assms(4) by (auto simp: segment_of_def)
  have a: "store_addr src (Some (replicate 128 0, 4)) =
      Some (take 4 src @ replicate 124 0, length src)"
    using assms(5) by (simp add: store_addr_def splice_0 min_def)
  have "take (length src) (take 4 src @ replicate 124 (0 :: byte)) =
      take 4 src @ replicate (length src - 4) 0"
    using assms(5,6) by (auto simp: min_def)
  then show ?thesis
    using wait_and_connect_first [OF assms(2) d(1) q a] by auto
qed

theorem first_peer_address_truncated_witness:
  "\<exists>st q e'. net_wait_and_connect demo_crc pkt_zero 7 demo_env = Inr (st, q, e') \<and>
    e_peer e' = Some (take 4 [10, 0, 5, 57, 1, 2] @ replicate (length [10, 0, 5, 57, 1, 2 :: byte] - 4) 0)"
proof (rule first_peer_address_truncated [OF wf_pkt_zero demo_env_rx, where s = demo_data])
  show "datagram_of demo_crc demo_data (take 528 (wire_of demo_crc demo_data))"
    using demo_valid by (simp add: datagram_of_def)
  show "s_seq demo_data = 7"
    by (simp add: demo_data_def)
qed simp_all

section \<open>Opening the socket\<close>

text \<open>The descriptors \<open>socket\<close> returned for a list of addresses, up to the one kept.\<close>

fun opened :: "addr_try list \<Rightarrow> int list" where
  "opened [] = []"
| "opened (a # addrs) =
    (if t_socket a = -1 then opened addrs
     else if t_reuse a = 0 \<and> t_v6only a = 0 \<and> t_test a \<noteq> -1 then [t_socket a]
     else t_socket a # opened addrs)"

lemma try_addrs_closed:
  "case try_addrs addrs cl of
     (None, cl') \<Rightarrow> cl' = cl @ opened addrs
   | (Some fd, cl') \<Rightarrow> cl' @ [fd] = cl @ opened addrs"
  by (induction addrs cl rule: try_addrs.induct) (auto simp: Let_def split: option.splits prod.splits)

text \<open>
  No descriptor leaks: after \<open>net_open_socket\<close> and \<open>net_close_socket\<close> every socket the
  search opened has been closed exactly once, in the order of opening, whichever of the calls
  for each address fail.
\<close>

theorem open_close_no_leak:
  assumes "net_open_socket (0, addrs) e = (st, e1)" and "e_fd e < 0" and "list_all (\<lambda>a. t_socket a \<ge> -1) addrs"
  shows "e_closed (net_close_socket e1) = e_closed e @ opened addrs"
proof -
  have "fst (try_addrs addrs cl) = Some fd \<Longrightarrow> fd \<ge> 0" for fd cl
    using assms(3) by (induction addrs cl rule: try_addrs.induct) (auto simp: Let_def split: if_splits)
  then show ?thesis
    using assms(1,2) try_addrs_closed [where addrs = addrs and cl = "e_closed e"]
    by (auto simp: net_open_socket_def net_close_socket_def split: prod.splits option.splits)
      (metis fst_conv)
qed

theorem open_close_no_leak_witness:
  "e_closed (net_close_socket (snd (net_open_socket
      (0, [\<lparr>t_socket = 5, t_reuse = 0, t_v6only = 1, t_test = 0\<rparr>,
           \<lparr>t_socket = 6, t_reuse = 0, t_v6only = 0, t_test = 0\<rparr>]) (demo_env\<lparr>e_fd := -1\<rparr>))))
    = e_closed (demo_env\<lparr>e_fd := -1\<rparr>) @ opened
        [\<lparr>t_socket = 5, t_reuse = 0, t_v6only = 1, t_test = 0\<rparr>,
         \<lparr>t_socket = 6, t_reuse = 0, t_v6only = 0, t_test = 0\<rparr>]"
  by (rule open_close_no_leak [OF prod.collapse [symmetric]]) simp_all

end
