(* ===== verification/Receiver_Steps.thy ===== *)
theory Receiver_Steps
  imports Receiver_Window Net_Props
begin

text \<open>
  What the receiver does with one datagram while nothing waits to be written (the first slot
  is not in use yet): every branch of \<open>process_incoming_pkt\<close> and of \<open>do_receive_data\<close>, as
  equations on the invariant and on the segments stored.
\<close>

unbundle bit_operations_syntax

section \<open>Writing to slots\<close>

lemma put_slot_fields [simp]:
  "r_oos_mask (put_slot s i p) = r_oos_mask s" "r_expected_seq (put_slot s i p) = r_expected_seq s"
  "r_max_window (put_slot s i p) = r_max_window s" "r_need_nack (put_slot s i p) = r_need_nack s"
  "used (r_buf (put_slot s i p)) = used (r_buf s)" "cap (r_buf (put_slot s i p)) = cap (r_buf s)"
  "slot_index (r_buf (put_slot s i p)) = slot_index (r_buf s)"
  by (simp_all add: put_slot_def)

lemma put_slot_again [simp]: "put_slot (put_slot s i p) i q = put_slot s i q"
  by (simp add: put_slot_def set_slot_def)

lemma put_slot_commute:
  "put_slot (s\<lparr>r_last_ts := a\<rparr>) i p = (put_slot s i p)\<lparr>r_last_ts := a\<rparr>"
  "put_slot (s\<lparr>r_oos_mask := b\<rparr>) i p = (put_slot s i p)\<lparr>r_oos_mask := b\<rparr>"
  "put_slot (s\<lparr>r_need_nack := c\<rparr>) i p = (put_slot s i p)\<lparr>r_need_nack := c\<rparr>"
  "put_slot (s\<lparr>r_nack_seq := d\<rparr>) i p = (put_slot s i p)\<lparr>r_nack_seq := d\<rparr>"
  by (simp_all add: put_slot_def)

text \<open>The receiver with a slot in use for the expected packet, which is not there yet.\<close>

definition waiting :: "receiver \<Rightarrow> bool" where
  "waiting s \<longleftrightarrow> synced s \<and> \<not> bit (r_oos_mask s) 0 \<and> 0 < used (r_buf s)"

lemma waitingD:
  assumes "waiting s"
  shows "synced s" "\<not> bit (r_oos_mask s) 0" "0 < used (r_buf s)" "ones (r_oos_mask s) = 0"
    "seq_from (r_expected_seq s) (items (r_buf s))" "wf_buf (r_buf s)" "cap (r_buf s) = 32"
  using assms syncedD(1,2,4) [of s] ones_0_iff [of "r_oos_mask s"] by (auto simp: waiting_def)

lemma buf_slot_put:
  "waiting s \<Longrightarrow> buf_slot (put_slot s (slot_index (r_buf s) j) q) (slot_index (r_buf s) j) = q"
  using slot_index_less [OF waitingD(6), of s j] wf_bufD(1) [OF waitingD(6)]
  by (simp add: buf_slot_def put_slot_def slot_set_slot)

lemma items_put:
  "waiting s \<Longrightarrow> j < used (r_buf s) \<Longrightarrow>
    items (r_buf (put_slot s (slot_index (r_buf s) j) q)) = (items (r_buf s))[j := q]"
  using items_set_slot [OF waitingD(6), of s j q] by (simp add: put_slot_def)

lemma wf_put: "waiting s \<Longrightarrow> wf_pkt q \<Longrightarrow> wf_buf (r_buf (put_slot s i q))"
  using waitingD(6) by (simp add: put_slot_def)

lemma used_le: "waiting s \<Longrightarrow> used (r_buf s) \<le> 32"
  using wf_bufD(3) [OF waitingD(6)] waitingD(7) by simp

text \<open>A slot is reserved for the expected packet, unless there is one already.\<close>

lemma reserve_expected:
  assumes "synced s" and "\<not> bit (r_oos_mask s) 0"
  shows "\<exists>b. pktbuf_slotfor_seq (r_buf s) (r_expected_seq s) = Inr (slot_index b 0, b) \<and>
    waiting (s\<lparr>r_buf := b\<rparr>) \<and> marked (s\<lparr>r_buf := b\<rparr>) = marked s \<and>
    used b = max (used (r_buf s)) 1"
proof -
  let ?b = "r_buf s" and ?e = "r_expected_seq s"
  have o: "ones (r_oos_mask s) = 0"
    using assms(2) ones_0_iff by blast
  have sq: "seq_from ?e (items ?b)"
    using syncedD(4) [OF assms(1)] o by simp
  note wf = syncedD(1,2) [OF assms(1)]
  show ?thesis
  proof (cases "used ?b = 0")
    case True
    then obtain b where b: "pktbuf_slotfor_seq ?b ?e = Inr (slot_index ?b 0, b)" "wf_buf b"
      "items b = [(slot ?b (slot_index ?b 0))\<lparr>p_seq := ?e\<rparr>]" "used b = 1" "cap b = cap ?b"
      "slot_index b = slot_index ?b"
      using slotfor_seq_empty [OF wf(1)] by blast
    have none: "\<not> bit (r_oos_mask s) j" for j
      using syncedD(5) [OF assms(1), of j] True by auto
    then have "waiting (s\<lparr>r_buf := b\<rparr>)"
      using b wf o syncedD(3) [OF assms(1)] by (simp add: waiting_def synced_def seq_from_Cons)
    then show ?thesis
      using b none True by (intro exI [of _ b]) (simp add: marked_def fun_eq_iff)
  next
    case False
    have "unat (?e - ?e) < cap ?b"
      using wf(2) by simp
    then obtain b where b: "pktbuf_slotfor_seq ?b ?e = Inr (slot_index ?b 0, b)" "wf_buf b"
      "used b = max (used ?b) 1" "seq_from ?e (items b)" "take (used ?b) (items b) = items ?b"
      "cap b = cap ?b" "slot_index b = slot_index ?b"
      using slotfor_seq_ok [OF wf(1) sq False, of ?e] by auto
    have u: "used b = used ?b"
      using b(3) False by simp
    then have i: "items b = items ?b"
      using b(5) by (metis length_items order_refl take_all)
    have "waiting (s\<lparr>r_buf := b\<rparr>)"
      using b u i False assms o syncedD [OF assms(1)] by (simp add: waiting_def synced_def)
    then show ?thesis
      using b i by (intro exI [of _ b]) (simp add: marked_def fun_eq_iff)
  qed
qed

text \<open>A packet is put into the slot for the expected one, but is not counted.\<close>

lemma restored:
  assumes "waiting s" and "wf_pkt q" and "p_seq q = r_expected_seq s"
  shows "waiting (put_slot s (slot_index (r_buf s) 0) q)"
    and "marked (put_slot s (slot_index (r_buf s) 0) q) = marked s"
proof -
  note w = waitingD [OF assms(1)]
  have nz: "bit (r_oos_mask s) j \<Longrightarrow> j \<noteq> 0" for j
    using w(2) by (cases j) auto
  show "waiting (put_slot s (slot_index (r_buf s) 0) q)"
    using w assms wf_put [OF assms(1,2)] syncedD(3,5,6) [OF w(1)] nz
    by (auto simp: waiting_def synced_def items_put [OF assms(1) w(3)] seq_from_update nth_list_update)
  show "marked (put_slot s (slot_index (r_buf s) 0) q) = marked s"
    using nz by (auto simp: marked_def items_put [OF assms(1) w(3)] fun_eq_iff)
qed

section \<open>Processing a packet\<close>

text \<open>What receiving a datagram may change.\<close>

definition in_frame :: "receiver \<Rightarrow> rx_event list \<Rightarrow> receiver \<Rightarrow> bool" where
  "in_frame s evs s' \<longleftrightarrow>
     s' = s\<lparr>e_rx := evs, r_buf := r_buf s', r_oos_mask := r_oos_mask s',
       r_expected_seq := r_expected_seq s', r_last_ts := r_last_ts s',
       r_need_nack := r_need_nack s', r_nack_seq := r_nack_seq s'\<rparr>"

lemma in_frame_rx [simp]: "in_frame (s\<lparr>r_buf := b, e_rx := evs\<rparr>) evs s' = in_frame s evs s'"
  by (simp add: in_frame_def)

lemma process_truncated:
  assumes "waiting s" and "p_tr q \<noteq> 0"
  shows "process_incoming_pkt (slot_index (r_buf s) 0) (put_slot s (slot_index (r_buf s) 0) q) =
    Inr (0, (put_slot s (slot_index (r_buf s) 0) (q\<lparr>p_seq := r_expected_seq s\<rparr>))
      \<lparr>r_last_ts := p_ts q, r_need_nack := True, r_nack_seq := p_seq q\<rparr>)"
proof -
  have g: "0 < p_seq q - r_expected_seq s \<longleftrightarrow> p_seq q \<noteq> r_expected_seq s"
    by (simp add: word_gt_0)
  have "\<not> 0 < p_seq q - r_expected_seq s \<Longrightarrow> q\<lparr>p_seq := r_expected_seq s\<rparr> = q"
    by (simp add: g)
  then show ?thesis
    using waitingD(2) [OF assms(1)] assms(2) buf_slot_put [OF assms(1), of 0 q]
    by (auto simp: process_incoming_pkt_def and_1_bit Let_def buf_slot_def put_slot_def set_slot_def)
qed

lemma process_in_sequence:
  assumes "waiting s" and "wf_pkt q" and "whole_pkt q" and "p_seq q = r_expected_seq s"
  shows "\<exists>s'. process_incoming_pkt (slot_index (r_buf s) 0) (put_slot s (slot_index (r_buf s) 0) q) =
      Inr (0, s') \<and> synced s' \<and> marked s' = (marked s)(0 \<mapsto> segment_of q) \<and>
    bit (r_oos_mask s') 0 \<and> r_expected_seq s' = r_expected_seq s + of_nat (ones (r_oos_mask s')) \<and>
    r_last_ts s' = p_ts q \<and> r_need_nack s' = r_need_nack s \<and> in_frame s (e_rx s) s' \<and>
    used (r_buf s') = used (r_buf s)"
proof -
  let ?i = "slot_index (r_buf s) 0" and ?m = "r_oos_mask s OR 1"
  note w = waitingD [OF assms(1)]
  let ?s = "(put_slot s ?i q)\<lparr>r_last_ts := p_ts q, r_oos_mask := ?m,
    r_expected_seq := r_expected_seq s + of_nat (ones ?m)\<rparr>"
  have m: "bit ?m j \<longleftrightarrow> bit (r_oos_mask s) j \<or> j = 0" for j
    using bit_or_exp [of 0 "r_oos_mask s" j] by simp
  have "ucast (r_max_window s - (r_max_window s - of_nat (ones ?m))) = (of_nat (ones ?m) :: u8)"
    using ones_le [of ?m] by (simp add: word_unat_eq_iff unat_ucast_down_u8 unat_of_nat)
  then have "process_incoming_pkt ?i (put_slot s ?i q) = Inr (0, ?s)"
    using w(2) assms(3,4) buf_slot_put [OF assms(1), of 0 q]
    by (simp add: process_incoming_pkt_def and_1_bit Let_def buf_slot_def put_slot_def set_slot_def
        window_size_eq whole_pkt_def)
  moreover have "items (r_buf ?s) = (items (r_buf s))[0 := q]"
    using items_put [OF assms(1) w(3)] by simp
  then have i: "items (r_buf ?s) ! j = (if j = 0 then q else items (r_buf s) ! j)" for j
    using w(3) by (simp add: nth_list_update)
  moreover have "seq_from (r_expected_seq s) (items (r_buf ?s))"
    using items_put [OF assms(1) w(3)] w(5) assms(4) by (simp add: seq_from_update)
  then have "synced ?s"
    using w(3,7) i syncedD(3,5,6) [OF w(1)] assms(3) wf_put [OF assms(1,2)]
    by (auto simp: synced_def m)
  moreover have "marked ?s = (marked s)(0 \<mapsto> segment_of q)"
    using i by (auto simp: marked_def fun_eq_iff m)
  ultimately show ?thesis
    by (intro exI [of _ ?s]) (simp add: m put_slot_def in_frame_def)
qed

lemma process_out_of_sequence:
  assumes "waiting s" and "wf_pkt q" and "whole_pkt q" and "p_seq q \<noteq> r_expected_seq s"
    and "unat (p_seq q - r_expected_seq s) < 32"
  shows "\<exists>s'. process_incoming_pkt (slot_index (r_buf s) 0) (put_slot s (slot_index (r_buf s) 0) q) =
      Inr (0, s') \<and> synced s' \<and>
    marked s' = (marked s)(unat (p_seq q - r_expected_seq s) \<mapsto> segment_of q) \<and>
    \<not> bit (r_oos_mask s') 0 \<and>
    r_expected_seq s' = r_expected_seq s \<and> r_last_ts s' = p_ts q \<and>
    r_need_nack s' = r_need_nack s \<and> in_frame s (e_rx s) s'"
proof -
  let ?i = "slot_index (r_buf s) 0" and ?e = "r_expected_seq s"
  let ?g = "unat (p_seq q - ?e)"
  let ?m = "r_oos_mask s OR 2 ^ ?g" and ?q = "q\<lparr>p_seq := ?e\<rparr>"
  let ?s = "put_slot s ?i ?q"
  note w = waitingD [OF assms(1)]
  have g: "0 < p_seq q - ?e" "?g \<noteq> 0"
    using assms(4) by (simp_all add: word_gt_0 unsigned_eq_0_iff)
  have r: "waiting ?s" "marked ?s = marked s"
    using restored [OF assms(1), of ?q] assms(2) by simp_all
  note w' = waitingD [OF r(1)]
  obtain b where b: "pktbuf_slotfor_seq (r_buf ?s) (p_seq q) = Inr (slot_index (r_buf ?s) ?g, b)"
    "wf_buf b" "used b = max (used (r_buf ?s)) (Suc ?g)" "seq_from ?e (items b)"
    "take (used (r_buf ?s)) (items b) = items (r_buf ?s)" "cap b = cap (r_buf ?s)"
    "slot_index b = slot_index (r_buf ?s)"
    using slotfor_seq_ok [of "r_buf ?s" ?e "p_seq q"] w'(3,5,6,7) assms(5) by auto
  let ?s' = "s\<lparr>r_buf := set_slot b (slot_index b ?g) q, r_oos_mask := ?m, r_last_ts := p_ts q\<rparr>"
  have m: "bit ?m j \<longleftrightarrow> bit (r_oos_mask s) j \<or> j = ?g" for j
    using bit_or_exp [OF assms(5), of "r_oos_mask s" j] by simp
  have old: "items b ! j = items (r_buf ?s) ! j" if "j < used (r_buf s)" for j
    using that b(5) by (metis nth_take put_slot_fields(5))
  have first: "slot b ?i = ?q"
  proof -
    have "items b ! 0 = items (r_buf ?s) ! 0"
      using old w(3) by simp
    also have "\<dots> = ?q"
      using items_put [OF assms(1) w(3)] w(3) by simp
    finally show ?thesis
      using b(3,7) w(3) by (simp add: nth_items)
  qed
  have len: "slot_index b ?g < length (b_head b)"
    using slot_index_less [OF b(2)] wf_bufD(1) [OF b(2)] by simp
  have idx: "?g < used b"
    using b(3) by simp
  have set2: "set_slot (set_slot b (slot_index b ?g) ?q) (slot_index b ?g) q =
      set_slot b (slot_index b ?g) q"
    by (simp add: set_slot_def)
  have run: "process_incoming_pkt ?i (put_slot s ?i q) = Inr (0, ?s')"
    using w(2) g assms(3,5) buf_slot_put [OF assms(1), of 0 q] b(1,7) first len set2
    by (simp add: process_incoming_pkt_def and_1_bit Let_def buf_slot_def put_slot_def
        whole_pkt_def slot_set_slot) (simp add: set_slot_def slot_def)
  have it: "items (set_slot b (slot_index b ?g) q) = (items b)[?g := q]"
    using items_set_slot [OF b(2) idx] .
  moreover have "seq_from ?e ((items b)[?g := q])"
    using b(4) by (rule seq_from_update) simp
  moreover have o: "ones ?m = 0"
    using g(2) w(2) by (simp only: ones_0_iff m) simp
  moreover have keep: "(items b)[?g := q] ! j = (if j = ?g then q else items (r_buf s) ! j)"
    if "bit ?m j" for j
    using that m old [of j] idx syncedD(5) [OF w(1), of j] w(2) items_put [OF assms(1) w(3), of ?q]
    by (cases "j = ?g"; cases j) auto
  moreover have used': "j < used b" if "bit ?m j" for j
    using that m idx b(3) syncedD(5) [OF w(1), of j] by fastforce
  moreover have "whole_pkt ((items b)[?g := q] ! j)" if "bit ?m j" for j
    using keep [OF that] that m assms(3) syncedD(6) [OF w(1), of j] by auto
  ultimately have "synced ?s'"
    using b(2,6) w(7) assms(2) syncedD(3) [OF w(1)] by (simp add: synced_def it)
  moreover have "marked ?s' = (marked s)(?g \<mapsto> segment_of q)"
  proof
    show "marked ?s' j = ((marked s)(?g \<mapsto> segment_of q)) j" for j
      using keep [of j] by (auto simp: marked_def it m)
  qed
  ultimately show ?thesis
    using run o by (intro exI [of _ ?s']) (simp add: ones_0_iff in_frame_def)
qed

end
