(* ===== verification/Receiver_Spec.thy ===== *)
theory Receiver_Spec
  imports Receiver_Steps
begin

text \<open>
  A selective-repeat receiver without buffers and bit masks, as the specification of
  \<open>receiver/receive.c\<close>: the segments received ahead of the next one are a map from distances
  to segments. One round of the code on a datagram is one step of it.
\<close>

unbundle bit_operations_syntax

section \<open>The specification\<close>

record areceiver =
  a_window :: u32
  a_next :: u8                          \<comment> \<open>the sequence number of the next segment\<close>
  a_store :: "nat \<Rightarrow> segment option"   \<comment> \<open>segments received, by distance from the next\<close>
  a_ts :: u32
  a_out :: "byte list"
  a_last :: int                         \<comment> \<open>size of the last chunk written\<close>

definition a_full :: "areceiver \<Rightarrow> bool" where
  "a_full a \<longleftrightarrow> a_window a \<le> of_nat (length (filter (\<lambda>j. a_store a j \<noteq> None) [0..<32]))"

definition a_accepts :: "areceiver \<Rightarrow> segment \<Rightarrow> bool" where
  "a_accepts a seg \<longleftrightarrow>
     \<not> a_full a \<and> s_seq seg - a_next a \<le> ucast (a_window a) \<and> s_type seg = ucast PTYPE_DATA"

text \<open>Segments in sequence are written out, at most \<open>n\<close> of them.\<close>

fun a_deliver :: "nat \<Rightarrow> areceiver \<Rightarrow> areceiver" where
  "a_deliver 0 a = a"
| "a_deliver (Suc n) a =
    (case a_store a 0 of
       None \<Rightarrow> a
     | Some seg \<Rightarrow> a_deliver n (a\<lparr>a_next := a_next a + 1, a_store := \<lambda>j. a_store a (Suc j),
         a_out := a_out a @ s_data seg, a_last := int (length (s_data seg))\<rparr>))"

definition a_step :: "segment \<Rightarrow> areceiver \<Rightarrow> areceiver" where
  "a_step seg a =
    (if \<not> a_accepts a seg then a
     else let gap = unat (s_seq seg - a_next a);
              a = a\<lparr>a_ts := s_ts seg\<rparr> in
          if s_tr seg \<noteq> 0 then a
          else a_deliver 32 (a\<lparr>a_store := (a_store a)(gap \<mapsto> seg)\<rparr>))"

text \<open>The answer: a NACK for a truncated segment, otherwise an ACK of the next one.\<close>

definition answer :: "2 word \<Rightarrow> u8 \<Rightarrow> u32 \<Rightarrow> u32 \<Rightarrow> segment" where
  "answer ty seq ts win = \<lparr>s_type = ty, s_tr = 0, s_window = ucast win, s_seq = seq,
     s_length = 0, s_ts = ts, s_data = []\<rparr>"

text \<open>
  A datagram carries at most one segment; one that carries none is answered like a
  segment outside the window.
\<close>

definition carries :: "crc_fun \<Rightarrow> byte list \<Rightarrow> segment option \<Rightarrow> bool" where
  "carries crc d cs \<longleftrightarrow>
     (case cs of Some seg \<Rightarrow> datagram_of crc seg (take 528 d)
      | None \<Rightarrow> \<forall>seg. \<not> datagram_of crc seg (take 528 d))"

definition a_event :: "segment option \<Rightarrow> areceiver \<Rightarrow> areceiver" where
  "a_event cs a = (case cs of None \<Rightarrow> a | Some seg \<Rightarrow> a_step seg a)"

definition a_truncated :: "segment option \<Rightarrow> areceiver \<Rightarrow> bool" where
  "a_truncated cs a \<longleftrightarrow> (case cs of None \<Rightarrow> False | Some seg \<Rightarrow> a_accepts a seg \<and> s_tr seg \<noteq> 0)"

definition a_answer :: "segment option \<Rightarrow> areceiver \<Rightarrow> segment" where
  "a_answer cs a =
    (let a' = a_event cs a in
     if a_truncated cs a then answer 3 (s_seq (the cs)) (a_ts a') (a_window a')
     else answer 2 (a_next a') (a_ts a') (a_window a'))"

text \<open>A segment that is written out at once: it is the next one, and whole.\<close>

definition a_in_sequence :: "segment option \<Rightarrow> areceiver \<Rightarrow> bool" where
  "a_in_sequence cs a \<longleftrightarrow>
     (\<exists>seg. cs = Some seg \<and> a_accepts a seg \<and> s_tr seg = 0 \<and> s_seq seg = a_next a)"

definition abs_receiver :: "receiver \<Rightarrow> areceiver" where
  "abs_receiver s = \<lparr>a_window = r_max_window s, a_next = r_expected_seq s, a_store = marked s,
     a_ts = r_last_ts s, a_out = r_out s, a_last = r_last_written_len s\<rparr>"

lemma abs_receiver_sel [simp]:
  "a_window (abs_receiver s) = r_max_window s" "a_next (abs_receiver s) = r_expected_seq s"
  "a_store (abs_receiver s) = marked s" "a_ts (abs_receiver s) = r_last_ts s"
  "a_out (abs_receiver s) = r_out s" "a_last (abs_receiver s) = r_last_written_len s"
  by (simp_all add: abs_receiver_def)

lemma full_abs: "a_full (abs_receiver s) \<longleftrightarrow> rbuf_full s"
proof -
  have "(\<lambda>j. marked s j \<noteq> None) = bit (r_oos_mask s)"
    by (auto simp: marked_def)
  then show ?thesis
    by (simp only: a_full_def rbuf_full_def popcount_def abs_receiver_sel)
qed

section \<open>Receiving one datagram\<close>

definition idle :: "receiver \<Rightarrow> bool" where
  "idle s \<longleftrightarrow> synced s \<and> \<not> bit (r_oos_mask s) 0"

lemma idle_window: "idle s \<Longrightarrow> window_size s = r_max_window s"
  using ones_0_iff [of "r_oos_mask s"] by (simp add: idle_def window_size_eq)

text \<open>
  \<open>do_receive_data\<close> up to the decision: a slot is reserved (the buffer is then \<open>b\<close>), the
  datagram is decoded into it (the packet is then \<open>q\<close>, with status \<open>st\<close>).
\<close>

definition started :: "crc_fun \<Rightarrow> receiver \<Rightarrow> byte list \<Rightarrow> rx_event list
    \<Rightarrow> pktbuf \<Rightarrow> pkt_status_code \<Rightarrow> pkt \<Rightarrow> bool" where
  "started crc s d evs b st q \<longleftrightarrow>
     waiting (s\<lparr>r_buf := b\<rparr>) \<and> marked (s\<lparr>r_buf := b\<rparr>) = marked s \<and> wf_pkt q \<and>
     used b = max (used (r_buf s)) 1 \<and>
     (\<forall>seg. st = PKT_OK \<and> segment_of q = seg \<longleftrightarrow> datagram_of crc seg (take 528 d)) \<and>
     do_receive_data crc s =
       (let s1 = s\<lparr>r_buf := b, e_rx := evs\<rparr>; i = slot_index b 0 in
        if st \<noteq> PKT_OK \<or> ucast (r_max_window s) < p_seq q - r_expected_seq s \<or> p_type q \<noteq> 1
        then Inr (0, put_slot s1 i (q\<lparr>p_seq := r_expected_seq s\<rparr>))
        else process_incoming_pkt i (put_slot s1 i q))"

lemma startedD:
  assumes "started crc s d evs b st q"
  shows "waiting (s\<lparr>r_buf := b\<rparr>)" "marked (s\<lparr>r_buf := b\<rparr>) = marked s" "wf_pkt q"
    "\<forall>seg. st = PKT_OK \<and> segment_of q = seg \<longleftrightarrow> datagram_of crc seg (take 528 d)"
    "do_receive_data crc s =
      (let s1 = s\<lparr>r_buf := b, e_rx := evs\<rparr>; i = slot_index b 0 in
       if st \<noteq> PKT_OK \<or> ucast (r_max_window s) < p_seq q - r_expected_seq s \<or> p_type q \<noteq> 1
       then Inr (0, put_slot s1 i (q\<lparr>p_seq := r_expected_seq s\<rparr>))
       else process_incoming_pkt i (put_slot s1 i q))"
    "used b = max (used (r_buf s)) 1"
  using assms unfolding started_def by blast+

lemma do_receive_start:
  assumes "idle s" and "e_rx s = Rx src d # evs"
  shows "\<exists>b st q. started crc s d evs b st q"
proof -
  obtain b where b: "pktbuf_slotfor_seq (r_buf s) (r_expected_seq s) = Inr (slot_index b 0, b)"
    "waiting (s\<lparr>r_buf := b\<rparr>)" "marked (s\<lparr>r_buf := b\<rparr>) = marked s" "used b = max (used (r_buf s)) 1"
    using reserve_expected [of s] assms(1) by (auto simp: idle_def)
  let ?s = "s\<lparr>r_buf := b\<rparr>" and ?i = "slot_index b 0" and ?bs = "take 528 d"
  have wf: "wf_pkt (buf_slot ?s ?i)"
    using waitingD(6) [OF b(2)] wf_slot [OF _ slot_index_less] by (simp add: buf_slot_def)
  obtain st q where d: "pkt_decode_inline crc (store_bytes (buf_slot ?s ?i) 0 ?bs)
      (of_nat (length ?bs)) = (st, q)"
    by fastforce
  have q: "wf_pkt q"
    using decode_inline_wf [OF d] store_bytes_0(1) [OF wf, of ?bs] by simp
  have "st = PKT_OK \<and> segment_of q = seg \<longleftrightarrow> datagram_of crc seg ?bs" for seg
    using decode_datagram [OF wf, of ?bs crc seg] d by auto
  moreover have "net_recvfrom crc (buf_slot ?s ?i) None ?s =
      Inr (if st \<noteq> PKT_OK then NET_DROP else NET_OK, q, None, ?s\<lparr>e_rx := evs\<rparr>)"
    using net_recvfrom_Rx [of ?s src d evs crc "buf_slot ?s ?i" None] assms(2) d
    by (simp add: store_addr_def)
  then have "do_receive_data crc s =
      (let s1 = s\<lparr>r_buf := b, e_rx := evs\<rparr> in
       if st \<noteq> PKT_OK \<or> ucast (r_max_window s) < p_seq q - r_expected_seq s \<or> p_type q \<noteq> 1
       then Inr (0, put_slot s1 ?i (q\<lparr>p_seq := r_expected_seq s\<rparr>))
       else process_incoming_pkt ?i (put_slot s1 ?i q))"
    using b(1) idle_window [OF assms(1)]
    by (simp add: do_receive_data_def net_recv_pkt_def Let_def)
  ultimately show ?thesis
    using b q by (intro exI [of _ b] exI [of _ st] exI [of _ q]) (simp add: started_def Let_def)
qed

text \<open>The three outcomes of a datagram, in terms of the segment it carries, if any.\<close>

lemma waiting_rx [simp]: "waiting (s\<lparr>e_rx := evs\<rparr>) = waiting s"
  by (simp add: waiting_def)

lemma marked_rx [simp]: "marked (s\<lparr>e_rx := evs\<rparr>) = marked s"
  by (simp add: marked_def fun_eq_iff)

lemma do_receive_rejected:
  assumes "idle s" and "e_rx s = Rx src d # evs"
    and "\<forall>seg. datagram_of crc seg (take 528 d) \<longrightarrow>
      \<not> (s_seq seg - r_expected_seq s \<le> ucast (r_max_window s) \<and> s_type seg = 1)"
  shows "\<exists>s'. do_receive_data crc s = Inr (0, s') \<and> idle s' \<and> in_frame s evs s' \<and>
    abs_receiver s' = abs_receiver s \<and> r_need_nack s' = r_need_nack s"
proof -
  obtain b st q where "started crc s d evs b st q"
    using do_receive_start [OF assms(1,2)] by blast
  note b = startedD [OF this]
  let ?s1 = "s\<lparr>r_buf := b, e_rx := evs\<rparr>" and ?q = "q\<lparr>p_seq := r_expected_seq s\<rparr>"
  let ?s' = "put_slot ?s1 (slot_index b 0) ?q"
  have "s_seq (segment_of q) = p_seq q" "s_type (segment_of q) = p_type q"
    by (simp_all add: segment_of_def)
  then have "st \<noteq> PKT_OK \<or> ucast (r_max_window s) < p_seq q - r_expected_seq s \<or> p_type q \<noteq> 1"
    using b(4) assms(3) by (metis not_less)
  then have run: "do_receive_data crc s = Inr (0, ?s')"
    using b(5) by (simp add: Let_def)
  have w: "waiting ?s1" "wf_pkt ?q" "p_seq ?q = r_expected_seq ?s1"
    using b(1,3) by (simp_all add: waiting_def)
  note r = restored [OF w]
  have "marked ?s1 = marked (s\<lparr>r_buf := b\<rparr>)"
    by (simp add: marked_def fun_eq_iff)
  then have "marked ?s' = marked s"
    using r(2) b(2) by simp
  then have "abs_receiver ?s' = abs_receiver s"
    by (simp add: abs_receiver_def) (simp add: put_slot_def)
  moreover have "idle ?s'"
    using r(1) by (simp add: idle_def waiting_def)
  moreover have "in_frame s evs ?s'"
    by (simp add: in_frame_def put_slot_def)
  ultimately show ?thesis
    using run by (intro exI [of _ ?s']) simp
qed

lemma do_receive_truncated:
  assumes "idle s" and "e_rx s = Rx src d # evs" and "datagram_of crc seg (take 528 d)"
    and "s_seq seg - r_expected_seq s \<le> ucast (r_max_window s)" and "s_type seg = 1"
    and "s_tr seg \<noteq> 0"
  shows "\<exists>s'. do_receive_data crc s = Inr (0, s') \<and> idle s' \<and> in_frame s evs s' \<and>
    abs_receiver s' = (abs_receiver s)\<lparr>a_ts := s_ts seg\<rparr> \<and>
    r_need_nack s' \<and> r_nack_seq s' = s_seq seg"
proof -
  obtain b st q where "started crc s d evs b st q"
    using do_receive_start [OF assms(1,2)] by blast
  note b = startedD [OF this]
  have q: "st = PKT_OK" "segment_of q = seg"
    using b(4) assms(3) by blast+
  then have f: "p_seq q = s_seq seg" "p_type q = s_type seg" "p_tr q = s_tr seg" "p_ts q = s_ts seg"
    by (auto simp: segment_of_def)
  let ?s1 = "s\<lparr>r_buf := b, e_rx := evs\<rparr>" and ?q = "q\<lparr>p_seq := r_expected_seq s\<rparr>"
  let ?s2 = "put_slot ?s1 (slot_index b 0) ?q"
  let ?s' = "?s2\<lparr>r_last_ts := p_ts q, r_need_nack := True, r_nack_seq := p_seq q\<rparr>"
  have w: "waiting ?s1" "wf_pkt ?q" "p_seq ?q = r_expected_seq ?s1"
    using b(1,3) by (simp_all add: waiting_def)
  have run: "do_receive_data crc s = Inr (0, ?s')"
    using b(5) q(1) f assms(4-6) process_truncated [OF w(1), of q] by (simp add: Let_def not_less)
  note r = restored [OF w]
  have "marked ?s1 = marked (s\<lparr>r_buf := b\<rparr>)" "marked ?s' = marked ?s2"
    by (simp_all add: marked_def fun_eq_iff)
  then have "marked ?s' = marked s"
    using r(2) b(2) by simp
  then have "abs_receiver ?s' = (abs_receiver s)\<lparr>a_ts := s_ts seg\<rparr>"
    using f(4) by (simp add: abs_receiver_def) (simp add: put_slot_def)
  moreover have "idle ?s'"
    using r(1) by (simp add: idle_def waiting_def synced_def)
  moreover have "in_frame s evs ?s'"
    by (simp add: in_frame_def put_slot_def)
  ultimately show ?thesis
    using run f(1) by (intro exI [of _ ?s']) simp
qed

lemma do_receive_stored:
  assumes "idle s" and "e_rx s = Rx src d # evs" and "datagram_of crc seg (take 528 d)"
    and "s_seq seg - r_expected_seq s \<le> ucast (r_max_window s)" and "s_type seg = 1"
    and "s_tr seg = 0"
  shows "\<exists>s'. do_receive_data crc s = Inr (0, s') \<and> synced s' \<and> in_frame s evs s' \<and>
    marked s' = (marked s)(unat (s_seq seg - r_expected_seq s) \<mapsto> seg) \<and>
    r_expected_seq s' = r_expected_seq s + of_nat (ones (r_oos_mask s')) \<and>
    r_last_ts s' = s_ts seg \<and> r_need_nack s' = r_need_nack s \<and>
    (s_seq seg = r_expected_seq s \<longrightarrow> used (r_buf s') = max (used (r_buf s)) 1)"
proof -
  obtain b st q where "started crc s d evs b st q"
    using do_receive_start [OF assms(1,2)] by blast
  note b = startedD [OF this]
  let ?s1 = "s\<lparr>r_buf := b, e_rx := evs\<rparr>"
  have q: "st = PKT_OK" "segment_of q = seg"
    using b(4) assms(3) by blast+
  then have f: "p_seq q = s_seq seg" "p_type q = s_type seg" "p_tr q = s_tr seg" "p_ts q = s_ts seg"
    "p_length q = s_length seg"
    by (auto simp: segment_of_def)
  have "unat (s_length seg) \<le> 512"
    using assms(3) by (simp add: datagram_of_def valid_segment_def)
  then have dp: "whole_pkt q"
    using f assms(5,6) by (simp add: whole_pkt_def)
  have w: "waiting ?s1" "marked ?s1 = marked s"
    using b(1,2) by (simp_all add: waiting_def marked_def fun_eq_iff)
  have mw: "unat (ucast (r_max_window s) :: u8) \<le> 31"
    using syncedD(3) [of s] assms(1) by (simp add: idle_def word_le_nat_alt unat_ucast_down_u8)
  have run: "do_receive_data crc s = process_incoming_pkt (slot_index b 0) (put_slot ?s1 (slot_index b 0) q)"
    using b(5) q(1) f leD [OF assms(4)] assms(5,6) by (simp add: Let_def)
  show ?thesis
  proof (cases "p_seq q = r_expected_seq s")
    case True
    then show ?thesis
      using process_in_sequence [OF w(1) b(3) dp] run w(2) q(2) f b(6) by auto
  next
    case False
    have "unat (p_seq q - r_expected_seq s) < 32"
      using assms(4) mw f(1) by (simp add: word_le_nat_alt)
    then show ?thesis
      using process_out_of_sequence [OF w(1) b(3) dp] run w(2) q(2) f False
      by (auto simp: ones_0_iff [THEN iffD2])
  qed
qed

section \<open>Emptying the buffer is delivering\<close>

lemma a_deliver_run:
  assumes "\<forall>j<k. a_store a j = Some (f j)" and "a_store a k = None" and "k \<le> n"
  shows "a_deliver n a = a\<lparr>a_next := a_next a + of_nat k, a_store := \<lambda>j. a_store a (j + k),
    a_out := a_out a @ concat (map (\<lambda>j. s_data (f j)) [0..<k]),
    a_last := (case k of 0 \<Rightarrow> a_last a | Suc i \<Rightarrow> int (length (s_data (f i))))\<rparr>"
  using assms
proof (induction k arbitrary: n a f)
  case 0
  then show ?case
    by (cases n) simp_all
next
  case (Suc k)
  then obtain m where n: "n = Suc m" "k \<le> m"
    by (cases n) auto
  let ?a = "a\<lparr>a_next := a_next a + 1, a_store := \<lambda>j. a_store a (Suc j),
    a_out := a_out a @ s_data (f 0), a_last := int (length (s_data (f 0)))\<rparr>"
  have "a_deliver m ?a = ?a\<lparr>a_next := a_next ?a + of_nat k, a_store := \<lambda>j. a_store ?a (j + k),
    a_out := a_out ?a @ concat (map (\<lambda>j. s_data (f (Suc j))) [0..<k]),
    a_last := (case k of 0 \<Rightarrow> a_last ?a | Suc i \<Rightarrow> int (length (s_data (f (Suc i)))))\<rparr>"
    using Suc.prems n(2) by (intro Suc.IH [where f = "\<lambda>j. f (Suc j)"]) auto
  moreover have "map (\<lambda>j. s_data (f j)) [0..<Suc k] = s_data (f 0) # map (\<lambda>j. s_data (f (Suc j))) [0..<k]"
    by (simp only: upt_conv_Cons zero_less_Suc map_Suc_upt [symmetric]) simp
  moreover have "(case k of 0 \<Rightarrow> a_last ?a | Suc i \<Rightarrow> int (length (s_data (f (Suc i)))))
      = int (length (s_data (f k)))"
    by (cases k) simp_all
  ultimately show ?case
    using Suc.prems(1) n(1) by (simp add: add.assoc del: upt_Suc)
qed

lemma deliver_one:
  assumes "a_store a = [0 \<mapsto> seg]"
  shows "a_deliver 32 a = a\<lparr>a_next := a_next a + 1, a_store := (\<lambda>_. None), a_out := a_out a @ s_data seg,
    a_last := int (length (s_data seg))\<rparr>"
proof -
  have "a_deliver 32 a = a\<lparr>a_next := a_next a + of_nat 1, a_store := \<lambda>j. a_store a (j + 1),
      a_out := a_out a @ concat (map (\<lambda>j. s_data seg) [0..<1]),
      a_last := (case 1 of 0 \<Rightarrow> a_last a | Suc i \<Rightarrow> int (length (s_data seg)))\<rparr>"
    using assms by (intro a_deliver_run) simp_all
  then show ?thesis
    using assms by simp
qed

lemma emptied_abs:
  assumes "emptied s s'" and "r_out_results s = []" and "synced s"
  shows "abs_receiver s' =
    a_deliver 32 ((abs_receiver s)\<lparr>a_next := r_expected_seq s - of_nat (ones (r_oos_mask s))\<rparr>)"
    and "idle s'"
proof -
  let ?k = "ones (r_oos_mask s)" and ?xs = "items (r_buf s)"
  note e = assms(1) [unfolded emptied_def Let_def]
  have fr: "out_frame s s'"
    using e by blast
  have dp: "whole_pkt (?xs ! j)" "j < used (r_buf s)" if "j < ?k" for j
    using syncedD(5,6) [OF assms(3) bit_less_ones [OF that]] by blast+
  then have k: "?k \<le> length ?xs"
    by (metis length_items linorder_le_less_linear nat_less_le order_refl)
  have data: "s_data (segment_of (?xs ! j)) = payload_of (?xs ! j)" if "j < ?k" for j
    using dp(1) [OF that] by (simp add: segment_of_def payload_of_def whole_pkt_def)
  have bits: "bit (r_oos_mask s') j \<longleftrightarrow> bit (r_oos_mask s) (j + ?k)" for j
    using e by (simp add: bit_drop_bit_eq add.commute)
  have st: "marked s' j = marked s (j + ?k)" for j
    using e bits k by (simp add: marked_def add.commute)
  have out: "concat (map payload_of (take ?k ?xs)) =
      concat (map (\<lambda>j. s_data (segment_of (?xs ! j))) [0..<?k])"
  proof -
    have t1: "take ?k ?xs = map ((!) ?xs) [0..<?k]"
      using k by (intro nth_equalityI) simp_all
    have t2: "map (\<lambda>j. payload_of (?xs ! j)) [0..<?k] =
        map (\<lambda>j. s_data (segment_of (?xs ! j))) [0..<?k]"
      using data by (intro map_cong) auto
    show ?thesis
      by (simp only: t1 map_map comp_def t2)
  qed
  have last: "(case ?k of 0 \<Rightarrow> r_last_written_len s | Suc i \<Rightarrow> int (length (payload_of (?xs ! i)))) =
      (case ?k of 0 \<Rightarrow> r_last_written_len s | Suc i \<Rightarrow> int (length (s_data (segment_of (?xs ! i)))))"
    using data by (cases ?k) simp_all
  show "idle s'"
    using e bits [of 0] not_bit_ones [of "r_oos_mask s"] by (simp add: idle_def)
  have "a_deliver 32 ((abs_receiver s)\<lparr>a_next := r_expected_seq s - of_nat ?k\<rparr>) =
    (abs_receiver s)\<lparr>a_store := \<lambda>j. marked s (j + ?k),
      a_out := r_out s @ concat (map (\<lambda>j. s_data (segment_of (?xs ! j))) [0..<?k]),
      a_last := (case ?k of 0 \<Rightarrow> r_last_written_len s
        | Suc i \<Rightarrow> int (length (s_data (segment_of (?xs ! i)))))\<rparr>"
    using bit_less_ones not_bit_ones [of "r_oos_mask s"] ones_le [of "r_oos_mask s"]
    by (subst a_deliver_run [where k = ?k and f = "\<lambda>j. segment_of (?xs ! j)"])
      (auto simp: marked_def abs_receiver_def split: nat.split)
  then show "abs_receiver s' = a_deliver 32 ((abs_receiver s)\<lparr>a_next := r_expected_seq s - of_nat ?k\<rparr>)"
    using e assms(2) out last st out_frameD [OF fr] by (simp add: abs_receiver_def fun_eq_iff)
qed

section \<open>One round of the main loop\<close>

text \<open>The static packets of \<open>send_ack\<close> and \<open>send_nack\<close> keep what does not change.\<close>

definition acks_ok :: "receiver \<Rightarrow> bool" where
  "acks_ok s \<longleftrightarrow>
     wf_pkt (r_ack_pkt s) \<and> p_type (r_ack_pkt s) = 2 \<and> p_tr (r_ack_pkt s) = 0 \<and> p_length (r_ack_pkt s) = 0 \<and>
     wf_pkt (r_nack_pkt s) \<and> p_type (r_nack_pkt s) = 3 \<and> p_tr (r_nack_pkt s) = 0 \<and> p_length (r_nack_pkt s) = 0"

lemma htons_0 [simp]: "htons 0 = 0"
  by (simp add: htons_def)

lemma encode_answer:
  assumes "wf_pkt p" and "p_tr p = 0" and "p_length p = 0"
    and "q = p\<lparr>p_seq := seq, p_ts := ts, p_window := ucast win\<rparr>"
  shows "pkt_encode_inline crc q = Inr (PKT_OK, encoded_pkt crc q)"
    and "write_ok 12 e \<Longrightarrow> net_send (encoded_pkt crc q) e =
      Inr (NET_OK, after_write (wire_of crc (answer (p_type p) seq ts win)) e)"
    and "wf_pkt (encoded_pkt crc q)" "p_type (encoded_pkt crc q) = p_type p"
    and "p_tr (encoded_pkt crc q) = 0" "p_length (encoded_pkt crc q) = 0"
proof -
  have q: "wf_pkt q" "unat (p_length q) \<le> 512" "unat (pkt_len q) = 12"
    using assms by (simp_all add: pkt_len_def)
  have "raw_segment_of q = answer (p_type p) seq ts win"
    using assms by (simp add: raw_segment_of_def segment_of_def answer_def)
  then show "write_ok 12 e \<Longrightarrow> net_send (encoded_pkt crc q) e =
      Inr (NET_OK, after_write (wire_of crc (answer (p_type p) seq ts win)) e)"
    using net_send_encoded [OF q(1,2), of e crc] q(3) by simp
  show "pkt_encode_inline crc q = Inr (PKT_OK, encoded_pkt crc q)"
    using q pkt_encode_inline_eq by simp
  show "wf_pkt (encoded_pkt crc q)" "p_type (encoded_pkt crc q) = p_type p"
    "p_tr (encoded_pkt crc q) = 0" "p_length (encoded_pkt crc q) = 0"
    using encoded_pkt [OF q(1,2), of crc] assms by simp_all
qed

lemma send_ack_ok:
  assumes "acks_ok s" and "write_ok 12 s"
  shows "\<exists>s'. send_ack crc s = Inr (NET_OK, s') \<and> acks_ok s' \<and>
    s' = (after_write (wire_of crc (answer 2 (r_expected_seq s) (r_last_ts s) (window_size s))) s)
      \<lparr>r_ack_pkt := r_ack_pkt s'\<rparr>"
proof -
  let ?q = "(r_ack_pkt s)\<lparr>p_seq := r_expected_seq s, p_ts := r_last_ts s, p_window := ucast (window_size s)\<rparr>"
  have a: "wf_pkt (r_ack_pkt s)" "p_tr (r_ack_pkt s) = 0" "p_length (r_ack_pkt s) = 0"
    using assms(1) by (simp_all add: acks_ok_def)
  note e = encode_answer [OF a refl, where crc = crc and seq = "r_expected_seq s" and ts = "r_last_ts s"
    and win = "window_size s"]
  have w: "write_ok 12 (s\<lparr>r_ack_pkt := encoded_pkt crc ?q\<rparr>)"
    using assms(2) by (simp add: write_ok_def)
  show ?thesis
    using e(1,3-) e(2) [OF w] assms(1) by (simp add: send_ack_def acks_ok_def after_write_def)
qed

lemma send_nack_ok:
  assumes "acks_ok s" and "write_ok 12 s"
  shows "\<exists>s'. send_nack crc seq s = Inr (NET_OK, s') \<and> acks_ok s' \<and>
    s' = (after_write (wire_of crc (answer 3 seq (r_last_ts s) (window_size s))) s)
      \<lparr>r_nack_pkt := r_nack_pkt s'\<rparr>"
proof -
  let ?q = "(r_nack_pkt s)\<lparr>p_seq := seq, p_ts := r_last_ts s, p_window := ucast (window_size s)\<rparr>"
  have a: "wf_pkt (r_nack_pkt s)" "p_tr (r_nack_pkt s) = 0" "p_length (r_nack_pkt s) = 0"
    using assms(1) by (simp_all add: acks_ok_def)
  note e = encode_answer [OF a refl, where crc = crc and seq = seq and ts = "r_last_ts s"
    and win = "window_size s"]
  have w: "write_ok 12 (s\<lparr>r_nack_pkt := encoded_pkt crc ?q\<rparr>)"
    using assms(2) by (simp add: write_ok_def)
  show ?thesis
    using e(1,3-) e(2) [OF w] assms(1) by (simp add: send_nack_def acks_ok_def after_write_def)
qed

lemma in_frameD:
  assumes "in_frame s evs s'"
  shows "e_rx s' = evs" "e_tx s' = e_tx s" "e_wr s' = e_wr s" "r_max_window s' = r_max_window s"
    "r_need_ack s' = r_need_ack s" "r_out s' = r_out s" "r_out_results s' = r_out_results s"
    "r_last_written_len s' = r_last_written_len s" "r_ack_pkt s' = r_ack_pkt s"
    "r_nack_pkt s' = r_nack_pkt s"
  using assms by (cases s; cases s'; simp add: in_frame_def)+

lemma abs_collapse: "a_deliver 32 (abs_receiver s) = abs_receiver s" if "idle s"
  using that by (simp add: eval_nat_numeral idle_def marked_def)

text \<open>
  Reading the socket, as far as the specification goes: what emptying the buffer afterwards
  will deliver is the step of the specification.
\<close>

definition received :: "receiver \<Rightarrow> areceiver" where
  "received s =
    a_deliver 32 ((abs_receiver s)\<lparr>a_next := r_expected_seq s - of_nat (ones (r_oos_mask s))\<rparr>)"

lemma received_idle: "idle s \<Longrightarrow> received s = abs_receiver s"
  using abs_collapse [of s] ones_0_iff [of "r_oos_mask s"]
  by (simp add: received_def idle_def) (simp add: abs_receiver_def)

lemma all_in_sequence:
  assumes "synced s" and "used (r_buf s) = 1" and "marked s 0 \<noteq> None"
  shows "ones (r_oos_mask s) = 1"
proof (rule ones_eqI)
  show "bit (r_oos_mask s) i" if "i < 1" for i
    using assms(3) that by (simp add: marked_def split: if_splits)
  show "\<not> bit (r_oos_mask s) 1"
    using syncedD(5) [OF assms(1), of 1] assms(2) by auto
qed

lemma read_sock_step:
  assumes "idle s" and "e_rx s = Rx src d # evs" and "carries crc d cs"
  shows "\<exists>s1. do_read_sock crc s = Inr (0, s1) \<and> synced s1 \<and> in_frame s evs s1 \<and>
    received s1 = a_event cs (abs_receiver s) \<and>
    (r_need_nack s1 \<longleftrightarrow> r_need_nack s \<or> a_truncated cs (abs_receiver s)) \<and>
    (a_truncated cs (abs_receiver s) \<longrightarrow> r_nack_seq s1 = s_seq (the cs)) \<and>
    (used (r_buf s) = 0 \<and> a_in_sequence cs (abs_receiver s) \<longrightarrow> used (r_buf s1) = ones (r_oos_mask s1))"
proof (cases "rbuf_full s")
  case True
  then have "a_event cs (abs_receiver s) = abs_receiver s" "\<not> a_truncated cs (abs_receiver s)"
    using full_abs [of s]
    by (auto simp: a_event_def a_step_def a_accepts_def a_truncated_def split: option.splits)
  moreover have "\<not> a_in_sequence cs (abs_receiver s)"
    using True full_abs [of s] by (auto simp: a_in_sequence_def a_accepts_def)
  moreover have "do_read_sock crc s = Inr (0, s\<lparr>e_rx := evs\<rparr>)"
    using True assms(2) by (simp add: do_read_sock_def discard_incoming_data_def sys_recv_def)
  moreover have "idle (s\<lparr>e_rx := evs\<rparr>)" "abs_receiver (s\<lparr>e_rx := evs\<rparr>) = abs_receiver s"
    using assms(1) by (simp_all add: idle_def abs_receiver_def)
  ultimately show ?thesis
    using received_idle [of "s\<lparr>e_rx := evs\<rparr>"]
    by (auto simp: in_frame_def idle_def intro!: exI [of _ "s\<lparr>e_rx := evs\<rparr>"])
next
  case False
  then have read: "do_read_sock crc s = do_receive_data crc s"
    by (simp add: do_read_sock_def)
  have acc: "a_accepts (abs_receiver s) seg \<longleftrightarrow>
      s_seq seg - r_expected_seq s \<le> ucast (r_max_window s) \<and> s_type seg = 1" for seg
    using False full_abs [of s] by (simp add: a_accepts_def)
  show ?thesis
  proof (cases "\<exists>seg. cs = Some seg \<and> a_accepts (abs_receiver s) seg")
    case False
    then have "a_event cs (abs_receiver s) = abs_receiver s" "\<not> a_truncated cs (abs_receiver s)"
      by (auto simp: a_event_def a_step_def a_truncated_def split: option.splits)
    moreover have "\<not> a_in_sequence cs (abs_receiver s)"
      using False by (auto simp: a_in_sequence_def)
    moreover have none: "\<forall>seg. datagram_of crc seg (take 528 d) \<longrightarrow>
        \<not> (s_seq seg - r_expected_seq s \<le> ucast (r_max_window s) \<and> s_type seg = 1)"
      using False assms(3) acc datagram_of_unique by (fastforce simp: carries_def split: option.splits)
    from do_receive_rejected [OF assms(1,2) none] obtain s1 where
      "do_receive_data crc s = Inr (0, s1)" "idle s1" "in_frame s evs s1"
      "abs_receiver s1 = abs_receiver s" "r_need_nack s1 = r_need_nack s"
      by blast
    ultimately show ?thesis
      using read received_idle [of s1] by (auto simp: idle_def)
  next
    case True
    then obtain seg where seg: "cs = Some seg" "datagram_of crc seg (take 528 d)"
      "s_seq seg - r_expected_seq s \<le> ucast (r_max_window s)" "s_type seg = 1"
      "a_accepts (abs_receiver s) seg"
      using assms(3) acc by (auto simp: carries_def)
    show ?thesis
    proof (cases "s_tr seg = 0")
      case False
      then have "a_event cs (abs_receiver s) = (abs_receiver s)\<lparr>a_ts := s_ts seg\<rparr>"
        "a_truncated cs (abs_receiver s)" "\<not> a_in_sequence cs (abs_receiver s)"
        using seg by (simp_all add: a_event_def a_step_def a_truncated_def a_in_sequence_def)
      then show ?thesis
        using do_receive_truncated [OF assms(1,2) seg(2-4) False] read received_idle seg(1)
        by (auto simp: idle_def)
    next
      case True
      then have ev: "a_event cs (abs_receiver s) = a_deliver 32 ((abs_receiver s)
          \<lparr>a_ts := s_ts seg, a_store := (marked s)(unat (s_seq seg - r_expected_seq s) \<mapsto> seg)\<rparr>)"
        "\<not> a_truncated cs (abs_receiver s)"
        using seg by (simp_all add: a_event_def a_step_def a_truncated_def)
      obtain s1 where s1: "do_receive_data crc s = Inr (0, s1)" "synced s1" "in_frame s evs s1"
        "marked s1 = (marked s)(unat (s_seq seg - r_expected_seq s) \<mapsto> seg)"
        "r_expected_seq s1 = r_expected_seq s + of_nat (ones (r_oos_mask s1))"
        "r_last_ts s1 = s_ts seg" "r_need_nack s1 = r_need_nack s"
        "s_seq seg = r_expected_seq s \<longrightarrow> used (r_buf s1) = max (used (r_buf s)) 1"
        using do_receive_stored [OF assms(1,2) seg(2-4) True] by blast
      have "(abs_receiver s1)\<lparr>a_next := r_expected_seq s1 - of_nat (ones (r_oos_mask s1))\<rparr> =
          (abs_receiver s)\<lparr>a_ts := s_ts seg, a_store := (marked s)(unat (s_seq seg - r_expected_seq s) \<mapsto> seg)\<rparr>"
        using s1(4-6) in_frameD [OF s1(3)] by (simp add: abs_receiver_def)
      then have "received s1 = a_event cs (abs_receiver s)"
        using ev(1) by (simp only: received_def)
      moreover have "used (r_buf s1) = ones (r_oos_mask s1)"
        if "used (r_buf s) = 0" "a_in_sequence cs (abs_receiver s)"
      proof -
        have "s_seq seg = r_expected_seq s"
          using that(2) seg(1) by (simp add: a_in_sequence_def)
        then have "used (r_buf s1) = 1" "marked s1 0 \<noteq> None"
          using s1(4,8) that(1) by simp_all
        then show ?thesis
          using all_in_sequence [OF s1(2)] by simp
      qed
      ultimately show ?thesis
        using s1 ev(2) read by auto
    qed
  qed
qed

text \<open>Then the buffer is emptied as far as the output file allows, here completely.\<close>

lemma empty_step:
  assumes "synced s" and "r_out_results s = []"
  shows "\<exists>s'. (if file_ev \<or> can_empty_rbuf s then do_empty_rbuf s else Inr (0, s)) = Inr (0, s') \<and>
    idle s' \<and> abs_receiver s' = received s \<and> out_frame s s' \<and> r_out_results s' = [] \<and>
    used (r_buf s') = used (r_buf s) - ones (r_oos_mask s)"
proof -
  obtain s' where e: "do_empty_rbuf s = Inr (0, s')" "emptied s s'"
    using do_empty_all [OF assms] by blast
  then have r: "r_out_results s' = []" "out_frame s s'" "items (r_buf s') = drop (ones (r_oos_mask s)) (items (r_buf s))"
    by (simp_all add: emptied_def Let_def)
  from arg_cong [OF r(3), of length] have u: "used (r_buf s') = used (r_buf s) - ones (r_oos_mask s)"
    by simp
  have abs: "abs_receiver s' = received s" "idle s'"
    using emptied_abs [OF e(2) assms(2,1)] by (simp_all add: received_def)
  have "s' = s" if "\<not> can_empty_rbuf s"
  proof -
    have "\<not> bit (r_oos_mask s) 0"
      using that synced_first(2) [OF assms(1)] used_eq_0 by (auto simp: can_empty_rbuf_def and_1_bit)
    then show ?thesis
      using e(1) by (simp add: do_empty_rbuf.simps [of s] and_1_bit)
  qed
  then show ?thesis
    using e(1) r abs u by auto
qed

text \<open>
  A round with a datagram, while the output file and the socket take what they are given.
\<close>

definition keeping_up :: "receiver \<Rightarrow> bool" where
  "keeping_up s \<longleftrightarrow> idle s \<and> acks_ok s \<and> r_out_results s = [] \<and> e_wr s = [] \<and>
     \<not> r_need_ack s \<and> \<not> r_need_nack s"

definition clear_needs :: "receiver \<Rightarrow> receiver" where
  "clear_needs s = s\<lparr>r_need_ack := False, r_need_nack := False\<rparr>"

lemma idle_update [simp]:
  "idle (s\<lparr>r_need_ack := d\<rparr>) = idle s" "idle (s\<lparr>r_need_nack := d\<rparr>) = idle s"
  "idle (s\<lparr>r_ack_pkt := p\<rparr>) = idle s" "idle (s\<lparr>r_nack_pkt := p\<rparr>) = idle s"
  "idle (s\<lparr>e_tx := t\<rparr>) = idle s" "idle (s\<lparr>e_wr := w\<rparr>) = idle s"
  by (simp_all add: idle_def)

lemma abs_update [simp]:
  "abs_receiver (s\<lparr>r_need_ack := d\<rparr>) = abs_receiver s" "abs_receiver (s\<lparr>r_need_nack := d\<rparr>) = abs_receiver s"
  "abs_receiver (s\<lparr>r_ack_pkt := p\<rparr>) = abs_receiver s" "abs_receiver (s\<lparr>r_nack_pkt := p\<rparr>) = abs_receiver s"
  "abs_receiver (s\<lparr>e_tx := t\<rparr>) = abs_receiver s" "abs_receiver (s\<lparr>e_wr := w\<rparr>) = abs_receiver s"
  by (simp_all add: abs_receiver_def marked_def fun_eq_iff)

lemma received_need [simp]: "received (s\<lparr>r_need_ack := d\<rparr>) = received s"
  by (simp add: received_def)

lemma idle_can_empty: "idle s \<Longrightarrow> \<not> can_empty_rbuf s"
  by (simp add: idle_def can_empty_rbuf_def and_1_bit)

text \<open>
  The end of every round: what is in sequence is written, then an acknowledgement is sent, or a
  negative one, or both, as the flags ask.
\<close>

definition answers :: "receiver \<Rightarrow> segment list" where
  "answers s =
    (let a = received s in
     (if r_need_ack s then [answer 2 (a_next a) (a_ts a) (a_window a)] else []) @
     (if r_need_nack s then [answer 3 (r_nack_seq s) (a_ts a) (a_window a)] else []))"

lemma reply_ack:
  assumes "idle s" and "acks_ok s" and "e_wr s = []"
  shows "\<exists>s'. (if r_need_ack s then send_ack crc s else Inr (NET_OK, s)) = Inr (NET_OK, s') \<and> acks_ok s' \<and>
    s' = s\<lparr>e_tx := e_tx s @ (if r_need_ack s
      then [wire_of crc (answer 2 (r_expected_seq s) (r_last_ts s) (r_max_window s))] else []), r_ack_pkt := r_ack_pkt s'\<rparr>"
proof (cases "r_need_ack s")
  case True
  have w: "write_ok 12 s"
    using assms(3) by (simp add: write_ok_def)
  obtain s' where s': "send_ack crc s = Inr (NET_OK, s')" "acks_ok s'"
    "s' = (after_write (wire_of crc (answer 2 (r_expected_seq s) (r_last_ts s) (window_size s))) s)\<lparr>r_ack_pkt := r_ack_pkt s'\<rparr>"
    using send_ack_ok [OF assms(2) w] by blast
  have "after_write d s = s\<lparr>e_tx := e_tx s @ [d]\<rparr>" for d
    using assms(3) by (cases s) (simp add: after_write_def)
  then have "s' = s\<lparr>e_tx := e_tx s @ [wire_of crc (answer 2 (r_expected_seq s) (r_last_ts s) (r_max_window s))],
      r_ack_pkt := r_ack_pkt s'\<rparr>"
    using s'(3) idle_window [OF assms(1)] by simp
  then show ?thesis
    using s'(1,2) True by simp
qed (use assms in simp)

lemma reply_nack:
  assumes "idle s" and "acks_ok s" and "e_wr s = []"
  shows "\<exists>s'. (if r_need_nack s then send_nack crc (r_nack_seq s) s else Inr (NET_OK, s)) = Inr (NET_OK, s') \<and>
    acks_ok s' \<and> s' = s\<lparr>e_tx := e_tx s @ (if r_need_nack s
      then [wire_of crc (answer 3 (r_nack_seq s) (r_last_ts s) (r_max_window s))] else []), r_nack_pkt := r_nack_pkt s'\<rparr>"
proof (cases "r_need_nack s")
  case True
  have w: "write_ok 12 s"
    using assms(3) by (simp add: write_ok_def)
  obtain s' where s': "send_nack crc (r_nack_seq s) s = Inr (NET_OK, s')" "acks_ok s'"
    "s' = (after_write (wire_of crc (answer 3 (r_nack_seq s) (r_last_ts s) (window_size s))) s)\<lparr>r_nack_pkt := r_nack_pkt s'\<rparr>"
    using send_nack_ok [OF assms(2) w] by blast
  have "after_write d s = s\<lparr>e_tx := e_tx s @ [d]\<rparr>" for d
    using assms(3) by (cases s) (simp add: after_write_def)
  then have "s' = s\<lparr>e_tx := e_tx s @ [wire_of crc (answer 3 (r_nack_seq s) (r_last_ts s) (r_max_window s))],
      r_nack_pkt := r_nack_pkt s'\<rparr>"
    using s'(3) idle_window [OF assms(1)] by simp
  then show ?thesis
    using s'(1,2) True by simp
qed (use assms in simp)

lemma finish_round:
  assumes "synced s" and "acks_ok s" and "e_wr s = []" and "r_out_results s = []"
  shows "\<exists>s'. rbind (if file_ev \<or> can_empty_rbuf s then do_empty_rbuf s else Inr (0, s)) (\<lambda>(err, s).
      if err \<noteq> 0 then Inr (False, True, s) else
      rbind (if r_need_ack s then send_ack crc s else Inr (NET_OK, s)) (\<lambda>(err, s).
      if err \<noteq> NET_OK then Inr (False, True, s) else
      rbind (if r_need_nack s then send_nack crc (r_nack_seq s) s else Inr (NET_OK, s)) (\<lambda>(err, s).
      if err \<noteq> NET_OK then Inr (False, True, s) else Inr (True, can_empty_rbuf s, s)))) = Inr (True, False, s') \<and>
    keeping_up (clear_needs s') \<and> abs_receiver s' = received s \<and> e_rx s' = e_rx s \<and>
    e_tx s' = e_tx s @ map (wire_of crc) (answers s) \<and>
    used (r_buf s') = used (r_buf s) - ones (r_oos_mask s)"
proof -
  obtain s1 where s1: "(if file_ev \<or> can_empty_rbuf s then do_empty_rbuf s else Inr (0, s)) = Inr (0, s1)"
    "idle s1" "abs_receiver s1 = received s" "out_frame s s1" "r_out_results s1 = []"
    "used (r_buf s1) = used (r_buf s) - ones (r_oos_mask s)"
    using empty_step [OF assms(1,4), of file_ev] by blast
  note f1 = out_frameD [OF s1(4)]
  have a1: "acks_ok s1" "e_wr s1 = []"
    using f1 assms(2,3) by (simp_all add: acks_ok_def)
  obtain s2 where s2: "(if r_need_ack s1 then send_ack crc s1 else Inr (NET_OK, s1)) = Inr (NET_OK, s2)" "acks_ok s2"
    "s2 = s1\<lparr>e_tx := e_tx s1 @ (if r_need_ack s1
      then [wire_of crc (answer 2 (r_expected_seq s1) (r_last_ts s1) (r_max_window s1))] else []), r_ack_pkt := r_ack_pkt s2\<rparr>"
    using reply_ack [OF s1(2) a1, of crc] by blast
  have f2: "idle s2" "e_wr s2 = []" "abs_receiver s2 = abs_receiver s1" "r_need_nack s2 = r_need_nack s"
    "e_rx s2 = e_rx s" "r_buf s2 = r_buf s1" "r_out_results s2 = []" "r_nack_seq s2 = r_nack_seq s"
    "e_tx s2 = e_tx s @ (if r_need_ack s
      then [wire_of crc (answer 2 (r_expected_seq s1) (r_last_ts s1) (r_max_window s1))] else [])"
    using s1(2,5) a1(2) f1 by (subst s2(3); simp)+
  obtain s3 where s3: "(if r_need_nack s2 then send_nack crc (r_nack_seq s2) s2 else Inr (NET_OK, s2)) = Inr (NET_OK, s3)"
    "acks_ok s3" "s3 = s2\<lparr>e_tx := e_tx s2 @ (if r_need_nack s2
      then [wire_of crc (answer 3 (r_nack_seq s2) (r_last_ts s2) (r_max_window s2))] else []), r_nack_pkt := r_nack_pkt s3\<rparr>"
    using reply_nack [OF f2(1) s2(2) f2(2), of crc] by blast
  have f3: "idle s3" "e_wr s3 = []" "abs_receiver s3 = abs_receiver s2" "e_rx s3 = e_rx s" "r_buf s3 = r_buf s1"
    "r_out_results s3 = []"
    "e_tx s3 = e_tx s2 @ (if r_need_nack s
      then [wire_of crc (answer 3 (r_nack_seq s) (r_last_ts s2) (r_max_window s2))] else [])"
    using f2 by (subst s3(3); simp)+
  have eq: "r_expected_seq s1 = a_next (received s)" "r_last_ts s1 = a_ts (received s)"
    "r_max_window s1 = a_window (received s)" "r_last_ts s2 = a_ts (received s)"
    "r_max_window s2 = a_window (received s)"
    using f2(3) unfolding s1(3) [symmetric] by (metis abs_receiver_sel(1,2,4))+
  have tx: "e_tx s3 = e_tx s @ map (wire_of crc) (answers s)"
    unfolding f3(7) f2(9) eq by (simp add: answers_def Let_def)
  have "keeping_up (clear_needs s3)"
    using f3(1,2,6) s3(2) by (simp add: keeping_up_def clear_needs_def acks_ok_def)
  moreover have "\<not> can_empty_rbuf s3"
    by (rule idle_can_empty [OF f3(1)])
  ultimately show ?thesis
    using s1(1,3,6) s2(1) s3(1) f2(3) f3(3-5) tx by (intro exI [of _ s3]) simp
qed

lemma round_step:
  assumes "keeping_up s" and "e_rx s = Rx src d # evs" and "carries crc d cs"
  shows "\<exists>s'. receive_ready crc file_ev True s = Inr (True, False, s') \<and> keeping_up (clear_needs s') \<and>
    e_rx s' = evs \<and> abs_receiver s' = a_event cs (abs_receiver s) \<and>
    e_tx s' = e_tx s @ [wire_of crc (a_answer cs (abs_receiver s))] \<and>
    (used (r_buf s) = 0 \<and> a_in_sequence cs (abs_receiver s) \<longrightarrow> used (r_buf s') = 0)"
proof -
  note k = assms(1) [unfolded keeping_up_def]
  let ?trunc = "a_truncated cs (abs_receiver s)"
  obtain s1 where s1: "do_read_sock crc s = Inr (0, s1)" "synced s1" "in_frame s evs s1"
    "received s1 = a_event cs (abs_receiver s)" "r_need_nack s1 \<longleftrightarrow> ?trunc"
    "?trunc \<longrightarrow> r_nack_seq s1 = s_seq (the cs)"
    "used (r_buf s) = 0 \<and> a_in_sequence cs (abs_receiver s) \<longrightarrow> used (r_buf s1) = ones (r_oos_mask s1)"
    using read_sock_step [OF _ assms(2,3)] k by auto
  note f1 = in_frameD [OF s1(3)]
  define s2 where "s2 = (if (0 :: int) = 0 \<and> \<not> r_need_nack s1 then s1\<lparr>r_need_ack := True\<rparr> else s1)"
  have s2: "synced s2" "acks_ok s2" "e_wr s2 = []" "r_out_results s2 = []" "received s2 = received s1"
    "r_buf s2 = r_buf s1" "r_oos_mask s2 = r_oos_mask s1" "e_rx s2 = evs" "e_tx s2 = e_tx s"
    using s1(2) f1 k by (auto simp: s2_def acks_ok_def)
  have ans: "answers s2 = [a_answer cs (abs_receiver s)]"
    using s1(4-6) k f1 s2(5) by (auto simp: answers_def a_answer_def Let_def s2_def)
  obtain s' where s': "rbind (if file_ev \<or> can_empty_rbuf s2 then do_empty_rbuf s2 else Inr (0, s2)) (\<lambda>(err, s).
      if err \<noteq> 0 then Inr (False, True, s) else
      rbind (if r_need_ack s then send_ack crc s else Inr (NET_OK, s)) (\<lambda>(err, s).
      if err \<noteq> NET_OK then Inr (False, True, s) else
      rbind (if r_need_nack s then send_nack crc (r_nack_seq s) s else Inr (NET_OK, s)) (\<lambda>(err, s).
      if err \<noteq> NET_OK then Inr (False, True, s) else Inr (True, can_empty_rbuf s, s)))) = Inr (True, False, s')"
    "keeping_up (clear_needs s')" "abs_receiver s' = received s1" "e_rx s' = evs"
    "e_tx s' = e_tx s @ [wire_of crc (a_answer cs (abs_receiver s))]"
    "used (r_buf s') = used (r_buf s1) - ones (r_oos_mask s1)"
    using finish_round [OF s2(1-4), of file_ev crc] unfolding s2(5-9) ans by auto
  have "receive_ready crc file_ev True s = Inr (True, False, s')"
    unfolding receive_ready_def s1(1) if_True rbind_simps prod.case s2_def [symmetric]
    by (simp only: s'(1) simp_thms if_False)
  then show ?thesis
    using s'(2-6) s1(4,7) by auto
qed

end
