(* ===== verification/Pktbuf_Overflow.thy ===== *)
theory Pktbuf_Overflow
  imports Pktbuf_Queue
begin

text \<open>
  A ring asked for a sequence number as far ahead as it has slots: the check lets it pass, one
  packet too many is counted, and the first packet's slot is the one handed out.
\<close>

unbundle bit_operations_syntax

lemma extend_slots_overflow:
  assumes "wf_buf b" and "seq_from s (items b)" and "unat offset = cap b"
  shows "\<exists>b0. wf_buf b0 \<and> used b0 = cap b \<and> cap b0 = cap b \<and> slot_index b0 = slot_index b \<and>
    b_first b0 = b_first b \<and>
    extend_slots b s offset = extend_slots (reserve b0 (s + of_nat (cap b))) s offset"
  using assms
proof (induction "cap b - used b" arbitrary: b)
  case 0
  then have "used b = cap b"
    using wf_bufD(3) by fastforce
  then show ?case
    using 0 extend_slots_unfold [of b s offset] by auto
next
  case (Suc n)
  let ?b = "reserve b (s + of_nat (used b))"
  have u: "used b < cap b"
    using Suc.hyps(2) by simp
  note r = reserve [OF Suc.prems(1) u]
  have "extend_slots b s offset = extend_slots ?b s offset"
    using u Suc.prems(3) extend_slots_unfold [OF Suc.prems(1)] by simp
  then show ?case
    using Suc.hyps(1) [of ?b] Suc.hyps(2) Suc.prems r by (simp add: seq_from_snoc)
qed

lemma slotfor_seq_at_cap:
  assumes "wf_buf b" and "seq_from s (items b)" and "used b \<noteq> 0" and "unat (seq - s) = cap b"
  shows "\<exists>b'. pktbuf_slotfor_seq b seq = Inr (slot_index b 0, b') \<and> used b' = Suc (cap b') \<and>
    cap b' = cap b \<and> b_first b' = b_first b \<and> wf_buf (b'\<lparr>b_last := b_first b'\<rparr>) \<and>
    p_seq (slot b' (slot_index b 0)) = seq"
proof -
  obtain b0 where b0: "wf_buf b0" "used b0 = cap b" "cap b0 = cap b" "slot_index b0 = slot_index b"
    "b_first b0 = b_first b"
    "extend_slots b s (seq - s) = extend_slots (reserve b0 (s + of_nat (cap b))) s (seq - s)"
    using extend_slots_overflow [OF assms(1,2,4)] by blast
  let ?r = "reserve b0 (s + of_nat (cap b))"
  have seq: "s + of_nat (cap b) = seq"
    using assms(4) [symmetric] by simp
  have wrap: "slot_index b (cap b) = slot_index b 0"
    by (simp add: slot_index_def cap_def)
  have i: "slot_index b 0 < cap b"
    using slot_index_less [OF assms(1)] .
  have r: "?r = set_slot (snd (pktbuf_enqueue b0)) (slot_index b 0) ((slot b0 (slot_index b 0))\<lparr>p_seq := seq\<rparr>)"
    using reserve_eq [OF b0(1)] b0 wrap seq by simp
  have "used ?r = Suc (cap b)"
    using b0(2) wf_bufD(5) [OF assms(1)]
    by (simp add: r) (simp add: used_def pktbuf_enqueue_def unat_word_ariths)
  moreover have "p_seq (slot ?r (slot_index b 0)) = seq"
    using i wf_bufD(1) [OF b0(1)] b0(3) by (simp add: r slot_set_slot)
  moreover have "b_capacity ?r = b_capacity b0" "b_first ?r = b_first b0"
    by (simp_all add: r)
  moreover have "extend_slots ?r s (seq - s) = ?r"
  proof -
    have "ucast (seq - s) < pktbuf_used ?r"
      using \<open>used ?r = Suc (cap b)\<close> assms(4) by (simp add: word_less_nat_alt used_def)
    then show ?thesis
      by (simp add: extend_slots.simps [of ?r])
  qed
  moreover have "buf_get (first_item ?r + ucast (seq - s)) ?r = slot_index b 0"
  proof -
    have "buf_get j ?r = buf_get j b0" "first_item ?r = mask_index (b_first b0) b0" for j
      using r by (simp_all add: buf_get_def mask_index_def first_item_def)
    moreover have "(ucast (seq - s) :: u32) = of_nat (cap b)"
      using assms(4) by (simp add: word_unat_eq_iff cap_def)
    ultimately show ?thesis
      using buf_get_masked [OF b0(1), of "b_first b0" "cap b"] b0(3,5)
      by (simp only:) (simp add: slot_index_def cap_def)
  qed
  moreover have "wf_buf (?r\<lparr>b_last := b_first ?r\<rparr>)"
  proof -
    have "?r\<lparr>b_last := b_first ?r\<rparr> = (set_slot b0 (slot_index b 0)
        ((slot b0 (slot_index b 0))\<lparr>p_seq := seq\<rparr>))\<lparr>b_last := b_first b0\<rparr>"
      by (simp add: r set_slot_def pktbuf_enqueue_def)
    moreover have "wf_buf (set_slot b0 (slot_index b 0) ((slot b0 (slot_index b 0))\<lparr>p_seq := seq\<rparr>))"
      using wf_slot [OF b0(1), of "slot_index b 0"] i b0(3)
      by (intro wf_set_slot [OF b0(1)]) (simp add: wf_pkt_def)
    ultimately show ?thesis
      by (simp only:) (simp add: wf_buf_def pktbuf_used_def)
  qed
  ultimately show ?thesis
    using slotfor_seq_nonempty [OF assms(1-3), of seq] b0 assms(1,3,4)
    by (auto simp: Let_def cap_def)
qed

text \<open>In that state the ring is not extended any more; the next distance stops the process.\<close>

lemma slotfor_seq_overfull:
  assumes "wf_buf (b\<lparr>b_last := b_first b\<rparr>)" and "used b = Suc (cap b)"
    and "p_seq (slot b (slot_index b 0)) = s"
  shows "if cap b < unat (seq - s) then pktbuf_slotfor_seq b seq = Inl Exit_failure
    else \<exists>i < cap b. pktbuf_slotfor_seq b seq = Inr (i, b)"
proof -
  let ?b = "b\<lparr>b_last := b_first b\<rparr>"
  have same: "buf_get j b = buf_get j ?b" "mask_index j b = mask_index j ?b" "first_item b = first_item ?b"
    "cap b = cap ?b" for j
    by (simp_all add: buf_get_def mask_index_def first_item_def cap_def)
  have first: "pktbuf_first b = Some (slot_index b 0)" "\<not> pktbuf_empty b"
    using buf_get_masked [OF assms(1), of "b_first b" 0] assms(2) used_eq_0 [of b]
    by (simp_all add: pktbuf_first_def same(1,2) first_item_def) (simp add: slot_index_def cap_def)
  have ext: "extend_slots b s (seq - s) = b" if "unat (seq - s) \<le> cap b"
    using that assms(2) by (simp add: extend_slots.simps [of b] word_less_nat_alt used_def)
  have "(ucast (seq - s) :: u32) = of_nat (unat (seq - s))"
    by (simp add: word_unat_eq_iff unat_of_nat)
  then have "buf_get (first_item b + ucast (seq - s)) b < cap b"
    using buf_get_masked [OF assms(1), of "b_first b" "unat (seq - s)"] wf_bufD(4) [OF assms(1)]
    by (simp only: same first_item_def) simp
  then show ?thesis
    using first ext assms(3) by (simp add: pktbuf_slotfor_seq_def Let_def word_le_nat_alt cap_def)
qed

text \<open>Looking up a sequence number changes no length field and no payload.\<close>

definition pkt_shape :: "pkt \<Rightarrow> u16 \<times> nat" where
  "pkt_shape p = (p_length p, length (p_payload p))"

lemma set_seq_shapes:
  "map pkt_shape (b_head (set_slot b i ((slot b i)\<lparr>p_seq := seq\<rparr>))) = map pkt_shape (b_head b)"
proof (rule nth_equalityI)
  fix j
  assume "j < length (map pkt_shape (b_head (set_slot b i ((slot b i)\<lparr>p_seq := seq\<rparr>))))"
  then show "map pkt_shape (b_head (set_slot b i ((slot b i)\<lparr>p_seq := seq\<rparr>))) ! j =
      map pkt_shape (b_head b) ! j"
    by (cases "i = j") (simp_all add: set_slot_def slot_def pkt_shape_def)
qed (simp add: set_slot_def)

lemma extend_slots_shapes:
  "map pkt_shape (b_head (extend_slots b s d)) = map pkt_shape (b_head b)"
proof (induction b s d rule: extend_slots.induct)
  case (1 b s d)
  show ?case
  proof (cases "ucast d < pktbuf_used b")
    case True
    then show ?thesis
      by (simp add: extend_slots.simps [of b])
  next
    case False
    obtain i b1 where e: "pktbuf_enqueue b = (i, b1)"
      by force
    then have h: "b_head b1 = b_head b"
      by (auto simp: pktbuf_enqueue_def)
    let ?seq = "ucast (ucast s + pktbuf_used b1 - 1)"
    have "extend_slots b s d = extend_slots (set_slot b1 i ((slot b1 i)\<lparr>p_seq := ?seq\<rparr>)) s d"
      using False e by (simp add: extend_slots.simps [of b])
    then show ?thesis
      using 1 [OF False e [symmetric] refl refl] h set_seq_shapes [of b1 i ?seq] by simp
  qed
qed

lemma slotfor_seq_shapes:
  assumes "pktbuf_slotfor_seq b seq = Inr (i, b')"
  shows "map pkt_shape (b_head b') = map pkt_shape (b_head b)"
  using assms
  by (auto simp: pktbuf_slotfor_seq_def Let_def extend_slots_shapes set_seq_shapes pktbuf_enqueue_def
      split: if_splits option.splits prod.splits)

end
