(* ===== verification/Pktbuf_Props.thy ===== *)
theory Pktbuf_Props
  imports Pktbuf_Overflow
begin

text \<open>
  The interface of a bounded queue of packets that are filled in place, as the sender and the
  receiver use the ring; the ring as its provider; and what the ring promises: first in first
  out over any run of operations, slots by sequence number, and where its two checks are
  off.
\<close>

unbundle bit_operations_syntax

section \<open>The queue interface\<close>

datatype 'a queue_op = Push 'a | Pop

text \<open>A run of operations: a pushed value is written through the pointer \<open>enqueue\<close> returns,
  a popped one is read through the pointer \<open>dequeue\<close> returns.\<close>

fun run_ring ::
  "('q \<Rightarrow> nat \<times> 'q) \<Rightarrow> ('q \<Rightarrow> nat \<times> 'q) \<Rightarrow> ('q \<Rightarrow> nat \<Rightarrow> 'a) \<Rightarrow> ('q \<Rightarrow> nat \<Rightarrow> 'a \<Rightarrow> 'q)
     \<Rightarrow> 'a queue_op list \<Rightarrow> 'q \<Rightarrow> 'a list \<times> 'q" where
  "run_ring enq deq rd wr [] q = ([], q)"
| "run_ring enq deq rd wr (Push x # ops) q =
     (let (i, q) = enq q in run_ring enq deq rd wr ops (wr q i x))"
| "run_ring enq deq rd wr (Pop # ops) q =
     (let (i, q) = deq q; (out, q') = run_ring enq deq rd wr ops q in (rd q i # out, q'))"

text \<open>The same run on a list of at most \<open>n\<close> elements; undefined where it over- or underflows.\<close>

fun run_list :: "('a \<Rightarrow> bool) \<Rightarrow> nat \<Rightarrow> 'a queue_op list \<Rightarrow> 'a list \<Rightarrow> ('a list \<times> 'a list) option" where
  "run_list ok n [] xs = Some ([], xs)"
| "run_list ok n (Push x # ops) xs =
     (if length xs < n \<and> ok x then run_list ok n ops (xs @ [x]) else None)"
| "run_list ok n (Pop # ops) xs =
     (case xs of [] \<Rightarrow> None
      | y # ys \<Rightarrow> map_option (\<lambda>(out, zs). (y # out, zs)) (run_list ok n ops ys))"

locale packet_queue =
  fixes inv :: "'q \<Rightarrow> bool"
    and contents :: "'q \<Rightarrow> 'a list"
    and room :: "'q \<Rightarrow> nat"
    and ok :: "'a \<Rightarrow> bool"
    and enq :: "'q \<Rightarrow> nat \<times> 'q"
    and deq :: "'q \<Rightarrow> nat \<times> 'q"
    and rd :: "'q \<Rightarrow> nat \<Rightarrow> 'a"
    and wr :: "'q \<Rightarrow> nat \<Rightarrow> 'a \<Rightarrow> 'q"
  assumes enq_wr: "inv q \<Longrightarrow> length (contents q) < room q \<Longrightarrow> ok x \<Longrightarrow> enq q = (i, q') \<Longrightarrow>
      inv (wr q' i x) \<and> contents (wr q' i x) = contents q @ [x] \<and> room (wr q' i x) = room q"
    and deq: "inv q \<Longrightarrow> contents q \<noteq> [] \<Longrightarrow> deq q = (i, q') \<Longrightarrow>
      inv q' \<and> contents q' = tl (contents q) \<and> rd q' i = hd (contents q) \<and> room q' = room q"
begin

text \<open>Any run the list semantics allows has the same results on the implementation.\<close>

lemma run_refines:
  assumes "inv q" and "run_list ok (room q) ops (contents q) = Some (out, xs)"
  shows "\<exists>q'. run_ring enq deq rd wr ops q = (out, q') \<and> inv q' \<and> contents q' = xs"
  using assms
proof (induction ops arbitrary: q out)
  case Nil
  then show ?case by simp
next
  case (Cons op ops)
  show ?case
  proof (cases op)
    case (Push x)
    obtain i q1 where e: "enq q = (i, q1)"
      by force
    have p: "length (contents q) < room q" "ok x"
      "run_list ok (room q) ops (contents q @ [x]) = Some (out, xs)"
      using Cons.prems(2) Push by (auto split: if_splits)
    from enq_wr [OF Cons.prems(1) p(1,2) e] p(3) show ?thesis
      using Cons.IH [of "wr q1 i x" out] by (simp add: Push e)
  next
    case Pop
    obtain i q1 where d: "deq q = (i, q1)"
      by force
    obtain y ys out' where p: "contents q = y # ys" "out = y # out'"
      "run_list ok (room q) ops ys = Some (out', xs)"
      using Cons.prems(2) Pop by (auto split: list.splits)
    from deq [OF Cons.prems(1) _ d] p show ?thesis
      using Cons.IH [of q1 out'] by (auto simp: Pop d)
  qed
qed

end

interpretation ring: packet_queue wf_buf items cap wf_pkt pktbuf_enqueue pktbuf_dequeue slot set_slot
proof unfold_locales
  fix q :: pktbuf and x i q'
  assume q: "wf_buf q" "length (items q) < cap q" "wf_pkt x" "pktbuf_enqueue q = (i, q')"
  then have u: "used q < cap q" and q': "q' = snd (pktbuf_enqueue q)" and i: "i = slot_index q (used q)"
    using enqueue_slot [of q] by simp_all
  note e = enqueue_items [OF q(1) u] enqueue_used [OF q(1) u]
  then show "wf_buf (set_slot q' i x) \<and> items (set_slot q' i x) = items q @ [x] \<and>
      cap (set_slot q' i x) = cap q"
    using items_set_slot [OF e(1), of "used q" x] q(3) list_update_length [of "items q" _ "[]" x]
    by (simp add: q' i)
next
  fix q :: pktbuf and i q'
  assume q: "wf_buf q" "items q \<noteq> []" "pktbuf_dequeue q = (i, q')"
  then have u: "0 < used q" and q': "q' = snd (pktbuf_dequeue q)" and i: "i = fst (pktbuf_dequeue q)"
    by (auto simp: items_def)
  show "wf_buf q' \<and> items q' = tl (items q) \<and> slot q' i = hd (items q) \<and> cap q' = cap q"
    using dequeue_items [OF q(1) u] u q(2) by (simp add: q' i hd_conv_nth)
qed

section \<open>What the ring promises\<close>

lemma popcount_powers: "popcount 4 = 1" "popcount 32 = 1"
  by code_simp+

lemma new_buffers: "\<exists>buf. pktbuf_new True 4 = Inr (Some buf)" "\<exists>buf. pktbuf_new True 32 = Inr (Some buf)"
  by (simp_all add: pktbuf_new_def popcount_powers)

lemma popcount_pow2:
  assumes "popcount w = 1"
  shows "\<exists>k<32. unat w = 2 ^ k"
proof -
  obtain k where k: "filter (bit w) [0..<32] = [k]"
    using assms by (auto simp: popcount_def length_Suc_conv)
  have "n \<in> set (filter (bit w) [0..<32]) \<longleftrightarrow> n = k" for n
    by (simp only: k) simp
  then have b: "n < 32 \<and> bit w n \<longleftrightarrow> n = k" for n
    by simp
  then have "k < 32"
    by blast
  have "w = 2 ^ k"
    by (rule bit_word_eqI) (use b in \<open>auto simp: bit_exp_iff\<close>)
  then have "w = of_nat (2 ^ k)"
    by simp
  moreover have "(2 :: nat) ^ k < 2 ^ 32"
    using \<open>k < 32\<close> by (intro power_strict_increasing) simp_all
  moreover have "unat (of_nat (2 ^ k) :: u32) = 2 ^ k mod 2 ^ LENGTH(32)"
    by (rule unat_of_nat)
  ultimately have "unat w = 2 ^ k"
    by simp
  then show ?thesis
    using \<open>k < 32\<close> by blast
qed

lemma pktbuf_new_wf:
  assumes "pktbuf_new calloc_ok c = Inr (Some b)"
  shows "wf_buf b" "items b = []" "cap b = unat c" "used b = 0"
proof -
  have b: "popcount c = 1" "c \<le> 0x7fffffff"
    "b = \<lparr>b_first = 0, b_last = 0, b_capacity = c, b_head = replicate (unat c) pkt_zero\<rparr>"
    using assms by (auto simp: pktbuf_new_def split: if_splits)
  show u: "used b = 0"
    by (simp add: b(3) used_def pktbuf_used_def)
  then show "items b = []" "cap b = unat c"
    by (simp_all add: items_def b(3) cap_def)
  obtain k where k: "k < 32" "unat c = 2 ^ k"
    using popcount_pow2 [OF b(1)] by blast
  moreover have "k \<noteq> 31"
    using b(2) k(2) by (auto simp: word_le_nat_alt)
  ultimately show "wf_buf b"
    by (auto simp: wf_buf_def b(3) pktbuf_used_def list_all_iff intro!: exI [of _ k])
qed

text \<open>
  C18. The ring is a queue: starting from a new ring of any capacity \<open>pktbuf_new\<close> allows, in
  any sequence of enqueues (each filled through the returned pointer) and dequeues that never
  adds to a full ring or takes from an empty one, the packets come out in the order they went
  in, whatever the number of operations (the counters wrap around). This is what \<open>pktbuf.h\<close> says
  (\<open>pktbuf_dequeue\<close> returns the first item) and what the protocol needs. One test,
  \<open>test_slotforseq\<close> in \<open>tests/test_pktbuf.c\<close>, expects the opposite order of four packets, although it
  asserts of \<open>pktbuf_first\<close> that the first is the oldest one: its assertions fail on this code
  (\<open>slots_in_order\<close> below has its calls and what they return).
\<close>

theorem pktbuf_fifo:
  assumes "pktbuf_new True c = Inr (Some b)"
    and "run_list wf_pkt (unat c) ops [] = Some (out, xs)"
  shows "\<exists>b'. run_ring pktbuf_enqueue pktbuf_dequeue slot set_slot ops b = (out, b') \<and> items b' = xs"
  using ring.run_refines [of b ops out xs] pktbuf_new_wf [OF assms(1)] assms(2) by auto

theorem pktbuf_fifo_witness:
  "\<exists>b b'. pktbuf_new True 2 = Inr (Some b) \<and>
     run_ring pktbuf_enqueue pktbuf_dequeue slot set_slot
       [Push pkt_zero, Pop, Push (pkt_zero\<lparr>p_seq := 1\<rparr>), Push pkt_zero, Pop] b =
       ([pkt_zero, pkt_zero\<lparr>p_seq := 1\<rparr>], b') \<and> items b' = [pkt_zero]"
proof -
  have "popcount 2 = 1"
    by code_simp
  then obtain b where b: "pktbuf_new True 2 = Inr (Some b)"
    by (simp add: pktbuf_new_def)
  have "run_list wf_pkt (unat (2 :: u32))
      [Push pkt_zero, Pop, Push (pkt_zero\<lparr>p_seq := 1\<rparr>), Push pkt_zero, Pop] [] =
      Some ([pkt_zero, pkt_zero\<lparr>p_seq := 1\<rparr>], [pkt_zero])"
    by simp
  from pktbuf_fifo [OF b this] b show ?thesis
    by blast
qed

text \<open>
  \<open>pktbuf_new\<close> stops the process exactly when the capacity is not a power of two below
  \<open>2^31\<close>; otherwise, when memory is available, it returns a well-formed empty ring.
\<close>

theorem pktbuf_new_result:
  "pktbuf_new True c =
     (if \<exists>k<31. unat c = 2 ^ k
      then Inr (Some \<lparr>b_first = 0, b_last = 0, b_capacity = c,
                     b_head = replicate (unat c) pkt_zero\<rparr>)
      else Inl Exit_failure)"
proof (cases "\<exists>k<31. unat c = 2 ^ k")
  case True
  then obtain k where k: "k < 31" "unat c = 2 ^ k"
    by blast
  have "c = of_nat (unat c)"
    by simp
  then have c: "c = 2 ^ k"
    by (simp only: k(2) of_nat_power of_nat_numeral)
  have "filter (bit c) [0..<32] = filter (\<lambda>n. n = k) [0..<32]"
    using k(1) by (intro filter_cong) (auto simp: c bit_exp_iff)
  moreover have "filter (\<lambda>n. n = k) [0..<m] = (if k < m then [k] else [])" for m
    by (induction m) auto
  ultimately have "popcount c = 1"
    using k(1) by (simp add: popcount_def)
  moreover have "(2 :: nat) ^ k \<le> 2 ^ 30"
    using k(1) by (intro power_increasing) simp_all
  then have "c \<le> 0x7fffffff"
    using k(2) by (simp add: word_le_nat_alt)
  ultimately show ?thesis
    using True by (simp add: pktbuf_new_def)
next
  case False
  have "popcount c = 1 \<Longrightarrow> \<not> c \<le> 0x7fffffff"
  proof
    assume p: "popcount c = 1" and le: "c \<le> 0x7fffffff"
    then obtain k where "k < 32" "unat c = 2 ^ k"
      using popcount_pow2 by blast
    moreover from this have "k \<noteq> 31"
      using le by (auto simp: word_le_nat_alt)
    ultimately show False
      using False by auto
  qed
  then show ?thesis
    using False by (auto simp: pktbuf_new_def)
qed

text \<open>
  C19. On a ring whose packets carry consecutive sequence numbers, \<open>pktbuf_slotfor_seq\<close>
  returns, for any sequence number less than the capacity ahead of the first, a slot that
  carries that number (the check only the debug build makes), keeps every packet already in
  the ring and keeps the numbering consecutive.
\<close>

theorem slotfor_seq_correct:
  assumes "wf_buf b" and "seq_from s (items b)" and "used b \<noteq> 0" and "unat (seq - s) < cap b"
  shows "\<exists>i b'. pktbuf_slotfor_seq b seq = Inr (i, b') \<and> p_seq (slot b' i) = seq \<and>
    wf_buf b' \<and> seq_from s (items b') \<and> take (used b) (items b') = items b \<and>
    used b' = max (used b) (Suc (unat (seq - s)))"
proof -
  let ?d = "unat (seq - s)"
  obtain b' where b': "pktbuf_slotfor_seq b seq = Inr (slot_index b ?d, b')" "wf_buf b'"
    "used b' = max (used b) (Suc ?d)" "seq_from s (items b')"
    "take (used b) (items b') = items b" "slot_index b' = slot_index b"
    using slotfor_seq_ok [OF assms] by blast
  have "?d < used b'"
    using b'(3) by simp
  then have "p_seq (slot b' (slot_index b ?d)) = s + of_nat ?d"
    using b'(4,6) by (auto simp: seq_from_def)
  also have "\<dots> = seq"
    by simp
  finally show ?thesis
    using b' by blast
qed

text \<open>
  C26. The check of the distance in \<open>pktbuf_slotfor_seq\<close> is off by one: at a distance equal
  to the capacity it does not stop the process; the ring then counts one packet more than it
  has slots, and the slot returned is the one of the first packet, whose sequence number has
  been overwritten.
\<close>

theorem slotfor_seq_off_by_one:
  assumes "wf_buf b" and "seq_from s (items b)" and "used b \<noteq> 0" and "unat (seq - s) = cap b"
  shows "\<exists>b'. pktbuf_slotfor_seq b seq = Inr (slot_index b 0, b') \<and> used b' = Suc (cap b') \<and>
    pktbuf_first b = Some (slot_index b 0) \<and> p_seq (slot b' (slot_index b 0)) = seq"
  using slotfor_seq_at_cap [OF assms] pktbuf_first_eq [OF assms(1)] assms(3) by auto

definition demo_ring :: pktbuf where
  "demo_ring = \<lparr>b_first = 1, b_last = 2, b_capacity = 2, b_head = [pkt_zero, pkt_zero\<lparr>p_seq := 5\<rparr>]\<rparr>"

lemma demo_ring [simp]: "wf_buf demo_ring" "used demo_ring = 1" "cap demo_ring = 2"
  "seq_from 5 (items demo_ring)"
proof -
  show "wf_buf demo_ring"
    by (auto simp: wf_buf_def demo_ring_def pktbuf_used_def intro!: exI [of _ "1 :: nat"])
  show "used demo_ring = 1" "cap demo_ring = 2"
    by (simp_all add: demo_ring_def used_def cap_def pktbuf_used_def)
  then show "seq_from 5 (items demo_ring)"
    by (simp add: seq_from_def slot_index_def demo_ring_def slot_def)
qed

theorem slotfor_seq_correct_witness:
  "\<exists>i b'. pktbuf_slotfor_seq demo_ring 6 = Inr (i, b') \<and> p_seq (slot b' i) = 6 \<and>
    wf_buf b' \<and> seq_from 5 (items b') \<and> take (used demo_ring) (items b') = items demo_ring \<and>
    used b' = max (used demo_ring) (Suc (unat ((6 :: u8) - 5)))"
  by (rule slotfor_seq_correct) simp_all

theorem slotfor_seq_off_by_one_witness:
  "\<exists>b'. pktbuf_slotfor_seq demo_ring 7 = Inr (slot_index demo_ring 0, b') \<and> used b' = Suc (cap b') \<and>
    pktbuf_first demo_ring = Some (slot_index demo_ring 0) \<and> p_seq (slot b' (slot_index demo_ring 0)) = 7"
  by (rule slotfor_seq_off_by_one [where s = 5]) simp_all

text \<open>
  \<open>pktbuf_at\<close> compares the masked index, not the distance from the first packet, with
  the number of packets: the j-th packet of the ring, asked for by its counter as
  \<open>foreach_pktbuf\<close> does, is found exactly when its slot number happens to be below the
  number of packets; otherwise the process stops.
\<close>

theorem pktbuf_at_item:
  assumes "wf_buf b" and "j < used b"
  shows "pktbuf_at b (b_first b + of_nat j) =
    (if slot_index b j < used b then Inr (slot_index b j) else Inl Exit_failure)"
  using buf_get_first [OF assms(1), of j]
  by (simp add: pktbuf_at_def Let_def word_less_nat_alt buf_get_def used_def)

theorem pktbuf_at_item_witness:
  "pktbuf_at demo_ring (b_first demo_ring + of_nat 0) =
    (if slot_index demo_ring 0 < used demo_ring then Inr (slot_index demo_ring 0)
     else Inl Exit_failure)"
  by (rule pktbuf_at_item) simp_all

section \<open>Slots come out in order\<close>

text \<open>Asking for the slots of several sequence numbers.\<close>

fun slots_for :: "u8 list \<Rightarrow> pktbuf \<Rightarrow> pktbuf res" where
  "slots_for [] b = Inr b"
| "slots_for (n # ns) b = rbind (pktbuf_slotfor_seq b n) (\<lambda>(_, b). slots_for ns b)"

lemma slots_for_used:
  assumes "wf_buf b" and "seq_from s (items b)" and "used b \<noteq> 0" and "\<forall>n \<in> set ns. unat (n - s) < cap b"
  shows "\<exists>b'. slots_for ns b = Inr b' \<and> wf_buf b' \<and> seq_from s (items b') \<and>
    used b' = fold (\<lambda>n. max (Suc (unat (n - s)))) ns (used b)"
  using assms
proof (induction ns arbitrary: b)
  case (Cons n ns)
  obtain i b1 where b1: "pktbuf_slotfor_seq b n = Inr (i, b1)" "wf_buf b1" "used b1 = max (Suc (unat (n - s))) (used b)"
    "seq_from s (items b1)" "cap b1 = cap b"
    using slotfor_seq_ok [OF Cons.prems(1-3), of n] Cons.prems(4) by (auto simp: max.commute)
  moreover have "used b1 \<noteq> 0" "\<forall>n \<in> set ns. unat (n - s) < cap b1"
    using b1(3,5) Cons.prems(4) by auto
  ultimately show ?case
    using Cons.IH [of b1] by simp
qed simp

lemma run_list_pops: "run_list ok n (replicate (length xs) Pop) xs = Some (xs, [])"
  by (induction xs) simp_all

lemma pops_all:
  assumes "wf_buf b"
  shows "\<exists>b'. run_ring pktbuf_enqueue pktbuf_dequeue slot set_slot (replicate (used b) Pop) b = (items b, b') \<and> pktbuf_empty b'"
proof -
  obtain b' where "run_ring pktbuf_enqueue pktbuf_dequeue slot set_slot (replicate (used b) Pop) b = (items b, b')"
    "items b' = []"
    using ring.run_refines [OF assms run_list_pops [of wf_pkt "cap b" "items b"]] by auto
  moreover from this(2) have "used b' = 0"
    using length_items [of b'] by simp
  ultimately show ?thesis
    by (auto simp: used_eq_0)
qed

text \<open>
  On an empty ring, after a first call of \<open>pktbuf_slotfor_seq\<close> with the number \<open>s\<close> and any others
  with numbers less than the capacity ahead of it, repeated ones included, the ring holds one slot
  for each number from \<open>s\<close> to the highest, and \<open>pktbuf_dequeue\<close> returns them in ascending order, as
  the comment in \<open>pktbuf.h\<close> says (the first item is returned). The test of this function asks for
  2, 5 and 2, and then expects them to come out as 5, 4, 3, 2.
\<close>

theorem slots_in_order:
  assumes "wf_buf b" and "pktbuf_empty b" and "\<forall>n \<in> set ns. unat (n - s) < cap b"
  shows "\<exists>b' b'' ps. slots_for (s # ns) b = Inr b' \<and>
    used b' = fold (\<lambda>n. max (Suc (unat (n - s)))) ns 1 \<and>
    run_ring pktbuf_enqueue pktbuf_dequeue slot set_slot (replicate (used b') Pop) b' = (ps, b'') \<and>
    map p_seq ps = map (\<lambda>j. s + of_nat j) [0..<used b'] \<and> pktbuf_empty b''"
proof -
  obtain i b1 where b1: "pktbuf_slotfor_seq b s = Inr (i, b1)" "wf_buf b1" "used b1 = 1" "cap b1 = cap b" "seq_from s (items b1)"
    using slotfor_seq_empty [OF assms(1), of s] assms(2) by (auto simp: used_eq_0 seq_from_Cons)
  obtain b' where b': "slots_for ns b1 = Inr b'" "wf_buf b'" "seq_from s (items b')"
    "used b' = fold (\<lambda>n. max (Suc (unat (n - s)))) ns 1"
    using slots_for_used [OF b1(2,5), of ns] b1(3,4) assms(3) by auto
  have "map p_seq (items b') = map (\<lambda>j. s + of_nat j) [0..<used b']"
    using b'(3) by (intro nth_equalityI) (simp_all add: seq_from_def)
  then show ?thesis
    using b1(1) b'(1,4) pops_all [OF b'(2)] by auto
qed

theorem slots_in_order_witness:
  "\<exists>b b' b'' ps. pktbuf_new True 32 = Inr (Some b) \<and> slots_for [2, 5, 2] b = Inr b' \<and> used b' = 4 \<and>
    run_ring pktbuf_enqueue pktbuf_dequeue slot set_slot (replicate 4 Pop) b' = (ps, b'') \<and> map p_seq ps = [2, 3, 4, 5]"
proof -
  obtain b where b: "pktbuf_new True 32 = Inr (Some b)"
    using new_buffers(2) by blast
  note n = pktbuf_new_wf [OF b]
  have "pktbuf_empty b" "\<forall>n \<in> set [5, 2]. unat (n - 2 :: u8) < cap b"
    using n by (simp_all add: used_eq_0)
  from slots_in_order [OF n(1) this] obtain b' b'' ps where r: "slots_for (2 # [5, 2]) b = Inr b'"
    "used b' = fold (\<lambda>n. max (Suc (unat (n - 2 :: u8)))) [5, 2] 1"
    "run_ring pktbuf_enqueue pktbuf_dequeue slot set_slot (replicate (used b') Pop) b' = (ps, b'')"
    "map p_seq ps = map (\<lambda>j. 2 + of_nat j) [0..<used b']"
    by blast
  have four: "used b' = 4"
    using r(2) by simp
  have "map (\<lambda>j. 2 + of_nat j :: u8) [0..<4] = [2, 3, 4, 5]"
    by (simp add: upt_rec)
  then have "map p_seq ps = [2, 3, 4, 5]"
    using r(4) unfolding four by simp
  then show ?thesis
    by (intro exI [of _ b] exI [of _ b'] exI [of _ b''] exI [of _ ps] conjI b r(1) four r(3) [unfolded four])
qed

end
