(* ===== verification/Receiver_Props.thy ===== *)
theory Receiver_Props
  imports Receiver_Spec Pktbuf_Props
begin

text \<open>
  What the receiver promises: the window it announces, what it writes to the output file
  whatever the file does, and that its main loop implements the selective-repeat
  specification while the file keeps up; then the three situations in which it does not.
\<close>

unbundle bit_operations_syntax

section \<open>The announced window\<close>

text \<open>
  The window announced is the maximal window less the number of packets that wait in
  sequence at the front of the buffer, for any mask.
\<close>

lemma window_size_counts:
  "window_size s = r_max_window s - of_nat (length (takeWhile (bit (r_oos_mask s)) [0..<32]))"
  using window_size_eq [of s] by (simp only: ones_def)

text \<open>
  \<open>send_ack\<close>, when the socket takes the datagram, sends a valid ACK segment with the
  expected sequence number, the last timestamp and the current window, and the same again
  every time it is called: the static packet it encodes in place keeps its other fields.
\<close>

theorem send_ack_sends:
  assumes "acks_ok s" and "e_wr s = []"
  shows "\<exists>s' d. send_ack crc s = Inr (NET_OK, s') \<and> acks_ok s' \<and> e_tx s' = e_tx s @ [d] \<and>
    datagram_of crc (answer 2 (r_expected_seq s) (r_last_ts s) (window_size s)) d"
proof -
  let ?a = "answer 2 (r_expected_seq s) (r_last_ts s) (window_size s)"
  obtain s' where s': "send_ack crc s = Inr (NET_OK, s')" "acks_ok s'"
    "s' = (after_write (wire_of crc ?a) s)\<lparr>r_ack_pkt := r_ack_pkt s'\<rparr>"
    using send_ack_ok [OF assms(1)] assms(2) by (auto simp: write_ok_def)
  have "e_tx s' = e_tx s @ [wire_of crc ?a]"
    by (subst s'(3)) (simp add: after_write_def)
  moreover have "datagram_of crc ?a (wire_of crc ?a)"
    by (simp add: datagram_of_def valid_segment_def answer_def)
  ultimately show ?thesis
    using s'(1,2) by blast
qed

definition demo_buf :: pktbuf where
  "demo_buf = \<lparr>b_first = 0, b_last = 0, b_capacity = 32, b_head = replicate 32 pkt_zero\<rparr>"

definition demo_receiver :: receiver where
  "demo_receiver = receiver_init 31 demo_buf
    (demo_env\<lparr>e_rx := [Rx [] (wire_of demo_crc (demo_data\<lparr>s_seq := 0\<rparr>))]\<rparr>)"

lemma demo_acks_ok: "acks_ok demo_receiver"
  by (simp add: acks_ok_def demo_receiver_def receiver_init_def ack_pkt_init_def nack_pkt_init_def
      pkt_zero_def wf_pkt_def)

lemma demo_receiver_env: "e_wr demo_receiver = []"
  by (simp add: demo_receiver_def receiver_init_def demo_env_def)

theorem send_ack_sends_witness:
  "\<exists>s' d. send_ack demo_crc demo_receiver = Inr (NET_OK, s') \<and> acks_ok s' \<and>
    e_tx s' = e_tx demo_receiver @ [d] \<and>
    datagram_of demo_crc (answer 2 (r_expected_seq demo_receiver) (r_last_ts demo_receiver)
      (window_size demo_receiver)) d"
  by (rule send_ack_sends [OF demo_acks_ok demo_receiver_env])

section \<open>The output file\<close>

lemma wf_demo_buf: "wf_buf demo_buf" "used demo_buf = 0" "cap demo_buf = 32" "items demo_buf = []"
  by (auto simp: wf_buf_def demo_buf_def used_def cap_def items_def pktbuf_used_def list_all_iff
      intro!: exI [of _ 5])

lemma demo_idle: "keeping_up demo_receiver"
proof -
  have "ones 0 = 0" "r_oos_mask demo_receiver = 0" "r_buf demo_receiver = demo_buf"
    "r_max_window demo_receiver = 31"
    by (simp_all add: ones_0_iff demo_receiver_def receiver_init_def)
  then have "idle demo_receiver"
    using wf_demo_buf by (simp add: idle_def synced_def)
  then show ?thesis
    using demo_acks_ok demo_receiver_env
    by (simp add: keeping_up_def) (simp add: demo_receiver_def receiver_init_def)
qed

text \<open>
  C20. What \<open>do_empty_rbuf\<close> does, for any results of the writes: the payloads of the packets in
  sequence at the front of the buffer are written one after the other (\<open>drain\<close>), until all are
  written (it returns 0), the file would block (0) or a write fails or is short (-1). Exactly the
  packets written whole leave the buffer, and their bits the mask; the length of the last packet
  tried is kept, because an empty one ends the transfer; the invariant holds again and nothing else
  changes. What is written is always the first bytes of the packets in sequence, and all of them
  when the file takes what it is given.
\<close>

theorem do_empty_rbuf_exact:
  assumes "synced s" and "bs = map payload_of (take (ones (r_oos_mask s)) (items (r_buf s)))"
    and "drain bs (r_out_results s) = (j, out, r, rs)"
  shows "(\<exists>s'. do_empty_rbuf s = Inr (r, s') \<and> synced s' \<and> items (r_buf s') = drop j (items (r_buf s)) \<and>
      r_oos_mask s' = drop_bit j (r_oos_mask s) \<and> r_out s' = r_out s @ out \<and> r_out_results s' = rs \<and>
      r_last_written_len s' = (if bs = [] then r_last_written_len s else int (length (bs ! min j (length bs - 1)))) \<and>
      out_frame s s') \<and>
    (\<exists>n. out = concat (take j bs) @ take n (concat (drop j bs))) \<and>
    (r_out_results s = [] \<longrightarrow> j = length bs \<and> out = concat bs \<and> r = 0)"
proof -
  have l: "length bs = ones (r_oos_mask s)"
    using synced_ones [OF assms(1)] by (simp add: assms(2))
  have n: "bs ! i = payload_of (items (r_buf s) ! i)" if "i < length bs" for i
    using that unfolding assms(2) by simp
  have m: "min j (length bs - 1) < length bs" if "bs \<noteq> []"
    using that by (cases bs) simp_all
  obtain s' where "do_empty_rbuf s = Inr (r, s')" "synced s'" "items (r_buf s') = drop j (items (r_buf s))"
    "r_oos_mask s' = drop_bit j (r_oos_mask s)" "r_out s' = r_out s @ out" "r_out_results s' = rs" "out_frame s s'"
    "length bs \<noteq> 0 \<longrightarrow> r_last_written_len s' = int (length (payload_of (items (r_buf s) ! min j (length bs - 1))))"
    "length bs = 0 \<longrightarrow> r_last_written_len s' = r_last_written_len s"
    using do_empty_rbuf_drains [OF assms(1) assms(3) [unfolded assms(2)], folded l]
    by (elim exE conjE) (rule that; assumption)
  then have "do_empty_rbuf s = Inr (r, s') \<and> synced s' \<and> items (r_buf s') = drop j (items (r_buf s)) \<and>
      r_oos_mask s' = drop_bit j (r_oos_mask s) \<and> r_out s' = r_out s @ out \<and> r_out_results s' = rs \<and>
      r_last_written_len s' = (if bs = [] then r_last_written_len s else int (length (bs ! min j (length bs - 1)))) \<and>
      out_frame s s'"
    using n [OF m] by (simp del: length_greater_0_conv)
  moreover have "r_out_results s = [] \<longrightarrow> j = length bs \<and> out = concat bs \<and> r = 0"
    using assms(3) drain_all [of bs] by auto
  ultimately show ?thesis
    using drain_part [OF assms(3)] by blast
qed

text \<open>Two chunks wait in sequence, because the output file was blocking.\<close>

definition demo_chunk :: "u8 \<Rightarrow> pkt" where
  "demo_chunk s = pkt_zero\<lparr>p_type := 1, p_seq := s, p_length := 2\<rparr>"

definition demo_pending :: receiver where
  "demo_pending = (receiver_init 31
      \<lparr>b_first = 0, b_last = 2, b_capacity = 32,
       b_head = demo_chunk 0 # demo_chunk 1 # replicate 30 pkt_zero\<rparr>
      (demo_env\<lparr>e_rx := [Rx [] (wire_of demo_crc (demo_data\<lparr>s_seq := 2\<rparr>))]\<rparr>))
    \<lparr>r_oos_mask := 3, r_expected_seq := 2\<rparr>"

lemma bit_3: "bit (3 :: u32) j \<longleftrightarrow> j = 0 \<or> j = 1"
  by (cases j; cases "j - 1") (auto simp: bit_Suc bit_0)

lemma ones_3: "ones 3 = 2"
  by (rule ones_eqI) (auto simp: bit_3 less_2_cases_iff)

lemma demo_pending:
  "synced demo_pending" "r_oos_mask demo_pending = 3" "r_expected_seq demo_pending = 2"
  "e_rx demo_pending = [Rx [] (wire_of demo_crc (demo_data\<lparr>s_seq := 2\<rparr>))]"
  "used (r_buf demo_pending) = 2" "items (r_buf demo_pending) = [demo_chunk 0, demo_chunk 1]"
proof -
  let ?b = "r_buf demo_pending"
  show u: "used ?b = 2" "r_oos_mask demo_pending = 3" "r_expected_seq demo_pending = 2"
    "e_rx demo_pending = [Rx [] (wire_of demo_crc (demo_data\<lparr>s_seq := 2\<rparr>))]"
    by (simp_all add: demo_pending_def receiver_init_def used_def pktbuf_used_def)
  have two: "[0..<2] = [0, Suc 0]"
    by (simp add: upt_rec)
  show i: "items ?b = [demo_chunk 0, demo_chunk 1]"
    unfolding items_def u(1) two
    by (simp add: slot_def slot_index_def demo_pending_def receiver_init_def)
  have "wf_buf ?b"
    by (auto simp: wf_buf_def demo_pending_def receiver_init_def demo_chunk_def pktbuf_used_def
        list_all_iff word_le_nat_alt intro!: exI [of _ 5])
  moreover have "cap ?b = 32" "r_max_window demo_pending = 31"
    by (simp_all add: demo_pending_def receiver_init_def cap_def)
  moreover have "whole_pkt (demo_chunk s)" for s
    by (simp add: whole_pkt_def demo_chunk_def pkt_zero_def)
  moreover have "bit (r_oos_mask demo_pending) j \<longleftrightarrow> j = 0 \<or> j = 1"
    "ones (r_oos_mask demo_pending) = 2" for j
    by (simp_all only: u(2) ones_3 bit_3)
  ultimately show "synced demo_pending"
    using u(1,3) i by (auto simp: synced_def seq_from_Cons) (simp_all add: demo_chunk_def)
qed

theorem do_empty_rbuf_exact_witness:
  "\<exists>s'. do_empty_rbuf (demo_pending\<lparr>r_out_results := [Out_len 2, Out_len 1]\<rparr>) = Inr (-1, s') \<and>
    r_out s' = r_out demo_pending @ [0, 0, 0] \<and> r_oos_mask s' = 1"
proof -
  let ?s = "demo_pending\<lparr>r_out_results := [Out_len 2, Out_len 1]\<rparr>"
  have s: "synced ?s" "r_oos_mask ?s = 3" "items (r_buf ?s) = [demo_chunk 0, demo_chunk 1]"
    using demo_pending(1,2,6) by (simp_all add: synced_def)
  have p: "payload_of (demo_chunk i) = [0, 0]" for i
    by (simp add: payload_of_def demo_chunk_def pkt_zero_def) (simp add: numeral_2_eq_2)
  have d: "drain [[0, 0], [0, 0]] (r_out_results ?s) = (1, [0, 0, 0], -1, [])"
    by simp
  have bs: "[[0, 0], [0, 0]] = map payload_of (take (ones (r_oos_mask ?s)) (items (r_buf ?s)))"
    unfolding s(2,3) ones_3 by (simp add: p)
  from do_empty_rbuf_exact [OF s(1) bs d] show ?thesis
    unfolding s(2) by (auto simp: drop_bit_Suc)
qed

section \<open>The main loop\<close>

text \<open>The datagrams received, in order, and the segment each one carries.\<close>

definition carried :: "crc_fun \<Rightarrow> rx_event list \<Rightarrow> segment option list \<Rightarrow> bool" where
  "carried crc evs css \<longleftrightarrow>
     list_all2 (\<lambda>ev cs. \<exists>src d. ev = Rx src d \<and> carries crc d cs) evs css"

definition a_run :: "segment option list \<Rightarrow> areceiver \<Rightarrow> areceiver" where
  "a_run css a = fold a_event css a"

fun a_answers :: "segment option list \<Rightarrow> areceiver \<Rightarrow> segment list" where
  "a_answers [] a = []"
| "a_answers (cs # css) a = a_answer cs a # a_answers css (a_event cs a)"

lemma a_run_simps [simp]: "a_run [] a = a" "a_run (cs # css) a = a_run css (a_event cs a)"
  by (simp_all add: a_run_def)

lemma ex_carries: "\<exists>cs. carries crc d cs"
proof (cases "\<exists>seg. datagram_of crc seg (take 528 d)")
  case True
  then obtain seg where "datagram_of crc seg (take 528 d)" ..
  then show ?thesis
    by (intro exI [of _ "Some seg"]) (simp add: carries_def)
next
  case False
  then show ?thesis
    by (intro exI [of _ None]) (simp add: carries_def)
qed

lemma quiet_round:
  assumes "keeping_up s"
  shows "receive_ready crc file_ev False s = Inr (True, False, s)" "clear_needs s = s"
proof -
  note k = assms [unfolded keeping_up_def]
  have "\<not> can_empty_rbuf s" "do_empty_rbuf s = Inr (0, s)"
    using k idle_can_empty by (simp_all add: do_empty_rbuf.simps [of s] and_1_bit idle_def)
  then show "receive_ready crc file_ev False s = Inr (True, False, s)"
    using k by (simp add: receive_ready_def)
  show "clear_needs s = s"
    using k by (cases s) (simp add: clear_needs_def)
qed

text \<open>The socket reports an error, or nothing is there to read.\<close>

lemma failing_round:
  assumes "keeping_up s"
  shows "e_rx s = [] \<Longrightarrow> receive_ready crc file_ev True s = Inl Blocked"
    and "e_rx s = Rx_error # evs \<Longrightarrow> \<exists>s'. receive_ready crc file_ev True s = Inr (False, True, s') \<and>
      r_out s' = r_out s \<and> e_tx s' = e_tx s"
proof -
  have idle: "idle s"
    using assms by (simp add: keeping_up_def)
  then obtain b where b: "pktbuf_slotfor_seq (r_buf s) (r_expected_seq s) = Inr (slot_index b 0, b)"
    using reserve_expected by (auto simp: idle_def)
  show "e_rx s = [] \<Longrightarrow> receive_ready crc file_ev True s = Inl Blocked"
    using b by (simp add: receive_ready_def do_read_sock_def do_receive_data_def Let_def
        discard_incoming_data_def net_recv_pkt_def net_recvfrom_def sys_recv_def)
  show "\<exists>s'. receive_ready crc file_ev True s = Inr (False, True, s') \<and>
      r_out s' = r_out s \<and> e_tx s' = e_tx s" if "e_rx s = Rx_error # evs"
    using b that by (cases "rbuf_full s") (simp_all add: receive_ready_def do_read_sock_def
        do_receive_data_def Let_def discard_incoming_data_def net_recv_pkt_def net_recvfrom_def
        sys_recv_def put_slot_def)
qed

definition loop_result :: "crc_fun \<Rightarrow> receiver \<Rightarrow> areceiver
    \<Rightarrow> (bool \<times> poll_result list \<times> receiver) res \<Rightarrow> bool" where
  "loop_result crc s a res \<longleftrightarrow>
    (case res of
       Inl f \<Rightarrow> f = Blocked
     | Inr (ok, polls, s') \<Rightarrow>
         \<exists>css. carried crc (take (length css) (e_rx s)) css \<and> r_out s' = a_out (a_run css a) \<and>
           e_tx s' = e_tx s @ map (wire_of crc) (a_answers css a) \<and>
           (ok \<longrightarrow> keeping_up s' \<and> a_last (a_run css a) = 0))"

lemma loop_result_Cons:
  assumes "loop_result crc s1 (a_event cs a) res"
    and "e_rx s = Rx src d # e_rx s1" and "carries crc d cs"
    and "e_tx s1 = e_tx s @ [wire_of crc (a_answer cs a)]"
  shows "loop_result crc s a res"
proof (cases res)
  case (Inr x)
  then obtain ok polls s' css where x: "x = (ok, polls, s')"
    "carried crc (take (length css) (e_rx s1)) css" "r_out s' = a_out (a_run css (a_event cs a))"
    "e_tx s' = e_tx s1 @ map (wire_of crc) (a_answers css (a_event cs a))"
    "ok \<longrightarrow> keeping_up s' \<and> a_last (a_run css (a_event cs a)) = 0"
    using assms(1) by (cases x) (auto simp: loop_result_def)
  then show ?thesis
    using Inr assms(2-4)
    by (auto simp: loop_result_def carried_def intro!: exI [of _ "cs # css"])
qed (use assms(1) in \<open>simp add: loop_result_def\<close>)

definition loop_next ::
  "crc_fun \<Rightarrow> poll_result list \<Rightarrow> receiver \<Rightarrow> (bool \<times> poll_result list \<times> receiver) res" where
  "loop_next crc polls s =
    (if r_last_written_len s \<noteq> 0 \<or> \<not> pktbuf_empty (r_buf s)
     then receive_loop crc False polls s else Inr (True, polls, s))"

lemma loop_go:
  "receive_ready crc (both \<and> file_ev) sock_ev s = Inr (True, False, s1) \<Longrightarrow>
    receive_loop crc both (Poll_ready file_ev sock_ev # polls) s = loop_next crc polls (clear_needs s1)"
  by (simp add: clear_needs_def loop_next_def)

lemma loop_finish:
  assumes "keeping_up s" and "loop_result crc s (abs_receiver s) (receive_loop crc False polls s)"
  shows "loop_result crc s (abs_receiver s) (loop_next crc polls s)"
  using assms by (auto simp: loop_next_def loop_result_def carried_def intro!: exI [of _ "[]"])

lemma loop_stop:
  "r_out s' = r_out s \<Longrightarrow> e_tx s' = e_tx s \<Longrightarrow>
    loop_result crc s (abs_receiver s) (Inr (False, ps, s'))"
  by (auto simp: loop_result_def carried_def intro!: exI [of _ "[]"])

lemma clear_needs_fields [simp]:
  "abs_receiver (clear_needs s) = abs_receiver s" "e_rx (clear_needs s) = e_rx s"
  "e_tx (clear_needs s) = e_tx s"
  by (simp_all add: clear_needs_def)

lemma receive_loop_step:
  "keeping_up s \<Longrightarrow> loop_result crc s (abs_receiver s) (receive_loop crc both polls s)"
proof (induction polls arbitrary: both s)
  case Nil
  then show ?case
    by (simp add: loop_result_def)
next
  case (Cons ev polls)
  note k = Cons.prems
  show ?case
  proof (cases ev)
    case (Poll_ready file_ev sock_ev)
    show ?thesis
    proof (cases sock_ev)
      case False
      have "receive_ready crc (both \<and> file_ev) sock_ev s = Inr (True, False, s)"
        using quiet_round(1) [OF k] False by simp
      then have "receive_loop crc both (ev # polls) s = loop_next crc polls s"
        using loop_go [of crc both file_ev sock_ev s s polls] quiet_round(2) [OF k] Poll_ready by simp
      then show ?thesis
        using loop_finish [OF k Cons.IH [OF k]] by simp
    next
      case True
      show ?thesis
      proof (cases "e_rx s")
        case Nil
        then show ?thesis
          using failing_round(1) [OF k, of crc "both \<and> file_ev"] True Poll_ready
          by (simp add: loop_result_def)
      next
        case (Cons rx evs)
        show ?thesis
        proof (cases rx)
          case Rx_error
          obtain s' where s': "receive_ready crc (both \<and> file_ev) True s = Inr (False, True, s')"
            "r_out s' = r_out s" "e_tx s' = e_tx s"
            using failing_round(2) [OF k, of evs crc "both \<and> file_ev"] Cons Rx_error by blast
          then have "receive_loop crc both (ev # polls) s = Inr (False, polls, s')"
            using Poll_ready True by simp
          then show ?thesis
            using loop_stop s'(2,3) by simp
        next
          case (Rx src d)
          obtain cs where cs: "carries crc d cs"
            using ex_carries by blast
          obtain s1 where s1: "receive_ready crc (both \<and> file_ev) True s = Inr (True, False, s1)"
            "keeping_up (clear_needs s1)" "e_rx s1 = evs"
            "abs_receiver s1 = a_event cs (abs_receiver s)"
            "e_tx s1 = e_tx s @ [wire_of crc (a_answer cs (abs_receiver s))]"
            using round_step [OF k Cons [unfolded Rx] cs] by blast
          have "receive_loop crc both (ev # polls) s = loop_next crc polls (clear_needs s1)"
            using loop_go [of crc both file_ev True s s1 polls] s1(1) True Poll_ready by simp
          moreover have "loop_result crc (clear_needs s1) (a_event cs (abs_receiver s))
              (loop_next crc polls (clear_needs s1))"
            using loop_finish [OF s1(2) Cons.IH [OF s1(2)]] s1(4) by simp
          ultimately show ?thesis
            using s1(3,5) Cons Rx cs loop_result_Cons [of crc "clear_needs s1" cs "abs_receiver s" _ s src d] by simp
        qed
      qed
    qed
  next
    case Poll_error
    then show ?thesis
      using loop_stop by simp
  next
    case Poll_timeout
    then show ?thesis
      using loop_stop by simp
  qed
qed

end
