(* ===== verification/Receiver_File.thy ===== *)
theory Receiver_File
  imports Receiver_Props
begin

text \<open>
  What \<open>receive\<close> as a whole writes: the chunks of the file, in order and complete when it
  returns 0, if the datagrams it accepts are chunks of that file.
\<close>

unbundle bit_operations_syntax

section \<open>The specification delivers the file\<close>

text \<open>
  The chunk with number \<open>i\<close> of a file; after the last chunk comes an empty one. The segments
  a receiver accepts are genuine when each whole one carries the chunk whose number is the
  number of chunks delivered so far, \<open>n\<close>, plus its distance from the next one.
\<close>

definition chunk :: "byte list list \<Rightarrow> nat \<Rightarrow> byte list" where
  "chunk fs i = (fs @ [[]]) ! i"

fun genuine :: "byte list list \<Rightarrow> nat \<Rightarrow> areceiver \<Rightarrow> segment option list \<Rightarrow> bool" where
  "genuine fs n a [] \<longleftrightarrow> True"
| "genuine fs n a (cs # css) \<longleftrightarrow>
    (case cs of
       Some seg \<Rightarrow> a_accepts a seg \<and> s_tr seg = 0 \<longrightarrow>
         n + unat (s_seq seg - a_next a) \<le> length fs \<and>
         s_data seg = chunk fs (n + unat (s_seq seg - a_next a))
     | None \<Rightarrow> True) \<and>
    genuine fs (n + unat (a_next (a_event cs a) - a_next a)) (a_event cs a) css"

text \<open>\<open>n\<close> chunks have been delivered, and all that is stored are chunks with numbers less than \<open>N\<close>.\<close>

definition delivering_below :: "byte list list \<Rightarrow> nat \<Rightarrow> nat \<Rightarrow> areceiver \<Rightarrow> bool" where
  "delivering_below fs N n a \<longleftrightarrow>
     n \<le> N \<and> a_window a \<le> 31 \<and> a_out a = concat (map (chunk fs) [0..<n]) \<and>
     (\<forall>j seg. a_store a j = Some seg \<longrightarrow>
        j < 32 \<and> n + j < N \<and> s_data seg = chunk fs (n + j)) \<and>
     (a_last a = 0 \<longrightarrow> 0 < n \<and> chunk fs (n - 1) = [])"

abbreviation delivering :: "byte list list \<Rightarrow> nat \<Rightarrow> areceiver \<Rightarrow> bool" where
  "delivering fs \<equiv> delivering_below fs (Suc (length fs))"

lemma delivering_mono: "delivering_below fs N n a \<Longrightarrow> N \<le> N' \<Longrightarrow> delivering_below fs N' n a"
  unfolding delivering_below_def by (meson order_trans less_le_trans)

lemma deliver_step:
  assumes "delivering_below fs N n a"
  shows "delivering_below fs N (n + unat (a_next (a_deliver 32 a) - a_next a)) (a_deliver 32 a)"
proof -
  define k where "k = (LEAST j. a_store a j = None)"
  have none: "a_store a 32 = None"
    using assms by (auto simp: delivering_below_def intro: ccontr)
  then have k: "a_store a k = None" "k \<le> 32"
    unfolding k_def by (auto intro: LeastI Least_le)
  have some: "a_store a j = Some (the (a_store a j))" if "j < k" for j
    using that not_less_Least [of j "\<lambda>j. a_store a j = None"] by (auto simp: k_def)
  have st: "n + j < N" "s_data (the (a_store a j)) = chunk fs (n + j)" if "j < k" for j
    using some [OF that] assms unfolding delivering_below_def by blast+
  define b where "b = a_deliver 32 a"
  have "b = a\<lparr>a_next := a_next a + of_nat k, a_store := \<lambda>j. a_store a (j + k),
    a_out := a_out a @ concat (map (\<lambda>j. s_data (the (a_store a j))) [0..<k]),
    a_last := (case k of 0 \<Rightarrow> a_last a | Suc i \<Rightarrow> int (length (s_data (the (a_store a i)))))\<rparr>"
    unfolding b_def using some k by (intro a_deliver_run) simp_all
  then have eq: "a_window b = a_window a" "a_next b = a_next a + of_nat k"
    "a_store b = (\<lambda>j. a_store a (j + k))"
    "a_out b = a_out a @ concat (map (\<lambda>j. s_data (the (a_store a j))) [0..<k])"
    "a_last b = (case k of 0 \<Rightarrow> a_last a | Suc i \<Rightarrow> int (length (s_data (the (a_store a i)))))"
    by simp_all
  have u: "unat (a_next b - a_next a) = k"
    using k(2) by (simp add: eq(2) unat_of_nat)
  have ch: "map (\<lambda>j. s_data (the (a_store a j))) [0..<k] = map (chunk fs) [n..<n + k]"
    using st by (intro nth_equalityI) simp_all
  have "[0..<n + k] = [0..<n] @ [n..<n + k]"
    by (rule upt_add_eq_append) simp
  then have out: "a_out b = concat (map (chunk fs) [0..<n + k])"
    using assms unfolding eq(4) ch delivering_below_def by simp
  have le: "n + k \<le> N"
    using st(1) [of "k - 1"] assms by (cases k) (simp_all add: delivering_below_def)
  have last: "0 < n + k \<and> chunk fs (n + k - 1) = []" if "a_last b = 0"
    using that assms st(2) [of "k - 1"] unfolding eq(5) by (cases k) (simp_all add: delivering_below_def)
  have store: "j < 32 \<and> n + k + j < N \<and> s_data seg = chunk fs (n + k + j)"
    if "a_store b j = Some seg" for j seg
  proof -
    have "a_store a (j + k) = Some seg"
      using that by (simp add: eq(3))
    then have "j + k < 32 \<and> n + (j + k) < N \<and> s_data seg = chunk fs (n + (j + k))"
      using assms unfolding delivering_below_def by blast
    then show ?thesis
      by (simp add: ac_simps)
  qed
  have "a_window b \<le> 31"
    using assms by (simp add: eq(1) delivering_below_def)
  then show ?thesis
    unfolding b_def [symmetric] u using le out last store by (simp add: delivering_below_def)
qed

lemma event_step:
  assumes "delivering_below fs N n a"
    and "case cs of
       Some seg \<Rightarrow> a_accepts a seg \<and> s_tr seg = 0 \<longrightarrow>
         n + unat (s_seq seg - a_next a) < N \<and>
         s_data seg = chunk fs (n + unat (s_seq seg - a_next a))
     | None \<Rightarrow> True"
  shows "delivering_below fs N (n + unat (a_next (a_event cs a) - a_next a)) (a_event cs a)"
proof (cases "\<exists>seg. cs = Some seg \<and> a_accepts a seg")
  case False
  then have "a_event cs a = a"
    by (auto simp: a_event_def a_step_def split: option.splits)
  then show ?thesis
    using assms(1) by simp
next
  case True
  then obtain seg where seg: "cs = Some seg" "a_accepts a seg"
    by blast
  let ?g = "unat (s_seq seg - a_next a)"
  show ?thesis
  proof (cases "s_tr seg = 0")
    case False
    then have "a_event cs a = a\<lparr>a_ts := s_ts seg\<rparr>"
      using seg by (simp add: a_event_def a_step_def)
    then show ?thesis
      using assms(1) by (simp add: delivering_below_def)
  next
    case True
    let ?a = "a\<lparr>a_ts := s_ts seg, a_store := (a_store a)(?g \<mapsto> seg)\<rparr>"
    have "unat (ucast (a_window a) :: u8) \<le> 31"
      using assms(1) by (simp add: delivering_below_def word_le_nat_alt unat_ucast_down_u8)
    then have "?g < 32"
      using seg(2) by (simp add: a_accepts_def word_le_nat_alt)
    then have "delivering_below fs N n ?a"
      using assms seg True by (auto simp: delivering_below_def)
    moreover have "a_event cs a = a_deliver 32 ?a"
      using seg True by (simp add: a_event_def a_step_def)
    ultimately show ?thesis
      using deliver_step [of fs N n ?a] by simp
  qed
qed

lemma run_step:
  "delivering fs n a \<Longrightarrow> genuine fs n a css \<Longrightarrow> \<exists>m. delivering fs m (a_run css a)"
proof (induction css arbitrary: n a)
  case Nil
  then show ?case by auto
next
  case (Cons cs css)
  then show ?case
    using event_step [of fs "Suc (length fs)" n a cs] by (auto simp: less_Suc_eq_le split: option.splits)
qed

definition a_init :: "u32 \<Rightarrow> areceiver" where
  "a_init win = \<lparr>a_window = win, a_next = 0, a_store = \<lambda>_. None, a_ts = 0, a_out = [], a_last = -1\<rparr>"

lemma delivered_take: "m \<le> Suc (length fs) \<Longrightarrow> concat (map (chunk fs) [0..<m]) = concat (take m fs)"
proof (cases "m = Suc (length fs)")
  case True
  have "map (chunk fs) [0..<length fs] = fs"
    by (rule nth_equalityI) (simp_all add: chunk_def nth_append)
  then show ?thesis
    using True by (simp add: chunk_def)
next
  case False
  assume "m \<le> Suc (length fs)"
  then have "map (chunk fs) [0..<m] = take m fs"
    using False by (intro nth_equalityI) (simp_all add: chunk_def nth_append)
  then show ?thesis
    by simp
qed

lemma delivering_out: "delivering fs m a \<Longrightarrow> a_out a = concat (take m fs)"
  by (simp add: delivering_below_def delivered_take)

lemma delivering_done:
  assumes "delivering fs m a" and "[] \<notin> set fs" and "a_last a = 0"
  shows "a_out a = concat fs"
proof -
  have m: "0 < m" "chunk fs (m - 1) = []" "m \<le> Suc (length fs)"
    "a_out a = concat (map (chunk fs) [0..<m])"
    using assms(1,3) by (auto simp: delivering_below_def)
  have "m - 1 = length fs"
  proof (rule ccontr)
    assume "m - 1 \<noteq> length fs"
    then have "m - 1 < length fs"
      using m(1,3) by simp
    then have "[] \<in> set fs"
      using m(2) nth_mem [of "m - 1" fs] by (simp add: chunk_def nth_append)
    then show False
      using assms(2) by simp
  qed
  then have "m = Suc (length fs)"
    using m(1) by simp
  moreover have "map (chunk fs) [0..<length fs] = fs"
    by (rule nth_equalityI) (simp_all add: chunk_def nth_append)
  ultimately show ?thesis
    using m(4) by (simp add: chunk_def)
qed

lemma delivering_init: "win \<le> 31 \<Longrightarrow> delivering fs 0 (a_init win)"
  by (simp add: delivering_below_def a_init_def)

text \<open>
  The selective-repeat specification delivers a file: if every whole segment accepted is
  the chunk its distance says, in whatever order, with whatever losses, duplicates, corrupted
  and truncated segments in between, the output is the first chunks of the file in order; and
  when the last chunk delivered is empty, it is the whole file.
\<close>

lemma spec_delivers:
  assumes "genuine fs 0 (a_init win) css" and "win \<le> 31" and "[] \<notin> set fs"
  shows "\<exists>m. a_out (a_run css (a_init win)) = concat (map (chunk fs) [0..<m]) \<and> m \<le> Suc (length fs) \<and>
    (a_last (a_run css (a_init win)) = 0 \<longrightarrow> a_out (a_run css (a_init win)) = concat fs)"
proof -
  obtain m where m: "delivering fs m (a_run css (a_init win))"
    using run_step [OF delivering_init assms(1)] assms(2) by blast
  then show ?thesis
    using delivering_done [OF m assms(3)] by (intro exI [of _ m]) (simp add: delivering_below_def)
qed

definition demo_chunks :: "byte list list" where
  "demo_chunks = [[1, 2], [3]]"

definition demo_segment :: "u8 \<Rightarrow> byte list \<Rightarrow> segment" where
  "demo_segment seq bs = \<lparr>s_type = 1, s_tr = 0, s_window = 0, s_seq = seq,
     s_length = of_nat (length bs), s_ts = 0xdeadbeef, s_data = bs\<rparr>"

text \<open>Chunk 1 arrives first, then garbage, the end of the file, and chunk 0.\<close>

definition demo_arrivals :: "segment option list" where
  "demo_arrivals = [Some (demo_segment 1 [3]), None, Some (demo_segment 2 []), Some (demo_segment 0 [1, 2])]"

lemma demo_genuine: "genuine demo_chunks 0 (a_init 31) demo_arrivals"
  by code_simp

lemma spec_delivers_demo:
  "a_last (a_run demo_arrivals (a_init 31)) = 0 \<and>
   a_out (a_run demo_arrivals (a_init 31)) = concat demo_chunks"
proof -
  have "a_last (a_run demo_arrivals (a_init 31)) = 0"
    by code_simp
  moreover have "[] \<notin> set demo_chunks"
    by (simp add: demo_chunks_def)
  ultimately show ?thesis
    using spec_delivers [OF demo_genuine] by auto
qed

section \<open>From connecting to the last acknowledgement\<close>

lemma linger_step:
  assumes "keeping_up s"
  shows "case linger_loop crc n polls s of Inl f \<Rightarrow> f = Blocked
    | Inr (r, s') \<Rightarrow> (r = 0 \<or> r = - ECONNABORTED) \<and> r_out s' = r_out s"
  using assms
proof (induction crc n polls s rule: linger_loop.induct)
  case (2 crc n ev polls s)
  have ok: "acks_ok s" "write_ok 12 s" "idle s"
    using 2(2) by (simp_all add: keeping_up_def write_ok_def)
  obtain s' where s': "send_ack crc s = Inr (NET_OK, s')" "acks_ok s'"
    "s' = (after_write (wire_of crc (answer 2 (r_expected_seq s) (r_last_ts s) (window_size s))) s)
      \<lparr>r_ack_pkt := r_ack_pkt s'\<rparr>"
    using send_ack_ok [OF ok(1,2)] by blast
  have "keeping_up s'" "r_out s' = r_out s"
    using 2(2) s'(2) unfolding keeping_up_def by (subst s'(3); simp add: after_write_def)+
  then show ?case
    using 2(1) [of "(NET_OK, s')" NET_OK s'] s'(1) by (auto split: sum.splits)
qed simp

text \<open>The slot for the first packet.\<close>

lemma first_slot:
  assumes "pktbuf_new True 32 = Inr (Some buf)"
  shows "\<exists>b. pktbuf_enqueue buf = (slot_index b 0, b) \<and> wf_buf b \<and> cap b = 32 \<and> used b = 1 \<and> items b = [pkt_zero] \<and>
    slot b (slot_index b 0) = pkt_zero"
proof -
  let ?i = "slot_index buf 0"
  note b = pktbuf_new_wf [OF assms]
  have u: "used buf < cap buf"
    using b by simp
  have z: "slot buf ?i = pkt_zero"
    using assms slot_index_less [OF b(1), of 0] b(3)
    by (auto simp: pktbuf_new_def slot_def split: if_splits)
  obtain b1 where eb: "pktbuf_enqueue buf = (?i, b1)"
    using enqueue_slot [OF b(1)] b(4) by (cases "pktbuf_enqueue buf") simp
  then have e: "snd (pktbuf_enqueue buf) = b1"
    by simp
  have "wf_buf b1" "items b1 = [pkt_zero]" "used b1 = 1" "cap b1 = 32" "slot_index b1 = slot_index buf"
    "slot b1 = slot buf"
    using enqueue_items [OF b(1) u] enqueue_used [OF b(1) u] enqueue_fields(1-3) [of buf] b z
    by (simp_all add: e)
  then show ?thesis
    using eb z by (intro exI [of _ b1]) simp
qed

text \<open>The state in which the first packet is processed.\<close>

definition connected :: "u32 \<Rightarrow> receiver \<Rightarrow> bool" where
  "connected win s \<longleftrightarrow> waiting s \<and> acks_ok s \<and> e_wr s = [] \<and> r_out_results s = [] \<and> \<not> r_need_nack s \<and>
     marked s = (\<lambda>_. None) \<and> abs_receiver s = a_init win \<and> r_expected_seq s = 0 \<and> used (r_buf s) = 1"

lemma connected_init:
  assumes "wf_buf b" and "cap b = 32" and "used b = 1" and "items b = [pkt_zero]" and "win \<le> 31" and "e_wr e = []"
  shows "connected win ((receiver_init win buf e)\<lparr>e_rx := evs, e_peer := p, r_buf := b, r_fd_flags := f\<rparr>)"
proof -
  let ?s = "(receiver_init win buf e)\<lparr>e_rx := evs, e_peer := p, r_buf := b, r_fd_flags := f\<rparr>"
  have s: "r_oos_mask ?s = 0" "r_expected_seq ?s = 0" "r_max_window ?s = win" "r_buf ?s = b"
    by (simp_all add: receiver_init_def)
  have o: "ones 0 = 0" "p_seq pkt_zero = 0"
    by (simp_all add: ones_0_iff pkt_zero_def)
  have m: "marked ?s = (\<lambda>_. None)"
    by (simp add: marked_def s(1) fun_eq_iff)
  have "waiting ?s"
    using assms(1-5) o by (simp add: waiting_def synced_def s seq_from_Cons)
  moreover have "acks_ok ?s \<and> e_wr ?s = [] \<and> r_out_results ?s = [] \<and> \<not> r_need_nack ?s"
    using assms(6) by (simp add: acks_ok_def receiver_init_def ack_pkt_init_def nack_pkt_init_def
        pkt_zero_def wf_pkt_def)
  moreover have "abs_receiver ?s = a_init win"
    by (simp add: abs_receiver_def a_init_def m) (simp add: receiver_init_def)
  ultimately show ?thesis
    using m s(2,4) assms(3) by (simp add: connected_def)
qed

lemma connects:
  assumes "pktbuf_new True 32 = Inr (Some buf)" and "win \<le> 31"
    and "e_wr e = []" and "e_connect e = 0" and "e_rx e = Rx src d # evs"
    and "datagram_of crc seg (take 528 d)" and "s_tr seg = 0" and "s_seq seg = 0"
  shows "\<exists>b s q. pktbuf_enqueue buf = (slot_index b 0, b) \<and>
    net_wait_and_connect crc (slot b (slot_index b 0)) 0
      ((receiver_init win buf e)\<lparr>r_fd_flags := f, r_buf := b\<rparr>) = Inr (NET_OK, q, s) \<and>
    connected win s \<and> r_buf s = b \<and> e_rx s = evs \<and> e_tx s = e_tx e \<and>
    wf_pkt q \<and> whole_pkt q \<and> p_seq q = 0 \<and> segment_of q = seg"
proof -
  obtain b where b: "pktbuf_enqueue buf = (slot_index b 0, b)" "wf_buf b" "cap b = 32" "used b = 1" "items b = [pkt_zero]"
    "slot b (slot_index b 0) = pkt_zero"
    using first_slot [OF assms(1)] by blast
  define s1 where "s1 = (receiver_init win buf e)\<lparr>r_fd_flags := f, r_buf := b\<rparr>"
  have s1: "e_rx s1 = Rx src d # evs" "e_connect s1 = 0"
    using assms(4,5) by (simp_all add: s1_def receiver_init_def)
  obtain q where q: "pkt_decode_inline crc (store_bytes pkt_zero 0 (take 528 d))
      (of_nat (length (take 528 d))) = (PKT_OK, q)" "segment_of q = seg" "wf_pkt q"
    using decode_datagram [OF wf_pkt_zero, of "take 528 d" crc seg] assms(6) decode_inline_wf
      store_bytes_0(1) [OF wf_pkt_zero, of "take 528 d"] by fastforce
  obtain pb pl where p: "store_addr src (Some (replicate 128 0, 4)) = Some (pb, pl)"
    by (simp add: store_addr_def)
  define s where "s = s1\<lparr>e_rx := evs, e_peer := Some (take pl pb)\<rparr>"
  have f: "p_seq q = 0" "p_tr q = 0"
    using q(2) assms(7,8) by (auto simp: segment_of_def)
  have wait: "net_wait_and_connect crc (slot b (slot_index b 0)) 0 s1 = Inr (NET_OK, q, s)"
    using wait_and_connect_first [OF s1(1) q(1) _ p, of 0] s1(2) f(1) b(6) by (simp add: s_def)
  have "s = (receiver_init win buf e)\<lparr>e_rx := evs, e_peer := Some (take pl pb), r_buf := b, r_fd_flags := f\<rparr>"
    by (simp add: s_def s1_def receiver_init_def)
  then have "connected win s"
    using connected_init [OF b(2-5) assms(2,3)] by simp
  moreover have "whole_pkt q"
    using f assms(6) q(2) by (auto simp: whole_pkt_def datagram_of_def valid_segment_def segment_of_def)
  moreover have "r_buf s = b" "e_rx s = evs" "e_tx s = e_tx e"
    by (simp_all add: s_def s1_def receiver_init_def)
  ultimately show ?thesis
    using b(1) wait f(1) q(2,3) unfolding s1_def by blast
qed

lemma receive_connected:
  assumes "pktbuf_new True 32 = Inr (Some buf)" and "win \<le> 31"
    and "e_wr e = []" and "e_connect e = 0" and "e_rx e = Rx src d # evs"
    and "datagram_of crc seg (take 528 d)" and "s_tr seg = 0" and "s_seq seg = 0"
  shows "\<exists>s q. receive crc (True, True, addr) polls (receiver_init win buf e) =
      rbind (process_incoming_pkt (slot_index (r_buf s) 0) (put_slot s (slot_index (r_buf s) 0) q)) (\<lambda>(_, s).
      rbind (receive_loop crc True polls (s\<lparr>r_need_ack := True\<rparr>)) (\<lambda>(ok, polls, s).
      if \<not> ok then Inr (- ECONNABORTED, s) else linger_loop crc 0 polls s)) \<and>
    connected win s \<and> e_rx s = evs \<and> e_tx s = e_tx e \<and>
    wf_pkt q \<and> whole_pkt q \<and> p_seq q = 0 \<and> segment_of q = seg"
proof -
  obtain b s q where s: "pktbuf_enqueue buf = (slot_index b 0, b)"
    "net_wait_and_connect crc (slot b (slot_index b 0)) 0
      ((receiver_init win buf e)\<lparr>r_fd_flags := addr AND 1, r_buf := b\<rparr>) = Inr (NET_OK, q, s)"
    "connected win s" "r_buf s = b" "e_rx s = evs" "e_tx s = e_tx e"
    "wf_pkt q" "whole_pkt q" "p_seq q = 0" "segment_of q = seg"
    using connects [OF assms, of "addr AND 1"] by blast
  have "unblock_out_file True True addr (receiver_init win buf e) =
      (0, (receiver_init win buf e)\<lparr>r_fd_flags := addr AND 1\<rparr>)"
    by (simp add: unblock_out_file_def sys_fcntl_def receiver_init_def)
  moreover have "r_buf ((receiver_init win buf e)\<lparr>r_fd_flags := addr AND 1\<rparr>) = buf"
    by (simp add: receiver_init_def)
  ultimately show ?thesis
    using s by (intro exI [of _ s] exI [of _ q]) (simp add: receive_def Let_def buf_slot_def)
qed

lemma connectedD:
  assumes "connected win s"
  shows "waiting s" "acks_ok s" "e_wr s = []" "r_out_results s = []" "\<not> r_need_nack s" "marked s = (\<lambda>_. None)"
    "abs_receiver s = a_init win" "r_expected_seq s = 0" "used (r_buf s) = 1" "r_max_window s = win" "r_out s = []"
proof -
  have "a_window (abs_receiver s) = win" "a_out (abs_receiver s) = []"
    using assms by (simp_all add: connected_def a_init_def)
  then show "r_max_window s = win" "r_out s = []"
    by simp_all
qed (use assms in \<open>simp_all add: connected_def\<close>)

text \<open>
  The first packet is processed, and then a round of the main loop without a second one. Nothing
  looks at the type of the packet; for a chunk it is the step of the specification.
\<close>

definition took_first :: "u32 \<Rightarrow> segment \<Rightarrow> areceiver" where
  "took_first win seg = \<lparr>a_window = win, a_next = 1, a_store = \<lambda>_. None, a_ts = s_ts seg,
     a_out = s_data seg, a_last = int (length (s_data seg))\<rparr>"

lemma deliver_first:
  assumes "a_ts a = s_ts seg" and "a_store a = [0 \<mapsto> seg]" and "a_window a = win" and "a_next a = 0" and "a_out a = []"
  shows "a_deliver 32 a = took_first win seg"
  using deliver_one [OF assms(2)] assms by (cases a) (simp add: took_first_def)

lemma receive_whole_first:
  assumes "connected win s" and "wf_pkt q" and "whole_pkt q" and "p_seq q = 0"
  shows "\<exists>s1 s2. process_incoming_pkt (slot_index (r_buf s) 0) (put_slot s (slot_index (r_buf s) 0) q) =
      Inr (0, s1) \<and>
    receive_ready crc file_ev False (s1\<lparr>r_need_ack := True\<rparr>) = Inr (True, False, s2) \<and>
    keeping_up (clear_needs s2) \<and> e_rx s2 = e_rx s \<and>
    abs_receiver s2 = took_first win (segment_of q) \<and>
    e_tx s2 = e_tx s @ [wire_of crc (answer 2 (a_next (took_first win (segment_of q))) (p_ts q) win)] \<and>
    used (r_buf s2) = 0"
proof -
  let ?i = "slot_index (r_buf s) 0" and ?a = "took_first win (segment_of q)"
  note c = connectedD [OF assms(1)]
  have q: "p_seq q = r_expected_seq s"
    using c assms(4) by simp
  obtain s1 where s1: "process_incoming_pkt ?i (put_slot s ?i q) = Inr (0, s1)" "synced s1"
    "marked s1 = (marked s)(0 \<mapsto> segment_of q)"
    "r_expected_seq s1 = r_expected_seq s + of_nat (ones (r_oos_mask s1))"
    "r_last_ts s1 = p_ts q" "r_need_nack s1 = r_need_nack s" "in_frame s (e_rx s) s1"
    "used (r_buf s1) = used (r_buf s)"
    using process_in_sequence [OF c(1) assms(2,3) q] by blast
  note f1 = in_frameD [OF s1(7)]
  let ?s1 = "s1\<lparr>r_need_ack := True\<rparr>"
  have "(abs_receiver s1)\<lparr>a_next := r_expected_seq s1 - of_nat (ones (r_oos_mask s1))\<rparr> =
      (abs_receiver s)\<lparr>a_ts := p_ts q, a_store := (marked s)(0 \<mapsto> segment_of q)\<rparr>"
    using s1(3-5) f1 by (simp add: abs_receiver_def)
  then have rec: "received ?s1 = ?a"
    unfolding received_need received_def c(6,7) by (intro deliver_first) (simp_all add: a_init_def segment_of_def)
  have o: "synced ?s1" "acks_ok ?s1" "e_wr ?s1 = []" "r_out_results ?s1 = []" "e_rx ?s1 = e_rx s" "e_tx ?s1 = e_tx s"
    using s1(2) f1 c(2-4) by (simp_all add: acks_ok_def)
  have "a_ts ?a = p_ts q" "a_window ?a = win"
    by (simp_all add: took_first_def segment_of_def)
  then have ans: "answers ?s1 = [answer 2 (a_next ?a) (p_ts q) win]"
    using c(5) s1(6) rec by (simp add: answers_def Let_def)
  obtain s2 where s2: "rbind (if file_ev \<or> can_empty_rbuf ?s1 then do_empty_rbuf ?s1 else Inr (0, ?s1)) (\<lambda>(err, s).
      if err \<noteq> 0 then Inr (False, True, s) else
      rbind (if r_need_ack s then send_ack crc s else Inr (NET_OK, s)) (\<lambda>(err, s).
      if err \<noteq> NET_OK then Inr (False, True, s) else
      rbind (if r_need_nack s then send_nack crc (r_nack_seq s) s else Inr (NET_OK, s)) (\<lambda>(err, s).
      if err \<noteq> NET_OK then Inr (False, True, s) else Inr (True, can_empty_rbuf s, s)))) = Inr (True, False, s2)"
    "keeping_up (clear_needs s2)" "abs_receiver s2 = ?a" "e_rx s2 = e_rx s"
    "e_tx s2 = e_tx s @ [wire_of crc (answer 2 (a_next ?a) (p_ts q) win)]"
    "used (r_buf s2) = used (r_buf ?s1) - ones (r_oos_mask ?s1)"
    using finish_round [OF o(1-4), of file_ev crc] unfolding o(5,6) ans rec by auto
  have "used (r_buf s2) = 0"
    using c(9) s2(6) s1(3,8) all_in_sequence [OF s1(2)] by simp
  moreover have "receive_ready crc file_ev False ?s1 = Inr (True, False, s2)"
    unfolding receive_ready_def if_False rbind_simps prod.case
    by (simp only: s2(1) simp_thms if_False)
  ultimately show ?thesis
    using s1(1) s2(2-5) by blast
qed

lemma took_first_data:
  assumes "0 < win" and "s_type seg = 1" and "s_tr seg = 0" and "s_seq seg = 0"
  shows "a_event (Some seg) (a_init win) = took_first win seg"
    and "a_answer (Some seg) (a_init win) = answer 2 (a_next (took_first win seg)) (s_ts seg) win"
proof -
  show e: "a_event (Some seg) (a_init win) = took_first win seg"
    using assms deliver_first [of "(a_init win)\<lparr>a_ts := s_ts seg, a_store := [0 \<mapsto> seg]\<rparr>" seg win]
    by (simp add: a_event_def a_step_def a_accepts_def a_full_def a_init_def not_le)
  have "a_ts (took_first win seg) = s_ts seg" "a_window (took_first win seg) = win"
    by (simp_all add: took_first_def)
  then show "a_answer (Some seg) (a_init win) = answer 2 (a_next (took_first win seg)) (s_ts seg) win"
    using assms(3) by (simp add: a_answer_def a_truncated_def e Let_def)
qed

lemma receive_first:
  assumes "connected win s" and "0 < win" and "wf_pkt q" and "whole_pkt q" and "p_seq q = 0" and "p_type q = 1"
  shows "\<exists>s1 s2. process_incoming_pkt (slot_index (r_buf s) 0) (put_slot s (slot_index (r_buf s) 0) q) =
      Inr (0, s1) \<and>
    receive_ready crc file_ev False (s1\<lparr>r_need_ack := True\<rparr>) = Inr (True, False, s2) \<and>
    keeping_up (clear_needs s2) \<and> e_rx s2 = e_rx s \<and>
    abs_receiver s2 = a_event (Some (segment_of q)) (a_init win) \<and>
    e_tx s2 = e_tx s @ [wire_of crc (a_answer (Some (segment_of q)) (a_init win))] \<and> used (r_buf s2) = 0"
proof -
  have "s_type (segment_of q) = 1" "s_tr (segment_of q) = 0" "s_seq (segment_of q) = 0" "s_ts (segment_of q) = p_ts q"
    using assms(4-6) by (simp_all add: segment_of_def whole_pkt_def)
  then show ?thesis
    using receive_whole_first [OF assms(1,3-5), of crc file_ev] took_first_data [OF assms(2)] by simp
qed

text \<open>
  After the first segment, every whole segment accepted of the datagrams that arrive is the
  chunk of the file its distance says.
\<close>

definition genuine_after :: "crc_fun \<Rightarrow> u32 \<Rightarrow> segment \<Rightarrow> rx_event list \<Rightarrow> byte list list \<Rightarrow> bool" where
  "genuine_after crc win seg evs fs \<longleftrightarrow>
     (\<forall>css. carried crc (take (length css) evs) css \<longrightarrow> genuine fs 0 (a_init win) (Some seg # css))"

lemma receive_outcome:
  assumes "pktbuf_new True 32 = Inr (Some buf)" and "0 < win" and "win \<le> 31"
    and "e_wr e = []" and "e_connect e = 0" and "e_rx e = Rx src d # evs"
    and "datagram_of crc seg (take 528 d)" and "s_type seg = 1" and "s_tr seg = 0" and "s_seq seg = 0"
  shows "case receive crc (True, True, addr) (Poll_ready file_ev False # polls) (receiver_init win buf e) of
      Inl f \<Rightarrow> f = Blocked
    | Inr (r, s') \<Rightarrow> (r = 0 \<or> r = - ECONNABORTED) \<and>
        (\<forall>fs. [] \<notin> set fs \<and> genuine_after crc win seg evs fs \<longrightarrow>
           (\<exists>m. r_out s' = concat (take m fs)) \<and> (r = 0 \<longrightarrow> r_out s' = concat fs))"
proof -
  let ?polls = "Poll_ready file_ev False # polls"
  obtain s q where s: "receive crc (True, True, addr) ?polls (receiver_init win buf e) =
      rbind (process_incoming_pkt (slot_index (r_buf s) 0) (put_slot s (slot_index (r_buf s) 0) q)) (\<lambda>(_, s).
      rbind (receive_loop crc True ?polls (s\<lparr>r_need_ack := True\<rparr>)) (\<lambda>(ok, polls, s).
      if \<not> ok then Inr (- ECONNABORTED, s) else linger_loop crc 0 polls s))"
    "connected win s" "e_rx s = evs" "wf_pkt q" "whole_pkt q" "p_seq q = 0" "segment_of q = seg"
    using receive_connected [OF assms(1,3-7,9,10), of addr ?polls] by blast
  have ty: "p_type q = 1"
    using s(7) assms(8) by (auto simp: segment_of_def)
  obtain s1 s2 where s2: "process_incoming_pkt (slot_index (r_buf s) 0) (put_slot s (slot_index (r_buf s) 0) q) =
      Inr (0, s1)"
    "receive_ready crc file_ev False (s1\<lparr>r_need_ack := True\<rparr>) = Inr (True, False, s2)"
    "keeping_up (clear_needs s2)" "e_rx s2 = e_rx s"
    "abs_receiver s2 = a_event (Some (segment_of q)) (a_init win)"
    using receive_first [OF s(2) assms(2) s(4-6) ty, of crc file_ev] by blast
  let ?a = "a_event (Some seg) (a_init win)"
  have loop: "receive_loop crc True ?polls (s1\<lparr>r_need_ack := True\<rparr>) = loop_next crc polls (clear_needs s2)"
    using s2(2) by (intro loop_go) simp
  have run: "receive crc (True, True, addr) ?polls (receiver_init win buf e) =
      rbind (loop_next crc polls (clear_needs s2)) (\<lambda>(ok, polls, s).
      if \<not> ok then Inr (- ECONNABORTED, s) else linger_loop crc 0 polls s)"
    unfolding s(1) s2(1) by (simp only: rbind_simps prod.case loop)
  have res: "loop_result crc (clear_needs s2) ?a (loop_next crc polls (clear_needs s2))"
    using loop_finish [OF s2(3) receive_loop_step [OF s2(3)]] s2(5) s(7) by simp
  have deliver: "(\<exists>m. a_out (a_run css ?a) = concat (take m fs)) \<and>
      (a_last (a_run css ?a) = 0 \<longrightarrow> a_out (a_run css ?a) = concat fs)"
    if "carried crc (take (length css) evs) css" "[] \<notin> set fs" "genuine_after crc win seg evs fs" for css fs
  proof -
    have "genuine fs 0 (a_init win) (Some seg # css)"
      using that(1,3) by (simp add: genuine_after_def)
    from run_step [OF delivering_init this] obtain m where m: "delivering fs m (a_run css ?a)"
      using assms(3) by auto
    then show ?thesis
      using delivering_done [OF m that(2)] delivering_out [OF m] by auto
  qed
  show ?thesis
  proof (cases "loop_next crc polls (clear_needs s2)")
    case (Inl f)
    then show ?thesis
      using res run by (simp add: loop_result_def)
  next
    case (Inr x)
    then obtain ok polls' s3 css where x: "x = (ok, polls', s3)"
      "carried crc (take (length css) evs) css" "r_out s3 = a_out (a_run css ?a)"
      "ok \<longrightarrow> keeping_up s3 \<and> a_last (a_run css ?a) = 0"
      using res s2(4) s(3) by (cases x) (auto simp: loop_result_def)
    note d = deliver [OF x(2), folded x(3)]
    show ?thesis
    proof (cases ok)
      case False
      then show ?thesis
        using run Inr x(1) d by (simp add: ECONNABORTED_def)
    next
      case True
      then have k: "keeping_up s3" and run': "receive crc (True, True, addr) ?polls (receiver_init win buf e) =
          linger_loop crc 0 polls' s3"
        using run Inr x by simp_all
      have d': "(\<exists>m. r_out s3 = concat (take m fs)) \<and> r_out s3 = concat fs"
        if "[] \<notin> set fs" "genuine_after crc win seg evs fs" for fs
        using d [OF that] True x(4) by blast
      show ?thesis
        using linger_step [OF k, of crc 0 polls'] d' unfolding run'
        by (cases "linger_loop crc 0 polls' s3") (auto simp: case_prod_unfold)
    qed
  qed
qed

lemma receive_delivers:
  assumes "pktbuf_new True 32 = Inr (Some buf)" and "0 < win" and "win \<le> 31"
    and "e_wr e = []" and "e_connect e = 0" and "e_rx e = Rx src d # evs"
    and "datagram_of crc seg (take 528 d)" and "s_type seg = 1" and "s_tr seg = 0" and "s_seq seg = 0"
    and "[] \<notin> set fs" and "genuine_after crc win seg evs fs"
  shows "case receive crc (True, True, addr) (Poll_ready file_ev False # polls) (receiver_init win buf e) of
      Inl f \<Rightarrow> f = Blocked
    | Inr (r, s') \<Rightarrow> (\<exists>m. r_out s' = concat (take m fs)) \<and> (r = 0 \<longrightarrow> r_out s' = concat fs)"
  using receive_outcome [OF assms(1-10), of addr file_ev polls] assms(11,12)
  by (auto split: sum.splits)

text \<open>
  C9. Take \<open>receive\<close> on a new buffer, with a window of 1 to 31 and an output file and a socket
  that take what they are given, and let \<open>connect\<close> succeed, the first datagram be the whole data
  packet with number 0 and the first \<open>poll\<close> report no second one (after any other start:
  \<open>first_packet_unchecked\<close> and \<open>pending_packets_skip\<close>). Whatever arrives after that and whatever
  \<open>poll\<close> reports, no check fails: \<open>receive\<close> returns 0 or \<open>-ECONNABORTED\<close>, or it blocks because
  nothing more arrives. And for every file such that the segments accepted are the chunks their
  distances say, what it has written is the first chunks of the file, and the whole file when
  it returns 0.
\<close>

theorem receive_file:
  assumes "pktbuf_new True 32 = Inr (Some buf)" and "0 < win" and "win \<le> 31"
    and "e_wr e = []" and "e_connect e = 0" and "e_rx e = Rx src d # evs"
    and "datagram_of crc seg (take 528 d)" and "s_type seg = 1" and "s_tr seg = 0" and "s_seq seg = 0"
  shows "case receive crc (True, True, addr) (Poll_ready file_ev False # polls) (receiver_init win buf e) of
      Inl f \<Rightarrow> f = Blocked
    | Inr (r, s') \<Rightarrow> (r = 0 \<or> r = - ECONNABORTED) \<and>
        (\<forall>fs. [] \<notin> set fs \<and> genuine_after crc win seg evs fs \<longrightarrow>
           (\<exists>m. r_out s' = concat (take m fs)) \<and> (r = 0 \<longrightarrow> r_out s' = concat fs))"
  by (rule receive_outcome [OF assms])

text \<open>A file of one chunk: the chunk, then the end.\<close>

definition demo_file_env :: env where
  "demo_file_env = demo_env\<lparr>e_rx := [Rx [] (wire_of demo_crc (demo_segment 0 [1, 2])),
     Rx [] (wire_of demo_crc (demo_segment 1 []))]\<rparr>"

lemma demo_segment_valid: "length bs \<le> 512 \<Longrightarrow> valid_segment (demo_segment seq bs)"
  by (simp add: valid_segment_def demo_segment_def unat_of_nat)

lemma demo_segment_datagram:
  assumes "length bs \<le> 512"
  shows "datagram_of crc (demo_segment seq bs) (take 528 (wire_of crc (demo_segment seq bs)))"
proof -
  have "length (wire_of crc (demo_segment seq bs)) \<le> 528"
    using assms by (simp add: length_wire_of demo_segment_def)
  then show ?thesis
    using demo_segment_valid [OF assms] by (simp add: datagram_of_def)
qed

lemma demo_file_genuine:
  assumes "carried demo_crc (take (length css) [Rx [] (wire_of demo_crc (demo_segment 1 []))]) css"
  shows "genuine [[1, 2]] 0 (a_init 31) (Some (demo_segment 0 [1, 2]) # css)"
proof -
  have "length css \<le> 1"
    using assms by (auto simp: carried_def dest!: list_all2_lengthD)
  then consider "css = []" | cs where "css = [cs]"
    by (cases css) auto
  then have "css = [] \<or> css = [Some (demo_segment 1 [])]"
  proof cases
    case 2
    then have "carries demo_crc (wire_of demo_crc (demo_segment 1 [])) cs"
      using assms by (simp add: carried_def)
    then have "cs = Some (demo_segment 1 [])"
      using demo_segment_datagram [of "[]" demo_crc 1] datagram_of_unique
      by (auto simp: carries_def split: option.splits)
    then show ?thesis
      using 2 by simp
  qed simp
  moreover have "genuine [[1, 2]] 0 (a_init 31) [Some (demo_segment 0 [1, 2])]"
    "genuine [[1, 2]] 0 (a_init 31) [Some (demo_segment 0 [1, 2]), Some (demo_segment 1 [])]"
    by code_simp+
  ultimately show ?thesis
    by auto
qed

lemma demo_file_genuine_after:
  "genuine_after demo_crc 31 (demo_segment 0 [1, 2]) [Rx [] (wire_of demo_crc (demo_segment 1 []))] [[1, 2]]"
  using demo_file_genuine by (simp add: genuine_after_def)

theorem receive_file_witness:
  "\<exists>buf. pktbuf_new True 32 = Inr (Some buf) \<and>
    (case receive demo_crc (True, True, 0) [Poll_ready True False, Poll_ready False True, Poll_timeout]
        (receiver_init 31 buf demo_file_env) of
      Inl f \<Rightarrow> f = Blocked
    | Inr (r, s') \<Rightarrow> (r = 0 \<or> r = - ECONNABORTED) \<and> (\<exists>m. r_out s' = concat (take m [[1, 2]])) \<and>
        (r = 0 \<longrightarrow> r_out s' = concat [[1, 2]]))"
proof -
  obtain buf where buf: "pktbuf_new True 32 = Inr (Some buf)"
    using new_buffers(2) by blast
  have seg: "s_type (demo_segment 0 [1, 2]) = 1" "s_tr (demo_segment 0 [1, 2]) = 0"
    "s_seq (demo_segment 0 [1, 2]) = 0"
    by (simp_all add: demo_segment_def)
  have env: "e_wr demo_file_env = []" "e_connect demo_file_env = 0"
    "e_rx demo_file_env = Rx [] (wire_of demo_crc (demo_segment 0 [1, 2])) #
      [Rx [] (wire_of demo_crc (demo_segment 1 []))]"
    by (simp_all add: demo_file_env_def demo_env_def)
  have "datagram_of demo_crc (demo_segment 0 [1, 2]) (take 528 (wire_of demo_crc (demo_segment 0 [1, 2])))"
    by (rule demo_segment_datagram) simp
  note out = receive_file [OF buf _ _ env this seg, of 31 0 True "[Poll_ready False True, Poll_timeout]"]
  show ?thesis
    using buf out demo_file_genuine_after
    by (intro exI [of _ buf]) (auto split: sum.splits dest!: spec [of _ "[[1, 2]]"])
qed

end
