(* ===== verification/Runs.thy ===== *)
theory Runs
  imports Main
begin

text \<open>
  State machines: what holds in every state a machine can reach, and what a machine that
  simulates another one inherits from it. The main loops of the sender and of the receiver are
  instances.
\<close>

locale rounds =
  fixes start :: "'s \<Rightarrow> bool"
    and step :: "'s \<Rightarrow> 's \<Rightarrow> bool"
    and inv :: "'s \<Rightarrow> bool"
  assumes start_inv: "start s \<Longrightarrow> inv s"
    and step_inv: "inv s \<Longrightarrow> step s t \<Longrightarrow> inv t"
begin

lemma run_inv: "step\<^sup>*\<^sup>* s t \<Longrightarrow> inv s \<Longrightarrow> inv t"
  by (induction rule: rtranclp_induct) (blast intro: step_inv)+

lemma reachable_inv: "start s \<Longrightarrow> step\<^sup>*\<^sup>* s t \<Longrightarrow> inv t"
  by (blast intro: start_inv run_inv)

end

text \<open>A step of the concrete machine is any number of steps of the abstract one.\<close>

locale simulation = rounds start step inv
  for start :: "'s \<Rightarrow> bool" and step :: "'s \<Rightarrow> 's \<Rightarrow> bool" and inv :: "'s \<Rightarrow> bool" +
  fixes abs :: "'s \<Rightarrow> 'a"
    and astep :: "'a \<Rightarrow> 'a \<Rightarrow> bool"
  assumes step_sim: "inv s \<Longrightarrow> step s t \<Longrightarrow> astep\<^sup>*\<^sup>* (abs s) (abs t)"
begin

lemma run_sim:
  assumes "step\<^sup>*\<^sup>* s t" and "inv s"
  shows "astep\<^sup>*\<^sup>* (abs s) (abs t)"
  using assms(1)
proof (induction rule: rtranclp_induct)
  case (step t u)
  have "inv t"
    using run_inv [OF step(1) assms(2)] .
  then show ?case
    using step_sim step(2,3) by (blast intro: rtranclp_trans)
qed simp

text \<open>So what no abstract step changes for the worse holds of the concrete states.\<close>

lemma abs_inv:
  assumes "step\<^sup>*\<^sup>* s t" and "inv s" and "P (abs s)" and "\<And>a b. P a \<Longrightarrow> astep a b \<Longrightarrow> P b"
  shows "P (abs t)"
  using run_sim [OF assms(1,2)] assms(3)
  by (induction rule: rtranclp_induct) (blast intro: assms(4))+

end

end
