(* ===== verification/Receiver_Rounds.thy ===== *)
theory Receiver_Rounds
  imports Receiver_File Runs
begin

text \<open>
  The main loop of the receiver as a state machine, which simulates the selective-repeat
  specification.
\<close>

text \<open>A round after which the loop goes on; the first component says whether the file is polled.\<close>

inductive receive_step :: "crc_fun \<Rightarrow> bool \<times> receiver \<Rightarrow> bool \<times> receiver \<Rightarrow> bool" for crc where
  rx_round: "receive_ready crc (both \<and> file_ev) sock_ev s = Inr (True, both', s') \<Longrightarrow>
    r_last_written_len s' \<noteq> 0 \<or> \<not> pktbuf_empty (r_buf s') \<Longrightarrow>
    receive_step crc (both, s) (both', s'\<lparr>r_need_ack := False, r_need_nack := False\<rparr>)"

inductive_cases receive_stepE: "receive_step crc x y"

inductive spec_step :: "areceiver \<Rightarrow> areceiver \<Rightarrow> bool" where
  spec_event: "spec_step a (a_event cs a)"

inductive_simps spec_step_simps: "spec_step a b"

text \<open>A step is a round of the loop.\<close>

lemma receive_step_loop:
  assumes "receive_step crc x y"
  shows "\<exists>ev. \<forall>polls. receive_loop crc (fst x) (ev # polls) (snd x) = receive_loop crc (fst y) polls (snd y)"
  using assms
proof (cases rule: receive_step.cases)
  case (rx_round both file_ev sock_ev s both' s')
  then show ?thesis
    by (intro exI [of _ "Poll_ready file_ev sock_ev"]) simp
qed

lemma keeping_up_round:
  assumes "keeping_up s" and "receive_ready crc file_ev sock_ev s = Inr (True, both', s')"
  shows "keeping_up (clear_needs s') \<and>
    (abs_receiver s' = abs_receiver s \<or> (\<exists>cs. abs_receiver s' = a_event cs (abs_receiver s)))"
proof (cases sock_ev)
  case False
  then show ?thesis
    using quiet_round [OF assms(1)] assms by auto
next
  case True
  obtain src d evs where rx: "e_rx s = Rx src d # evs"
  proof (cases "e_rx s")
    case Nil
    then show ?thesis
      using failing_round(1) [OF assms(1), of crc file_ev] assms(2) True by simp
  next
    case (Cons ev evs)
    then show ?thesis
      using failing_round(2) [OF assms(1), of evs crc file_ev] assms(2) True that by (cases ev) auto
  qed
  obtain cs where "carries crc d cs"
    using ex_carries by blast
  from round_step [OF assms(1) rx this, of file_ev] show ?thesis
    using assms(2) True by auto
qed

lemma receive_step_spec:
  assumes "receive_step crc x y" and "keeping_up (snd x)"
  shows "keeping_up (snd y)"
    and "abs_receiver (snd y) = abs_receiver (snd x) \<or> spec_step (abs_receiver (snd x)) (abs_receiver (snd y))"
proof -
  obtain both file_ev sock_ev s both' s' where r: "x = (both, s)" "y = (both', clear_needs s')"
    "receive_ready crc (both \<and> file_ev) sock_ev s = Inr (True, both', s')"
    using assms(1) by (cases rule: receive_stepE) (auto simp: clear_needs_def)
  from keeping_up_round [OF _ r(3)] assms(2) r(1,2)
  show "keeping_up (snd y)"
    "abs_receiver (snd y) = abs_receiver (snd x) \<or> spec_step (abs_receiver (snd x)) (abs_receiver (snd y))"
    by (auto simp: spec_step_simps)
qed

interpretation receiver_rounds: simulation "\<lambda>x. keeping_up (snd x)" "receive_step crc" "\<lambda>x. keeping_up (snd x)"
  "\<lambda>x. abs_receiver (snd x)" spec_step for crc :: crc_fun
proof unfold_locales
  show "keeping_up (snd y)" if "keeping_up (snd x)" "receive_step crc x y" for x y
    using receive_step_spec(1) that by blast
  show "spec_step\<^sup>*\<^sup>* (abs_receiver (snd x)) (abs_receiver (snd y))"
    if "keeping_up (snd x)" "receive_step crc x y" for x y
    using receive_step_spec(2) [OF that(2,1)] by auto
qed

text \<open>What has been written stays written, whatever the receiver goes through.\<close>

lemma deliver_out: "\<exists>t. a_out (a_deliver n a) = a_out a @ t"
proof (induction n a rule: a_deliver.induct)
  case (2 n a)
  then show ?case
    by (cases "a_store a 0") fastforce+
qed simp

lemma event_out: "\<exists>t. a_out (a_event cs a) = a_out a @ t"
proof (cases cs)
  case (Some seg)
  then show ?thesis
    using deliver_out [of 32 "a\<lparr>a_ts := s_ts seg, a_store := (a_store a)(unat (s_seq seg - a_next a) \<mapsto> seg)\<rparr>"]
    by (simp add: a_event_def a_step_def Let_def)
qed (simp add: a_event_def)

lemma output_grows:
  assumes "(receive_step crc)\<^sup>*\<^sup>* x y" and "keeping_up (snd x)"
  shows "\<exists>t. r_out (snd y) = r_out (snd x) @ t"
proof -
  have "\<exists>t. a_out (abs_receiver (snd y)) = r_out (snd x) @ t"
  proof (rule receiver_rounds.abs_inv [OF assms])
    show "\<exists>t. a_out b = r_out (snd x) @ t" if out: "\<exists>t. a_out a = r_out (snd x) @ t" "spec_step a b" for a b
    proof -
      obtain cs t where "b = a_event cs a" "a_out a = r_out (snd x) @ t"
        using out by (auto simp: spec_step_simps)
      moreover obtain u where "a_out (a_event cs a) = a_out a @ u"
        using event_out by blast
      ultimately show ?thesis
        by simp
    qed
  qed simp
  then show ?thesis
    by simp
qed

end
