(* ===== verification/Sender.thy ===== *)
theory Sender
  imports Net Pktbuf
begin

text \<open>
  The sending side, \<open>sender/transmit.c\<close>: its static variables, the results of reading the
  input and of \<open>poll\<close>, and one definition per function. The packets of the send buffer are
  in wire format.
\<close>

unbundle bit_operations_syntax

section \<open>State\<close>

text \<open>What a \<open>read\<close> of the input returns: an error, or bytes, none at the end of the file.\<close>

datatype in_event = In_error | In_data "byte list"

record sender = env +
  tx_buf :: pktbuf
  tx_last_ack :: u8
  tx_last_win :: u8
  tx_last_sent :: u8
  tx_last_chunk_read :: u8
  tx_dup_ack :: u8
  tx_retry_count :: int
  tx_last_in_read :: int
  tx_input :: "in_event list"

definition MAX_DUP_ACK :: u8 where [simp]: "MAX_DUP_ACK = 3"
definition MAX_RETRANSMISSION :: int where [simp]: "MAX_RETRANSMISSION = 5"

datatype poll_event = Poll_failed | Poll_expired | Poll_events bool bool

definition sender_init :: "pktbuf \<Rightarrow> in_event list \<Rightarrow> env \<Rightarrow> sender" where
  "sender_init buf input e =
    \<lparr>e_rx = e_rx e, e_wr = e_wr e, e_connect = e_connect e, e_tx = e_tx e, e_peer = e_peer e,
     e_fd = e_fd e, e_closed = e_closed e,
     tx_buf = buf, tx_last_ack = 0, tx_last_win = 1, tx_last_sent = -1, tx_last_chunk_read = -1,
     tx_dup_ack = 0, tx_retry_count = 0, tx_last_in_read = -1, tx_input = input\<rparr>"

definition tx_slot :: "sender \<Rightarrow> nat \<Rightarrow> pkt" where
  "tx_slot s i = slot (tx_buf s) i"

section \<open>Acknowledgements\<close>

text \<open>
  The loop of \<open>process_nack\<close>, with the number of rounds that are left. Its bound is stored in an
  \<open>int\<close>.
\<close>

fun nack_loop :: "nat \<Rightarrow> u32 \<Rightarrow> u8 \<Rightarrow> sender \<Rightarrow> (int \<times> sender) res" where
  "nack_loop 0 i nack s = Inr (0, s)"
| "nack_loop (Suc n) i nack s =
    rbind (pktbuf_at (tx_buf s) i) (\<lambda>j.
      if p_seq (tx_slot s j) = nack
      then rbind (net_send (tx_slot s j) s) (\<lambda>(st, s). Inr (of_bool (st \<noteq> NET_OK), s))
      else nack_loop n (i + 1) nack s)"

definition process_nack :: "u8 \<Rightarrow> sender \<Rightarrow> (int \<times> sender) res" where
  "process_nack nack s = nack_loop (nat (sint (pktbuf_used (tx_buf s)))) 0 nack s"

function dequeue_acked :: "u8 \<Rightarrow> sender \<Rightarrow> sender" where
  "dequeue_acked ack s =
    (if tx_last_ack s \<noteq> ack
     then dequeue_acked ack (s\<lparr>tx_buf := snd (pktbuf_dequeue (tx_buf s)),
                               tx_last_ack := tx_last_ack s + 1\<rparr>)
     else s)"
  by pat_completeness auto

lemma seq_distance_less: "a \<noteq> b \<Longrightarrow> unat (b - (a + 1) :: u8) < unat (b - a)"
proof -
  assume "a \<noteq> b"
  then have "b - a \<noteq> 0"
    by simp
  then have "0 < unat (b - a)"
    by (rule unat_gt_0 [THEN iffD2])
  then have dec: "unat (b - a - 1) = unat (b - a) - 1"
    using unat_sub_if' [of "b - a" 1] by (simp only: unat_1) simp
  have "b - (a + 1) = b - a - 1"
    by (simp add: algebra_simps)
  then show ?thesis
    using \<open>0 < unat (b - a)\<close> by (simp only: dec)
qed

termination dequeue_acked
  by (relation "measure (\<lambda>(ack, s). unat (ack - tx_last_ack s))") (auto intro: seq_distance_less)

declare dequeue_acked.simps [simp del]

definition process_ack :: "u8 \<Rightarrow> sender \<Rightarrow> int \<times> sender" where
  "process_ack ack s = (0, (dequeue_acked ack s)\<lparr>tx_dup_ack := 0\<rparr>)"

definition process_dup_ack :: "u8 \<Rightarrow> sender \<Rightarrow> (int \<times> sender) res" where
  "process_dup_ack ack s =
    (let s = s\<lparr>tx_dup_ack := tx_dup_ack s + 1\<rparr> in
     if tx_dup_ack s = MAX_DUP_ACK then
       let s = s\<lparr>tx_dup_ack := 0\<rparr> in
       case pktbuf_first (tx_buf s) of
         None \<Rightarrow> Inl Null_deref
       | Some j \<Rightarrow> rbind (net_send (tx_slot s j) s) (\<lambda>(st, s). Inr (of_bool (st \<noteq> NET_OK), s))
     else Inr (0, s))"

text \<open>
  \<open>handle_socket_read\<close> receives into a local packet. It is uninitialised; it is written
  before it is read, so its contents do not matter and it starts as zeroes here.
\<close>

definition handle_socket_read :: "crc_fun \<Rightarrow> sender \<Rightarrow> (int \<times> sender) res" where
  "handle_socket_read crc32 s =
    (let s = s\<lparr>tx_retry_count := 0\<rparr>;
         win = tx_last_sent s - tx_last_ack s + 1 in
     rbind (net_recv_pkt crc32 pkt_zero (tx_last_ack s) win s) (\<lambda>(err, pkt, s).
     if err \<noteq> NET_OK then Inr (of_bool (err = NET_ERROR), s)
     else if p_type pkt \<noteq> ucast PTYPE_ACK \<and> p_type pkt \<noteq> ucast PTYPE_NACK then Inr (0, s)
     else
       let s = (if tx_last_win s \<noteq> ucast (p_window pkt)
                then s\<lparr>tx_last_win := ucast (p_window pkt)\<rparr> else s) in
       if p_type pkt = ucast PTYPE_NACK then process_nack (p_seq pkt) s
       else if tx_last_ack s = p_seq pkt then process_dup_ack (p_seq pkt) s
       else Inr (process_ack (p_seq pkt) s)))"

section \<open>Input\<close>

definition sys_read :: "sender \<Rightarrow> (in_event \<times> sender) res" where
  "sys_read s = (case tx_input s of [] \<Rightarrow> Inl Blocked | ev # evs \<Rightarrow> Inr (ev, s\<lparr>tx_input := evs\<rparr>))"

text \<open>The slot is filled before the read: after an error it stays in the buffer.\<close>

definition handle_input_read :: "crc_fun \<Rightarrow> sender \<Rightarrow> (int \<times> sender) res" where
  "handle_input_read crc32 s =
    (let s = s\<lparr>tx_last_chunk_read := tx_last_chunk_read s + 1\<rparr>;
         (i, buf) = pktbuf_enqueue (tx_buf s);
         pkt = (slot buf i)\<lparr>p_type := ucast PTYPE_DATA, p_window := 0,
                            p_seq := tx_last_chunk_read s, p_ts := PKT_TIMESTAMP\<rparr>;
         s = s\<lparr>tx_buf := set_slot buf i pkt\<rparr> in
     rbind (sys_read s) (\<lambda>(ev, s).
       case ev of
         In_error \<Rightarrow> Inr (-1, s\<lparr>tx_last_in_read := -1\<rparr>)
       | In_data bytes \<Rightarrow>
           let bs = take MAX_PAYLOAD_SIZE bytes;
               s = s\<lparr>tx_last_in_read := int (length bs)\<rparr>;
               pkt = pkt\<lparr>p_payload := splice (p_payload pkt) 0 bs, p_length := of_nat (length bs)\<rparr> in
           rbind (pkt_encode_inline crc32 pkt) (\<lambda>(_, pkt).
             Inr (0, s\<lparr>tx_buf := set_slot (tx_buf s) i pkt\<rparr>))))"

section \<open>Sending and retransmission\<close>

text \<open>
  The loop of the go-back-n: its condition \<open>sseq != last_sent + 1\<close> compares an 8-bit
  variable with a sum computed as \<open>int\<close>, so it never ends on its own when \<open>last_sent\<close> is
  255; a loop that does not end is \<^term>\<open>None\<close>.
\<close>

partial_function (option) resend_loop :: "u8 \<Rightarrow> sender \<Rightarrow> (int \<times> sender) res option" where
  "resend_loop sseq s =
    (if unat sseq \<noteq> unat (tx_last_sent s) + 1 then
       case pktbuf_slotfor_seq (tx_buf s) sseq of
         Inl f \<Rightarrow> Some (Inl f)
       | Inr (j, buf) \<Rightarrow>
           case net_send (slot buf j) (s\<lparr>tx_buf := buf\<rparr>) of
             Inl f \<Rightarrow> Some (Inl f)
           | Inr (st, s) \<Rightarrow> if st \<noteq> NET_OK then Some (Inr (-1, s)) else resend_loop (sseq + 1) s
     else Some (Inr (0, s\<lparr>tx_dup_ack := 0\<rparr>)))"

definition handle_retransmission :: "sender \<Rightarrow> (int \<times> sender) res" where
  "handle_retransmission s =
    (let s = s\<lparr>tx_retry_count := tx_retry_count s + 1\<rparr> in
     if tx_retry_count s > MAX_RETRANSMISSION then Inr (-1, s)
     else case resend_loop (tx_last_ack s) s of None \<Rightarrow> Inl Endless | Some r \<Rightarrow> r)"

definition can_send :: "sender \<Rightarrow> bool" where
  "can_send s \<longleftrightarrow> \<not> pktbuf_empty (tx_buf s) \<and> tx_last_sent s + 1 - tx_last_ack s < tx_last_win s"

lemma sys_write_fields:
  "sys_write bs s = (r, s') \<Longrightarrow> s' = s\<lparr>e_tx := e_tx s', e_wr := e_wr s'\<rparr>" for s :: sender
  by (cases s) (auto simp: sys_write_def split: list.splits if_splits)

lemma net_send_fields:
  "net_send p s = Inr (st, s') \<Longrightarrow> s' = s\<lparr>e_tx := e_tx s', e_wr := e_wr s'\<rparr>" for s :: sender
  by (auto simp: net_send_def Let_def dest: sys_write_fields split: if_splits prod.splits)

function do_send_sbuf :: "sender \<Rightarrow> (int \<times> sender) res" where
  "do_send_sbuf s =
    (if tx_last_sent s \<noteq> tx_last_chunk_read s \<and> can_send s then
       let s1 = s\<lparr>tx_last_sent := tx_last_sent s + 1\<rparr> in
       rbind (pktbuf_slotfor_seq (tx_buf s1) (tx_last_sent s1)) (\<lambda>(j, buf).
       rbind (net_send (slot buf j) (s1\<lparr>tx_buf := buf\<rparr>)) (\<lambda>(st, s2).
         if st \<noteq> NET_OK then Inr (-1, s2) else do_send_sbuf s2))
     else Inr (0, s))"
  by pat_completeness auto

lemma net_send_progress:
  fixes s :: sender
  assumes "net_send p (s\<lparr>tx_last_sent := a, tx_buf := b\<rparr>) = Inr (st, s')"
  shows "tx_last_sent s' = a" "tx_last_chunk_read s' = tx_last_chunk_read s"
  by (subst net_send_fields [OF assms], simp)+

termination do_send_sbuf
  by (relation "measure (\<lambda>s. unat (tx_last_chunk_read s - tx_last_sent s))")
    (auto simp: net_send_progress intro: seq_distance_less)

declare do_send_sbuf.simps [simp del]

section \<open>The main loop\<close>

text \<open>One round after \<open>poll\<close> reported events: whether it goes on, and whether the input is polled.\<close>

definition transmit_ready ::
  "crc_fun \<Rightarrow> bool \<Rightarrow> bool \<Rightarrow> sender \<Rightarrow> (bool \<times> bool \<times> sender) res" where
  "transmit_ready crc32 file_ev sock_ev s =
    rbind (if sock_ev then handle_socket_read crc32 s else Inr (0, s)) (\<lambda>(err, s).
    if err \<noteq> 0 then Inr (False, True, s) else
    rbind (if file_ev then handle_input_read crc32 s else Inr (0, s)) (\<lambda>(err, s).
    if err \<noteq> 0 then Inr (False, True, s) else
    rbind (do_send_sbuf s) (\<lambda>(err, s).
    if err \<noteq> 0 then Inr (False, True, s)
    else Inr (True, tx_last_in_read s \<noteq> 0 \<and> \<not> pktbuf_full (tx_buf s), s))))"

definition transmit_expired :: "bool \<Rightarrow> sender \<Rightarrow> (bool \<times> bool \<times> sender) res" where
  "transmit_expired both s =
    (if \<not> pktbuf_empty (tx_buf s)
     then rbind (handle_retransmission s) (\<lambda>(err, s). Inr (err = 0, both, s))
     else Inr (True, both, s))"

fun transmit_loop :: "crc_fun \<Rightarrow> bool \<Rightarrow> poll_event list \<Rightarrow> sender \<Rightarrow> (int \<times> sender) res" where
  "transmit_loop crc32 both [] s = Inl Blocked"
| "transmit_loop crc32 both (ev # polls) s =
    rbind (case ev of
        Poll_failed \<Rightarrow> Inr (False, both, s)
      | Poll_events file_ev sock_ev \<Rightarrow> transmit_ready crc32 (both \<and> file_ev) sock_ev s
      | Poll_expired \<Rightarrow> transmit_expired both s) (\<lambda>(go_on, both, s).
    if \<not> go_on then Inr (-103, s)
    else if tx_last_in_read s \<noteq> 0 \<or> \<not> pktbuf_empty (tx_buf s)
    then transmit_loop crc32 both polls s
    else Inr (0, s))"

definition transmit ::
  "crc_fun \<Rightarrow> poll_event list \<Rightarrow> pktbuf \<Rightarrow> in_event list \<Rightarrow> env \<Rightarrow> (int \<times> sender) res" where
  "transmit crc32 polls buffer input e = transmit_loop crc32 True polls (sender_init buffer input e)"

end
