(* ===== verification/Sender_Inv.thy ===== *)
theory Sender_Inv
  imports Sender Net_Props Pktbuf_Queue
begin

text \<open>
  The invariant of the sender and what each of its operations does under it: the send buffer
  holds the encodings of the chunks read and not yet acknowledged, and its free slots still
  hold older ones.
\<close>

unbundle bit_operations_syntax

declare nth_items [simp del]

lemma unat_sub_le: "unat y \<le> unat x \<Longrightarrow> unat (x - y) = unat x - unat y" for x y :: "'a::len word"
  by (simp add: unat_sub_if')

section \<open>Chunks in the send buffer\<close>

definition chunk_segment :: "nat \<Rightarrow> byte list \<Rightarrow> segment" where
  "chunk_segment i bs = \<lparr>s_type = ucast PTYPE_DATA, s_tr = 0, s_window = 0, s_seq = of_nat i,
     s_length = of_nat (length bs), s_ts = PKT_TIMESTAMP, s_data = bs\<rparr>"

text \<open>A slot in wire format that holds chunk \<open>i\<close>.\<close>

definition holds :: "crc_fun \<Rightarrow> nat \<Rightarrow> byte list \<Rightarrow> pkt \<Rightarrow> bool" where
  "holds crc i bs q \<longleftrightarrow>
     (\<exists>p. q = encoded_pkt crc p \<and> wf_pkt p \<and> unat (p_length p) = length bs \<and> length bs \<le> 512 \<and>
        raw_segment_of p = chunk_segment i bs)"

lemma holds_seq: "holds crc i bs q \<Longrightarrow> p_seq q = of_nat i"
proof -
  assume "holds crc i bs q"
  then obtain p where p: "q = encoded_pkt crc p" "wf_pkt p" "unat (p_length p) \<le> 512"
    "raw_segment_of p = chunk_segment i bs"
    by (auto simp: holds_def)
  have "s_seq (raw_segment_of p) = p_seq p"
    by (simp add: raw_segment_of_def segment_of_def)
  then show ?thesis
    using p encoded_pkt(2) by (simp add: chunk_segment_def)
qed

lemma holds_send:
  assumes "holds crc i bs q" and "e_wr s = []"
  shows "net_send q s = Inr (NET_OK, s\<lparr>e_tx := e_tx s @ [wire_of crc (chunk_segment i bs)]\<rparr>)"
proof -
  obtain p where p: "q = encoded_pkt crc p" "wf_pkt p" "unat (p_length p) \<le> 512"
    "raw_segment_of p = chunk_segment i bs"
    using assms(1) by (auto simp: holds_def)
  have "write_ok (unat (pkt_len p)) s"
    using assms(2) by (simp add: write_ok_def)
  then have "net_send q s = Inr (NET_OK, after_write (wire_of crc (chunk_segment i bs)) s)"
    using net_send_encoded [OF p(2,3), of s crc] p by simp
  then show ?thesis
    using assms(2) by (simp add: after_write_def)
qed

text \<open>
  \<open>A\<close> chunks have been acknowledged, \<open>R\<close> is the list of all chunks read. A slot holds the
  last chunk that was put into it.
\<close>

definition outstanding :: "sender \<Rightarrow> nat" where
  "outstanding s = unat (tx_last_sent s + 1 - tx_last_ack s)"

text \<open>What every slot keeps: no TR bit, and a length that fits, both read on the wire.\<close>

definition clean_slot :: "pkt \<Rightarrow> bool" where
  "clean_slot p \<longleftrightarrow> p_tr p = 0 \<and> unat (ntohs (p_length p)) \<le> 512"

definition sender_inv :: "crc_fun \<Rightarrow> nat \<Rightarrow> byte list list \<Rightarrow> sender \<Rightarrow> bool" where
  "sender_inv crc A R s \<longleftrightarrow>
     wf_buf (tx_buf s) \<and> cap (tx_buf s) \<le> 128 \<and> A \<le> length R \<and>
     used (tx_buf s) = length R - A \<and> unat (b_first (tx_buf s)) mod cap (tx_buf s) = A mod cap (tx_buf s) \<and>
     tx_last_ack s = of_nat A \<and> tx_last_chunk_read s + 1 = of_nat (length R) \<and>
     outstanding s \<le> used (tx_buf s) \<and> list_all clean_slot (b_head (tx_buf s)) \<and>
     (\<forall>c < length R. length R \<le> c + cap (tx_buf s) \<longrightarrow>
        holds crc c (R ! c) (slot (tx_buf s) (c mod cap (tx_buf s))))"

lemma sender_invD:
  assumes "sender_inv crc A R s"
  shows "wf_buf (tx_buf s)" "cap (tx_buf s) \<le> 128" "A \<le> length R" "used (tx_buf s) = length R - A"
    "unat (b_first (tx_buf s)) mod cap (tx_buf s) = A mod cap (tx_buf s)"
    "tx_last_ack s = of_nat A" "tx_last_chunk_read s + 1 = of_nat (length R)"
    "outstanding s \<le> used (tx_buf s)" "list_all clean_slot (b_head (tx_buf s))"
    "c < length R \<Longrightarrow> length R \<le> c + cap (tx_buf s) \<Longrightarrow>
       holds crc c (R ! c) (slot (tx_buf s) (c mod cap (tx_buf s)))"
    "used (tx_buf s) \<le> cap (tx_buf s)"
  using assms wf_bufD(3) unfolding sender_inv_def by blast+

lemma sender_inv_update [simp]:
  "sender_inv crc A R (s\<lparr>e_tx := a\<rparr>) = sender_inv crc A R s"
  "sender_inv crc A R (s\<lparr>e_rx := b\<rparr>) = sender_inv crc A R s"
  "sender_inv crc A R (s\<lparr>tx_last_win := c\<rparr>) = sender_inv crc A R s"
  "sender_inv crc A R (s\<lparr>tx_dup_ack := c\<rparr>) = sender_inv crc A R s"
  "sender_inv crc A R (s\<lparr>tx_retry_count := d\<rparr>) = sender_inv crc A R s"
  "sender_inv crc A R (s\<lparr>tx_last_in_read := d\<rparr>) = sender_inv crc A R s"
  "sender_inv crc A R (s\<lparr>tx_input := f\<rparr>) = sender_inv crc A R s"
  by (simp_all add: sender_inv_def outstanding_def)

lemma slot_index_acked:
  assumes "sender_inv crc A R s"
  shows "slot_index (tx_buf s) j = (A + j) mod cap (tx_buf s)"
  using sender_invD(5) [OF assms] by (metis cap_def mod_add_cong slot_index_def)

lemma holds_item:
  assumes "sender_inv crc A R s" and "j < used (tx_buf s)"
  shows "holds crc (A + j) (R ! (A + j)) (slot (tx_buf s) (slot_index (tx_buf s) j))"
  using sender_invD(10) [OF assms(1), of "A + j"] sender_invD(3,4,11) [OF assms(1)] assms(2)
  by (simp add: slot_index_acked [OF assms(1)])

lemma sender_seq:
  assumes "sender_inv crc A R s"
  shows "seq_from (tx_last_ack s) (items (tx_buf s))"
  using holds_seq [OF holds_item [OF assms]] sender_invD(6) [OF assms]
  by (simp add: seq_from_def nth_items)

text \<open>Looking up a sequence number in use does not change the buffer.\<close>

lemma slotfor_seq_inside:
  assumes "wf_buf b" and "seq_from s (items b)" and "unat (seq - s) < used b"
  shows "pktbuf_slotfor_seq b seq = Inr (slot_index b (unat (seq - s)), b)"
proof -
  have u: "used b \<noteq> 0" "unat (seq - s) < cap b"
    using assms(3) wf_bufD(3) [OF assms(1)] by simp_all
  have "extend_slots b s (seq - s) = b"
    using extend_slots_unfold [OF assms(1), of s "seq - s"] assms(3) by simp
  then have "pktbuf_slotfor_seq b seq = Inr (buf_get (first_item b + ucast (seq - s)) b, b)"
    using slotfor_seq_nonempty [OF assms(1,2) u(1), of seq] u(2) by (simp add: Let_def)
  then show ?thesis
    using slotfor_seq_ok [OF assms(1,2) u] by auto
qed

lemma send_item:
  fixes s' :: sender
  assumes "sender_inv crc A R s" and "unat (seq - tx_last_ack s) < used (tx_buf s)" and "e_wr s' = []"
  shows "\<exists>i. pktbuf_slotfor_seq (tx_buf s) seq = Inr (i, tx_buf s) \<and>
    net_send (slot (tx_buf s) i) s' = Inr (NET_OK, s'\<lparr>e_tx := e_tx s' @
      [wire_of crc (chunk_segment (A + unat (seq - tx_last_ack s)) (R ! (A + unat (seq - tx_last_ack s))))]\<rparr>)"
  using slotfor_seq_inside [OF sender_invD(1) [OF assms(1)] sender_seq [OF assms(1)] assms(2)]
    holds_send [OF holds_item [OF assms(1,2)] assms(3)] by simp

section \<open>Acknowledgements\<close>

lemma dequeue_acked_eq:
  "dequeue_acked ack s = s\<lparr>tx_buf := (tx_buf s)\<lparr>b_first := b_first (tx_buf s) + of_nat (unat (ack - tx_last_ack s))\<rparr>,
     tx_last_ack := ack\<rparr>"
proof (induction "unat (ack - tx_last_ack s)" arbitrary: s)
  case 0
  then have "ack = tx_last_ack s"
    by (simp add: unsigned_eq_0_iff)
  then show ?case
    by (subst dequeue_acked.simps) simp
next
  case (Suc n)
  let ?s = "s\<lparr>tx_buf := snd (pktbuf_dequeue (tx_buf s)), tx_last_ack := tx_last_ack s + 1\<rparr>"
  have ne: "tx_last_ack s \<noteq> ack"
    using Suc.hyps(2) by auto
  have e: "ack - (tx_last_ack s + 1) = ack - tx_last_ack s - 1"
    by (simp add: algebra_simps)
  have "unat (ack - tx_last_ack s - 1) = n"
    using Suc.hyps(2) unat_sub_if' [of "ack - tx_last_ack s" 1] by (simp only: unat_1) simp
  then have "unat (ack - (tx_last_ack s + 1)) = n"
    by (simp only: e)
  then have n: "n = unat (ack - tx_last_ack ?s)"
    by simp
  have "dequeue_acked ack s = dequeue_acked ack ?s"
    using ne by (simp add: dequeue_acked.simps [of ack s])
  also have "\<dots> = ?s\<lparr>tx_buf := (tx_buf ?s)\<lparr>b_first := b_first (tx_buf ?s) + of_nat n\<rparr>, tx_last_ack := ack\<rparr>"
    using Suc.hyps(1) [OF n] n by simp
  finally show ?case
    unfolding Suc.hyps(2) [symmetric] by (simp add: pktbuf_dequeue_def)
qed

lemma process_ack_step:
  assumes "sender_inv crc A R s" and "unat (ack - tx_last_ack s) \<le> outstanding s"
  shows "\<exists>s'. process_ack ack s = (0, s') \<and> sender_inv crc (A + unat (ack - tx_last_ack s)) R s' \<and>
    outstanding s' = outstanding s - unat (ack - tx_last_ack s) \<and>
    s' = s\<lparr>tx_buf := tx_buf s', tx_last_ack := tx_last_ack s', tx_dup_ack := 0\<rparr>"
proof -
  let ?d = "unat (ack - tx_last_ack s)" and ?b = "tx_buf s"
  let ?b' = "?b\<lparr>b_first := b_first ?b + of_nat ?d\<rparr>"
  let ?s' = "s\<lparr>tx_buf := ?b', tx_last_ack := ack, tx_dup_ack := 0\<rparr>"
  note i = sender_invD [OF assms(1)]
  have le: "?d \<le> used ?b"
    using assms(2) i(8) by simp
  have "pktbuf_used ?b' = pktbuf_used ?b - of_nat ?d"
    by (simp add: pktbuf_used_def algebra_simps)
  moreover have "of_nat ?d \<le> pktbuf_used ?b"
    using le unat_less_u8 [of "ack - tx_last_ack s"] by (simp add: word_le_nat_alt used_def unat_of_nat)
  ultimately have u: "used ?b' = used ?b - ?d"
    using unat_less_u8 [of "ack - tx_last_ack s"]
    by (simp add: used_def unat_sub_if' word_le_nat_alt unat_of_nat)
  have c: "cap ?b' = cap ?b" "slot ?b' = slot ?b" "b_head ?b' = b_head ?b"
    by (simp_all add: cap_def slot_def fun_eq_iff)
  have wf: "wf_buf ?b'"
    using i(1) u wf_bufD(3) [OF i(1)]
    by (simp add: wf_buf_def word_le_nat_alt) (simp add: used_def cap_def le_diff_conv)
  have "unat (b_first ?b') mod cap ?b = (unat (b_first ?b) + ?d) mod cap ?b"
    using unat_add_mod [OF i(1), of "b_first ?b" ?d] by simp
  also have "\<dots> = (A + ?d) mod cap ?b"
    using i(5) by (metis mod_add_cong)
  finally have f: "unat (b_first ?b') mod cap ?b = (A + ?d) mod cap ?b" .
  have a: "ack = of_nat (A + ?d)"
    using i(6) by simp
  have "tx_last_sent s + 1 - ack = (tx_last_sent s + 1 - tx_last_ack s) - (ack - tx_last_ack s)"
    by simp
  moreover have "tx_last_sent ?s' = tx_last_sent s" "tx_last_ack ?s' = ack"
    by simp_all
  ultimately have o: "outstanding ?s' = outstanding s - ?d"
    using unat_sub_le [OF assms(2) [unfolded outstanding_def]] by (simp only: outstanding_def)
  have "A + ?d \<le> length R" "outstanding s - ?d \<le> length R - (A + ?d)"
    using i(3,4,8) le by linarith+
  then have "sender_inv crc (A + ?d) R ?s'"
    using i(2,4,7,9,10) u c wf f a o by (simp add: sender_inv_def)
  moreover have "process_ack ack s = (0, ?s')"
    by (simp add: process_ack_def dequeue_acked_eq)
  ultimately show ?thesis
    using o by (intro exI [of _ ?s']) simp
qed

text \<open>Every slot whose number is less than the number of chunks read holds a chunk.\<close>

lemma holds_slot:
  assumes "sender_inv crc A R s" and "i < cap (tx_buf s)" and "i < length R"
  shows "\<exists>c < length R. length R \<le> c + cap (tx_buf s) \<and> c mod cap (tx_buf s) = i \<and>
    holds crc c (R ! c) (slot (tx_buf s) i)"
proof -
  let ?k = "cap (tx_buf s)"
  let ?c = "i + ?k * ((length R - 1 - i) div ?k)"
  have "?k * ((length R - 1 - i) div ?k) \<le> length R - 1 - i"
    by simp
  then have c: "?c < length R"
    using assms(3) by linarith
  have "length R - 1 - i < ?k * ((length R - 1 - i) div ?k) + ?k"
    using assms(2) by (metis add.commute div_mult_mod_eq mod_less_divisor mult.commute nat_add_left_cancel_less gr_implies_not0 gr0I)
  then have "length R \<le> ?c + ?k"
    by linarith
  moreover have "?c mod ?k = i"
    using assms(2) by simp
  ultimately show ?thesis
    using sender_invD(10) [OF assms(1) c] c by auto
qed

lemma pktbuf_at_low:
  assumes "wf_buf b" and "i < used b"
  shows "pktbuf_at b (of_nat i) = Inr i"
proof -
  have le: "used b \<le> cap b" "cap b \<le> 2 ^ 30"
    using wf_bufD [OF assms(1)] by simp_all
  then have u: "unat (of_nat i :: u32) = i"
    using assms(2) by (simp add: unat_of_nat)
  then have "buf_get (of_nat i) b = i"
    using buf_get_mod [OF assms(1), of "of_nat i"] assms(2) le(1) by simp
  then show ?thesis
    using assms(2) by (simp add: pktbuf_at_def buf_get_def word_less_nat_alt used_def)
qed

text \<open>A negative acknowledgement is answered with a chunk of that number, or not at all.\<close>

lemma nack_loop_step:
  assumes "sender_inv crc A R s" and "e_wr s = []" and "i + n = used (tx_buf s)"
  shows "nack_loop n (of_nat i) nack s = Inr (0, s) \<or>
    (\<exists>c < length R. length R \<le> c + cap (tx_buf s) \<and> nack_loop n (of_nat i) nack s =
       Inr (0, s\<lparr>e_tx := e_tx s @ [wire_of crc (chunk_segment c (R ! c))]\<rparr>))"
  using assms(3)
proof (induction n arbitrary: i)
  case (Suc n)
  note inv = sender_invD [OF assms(1)]
  have i: "i < used (tx_buf s)"
    using Suc.prems by simp
  note at = pktbuf_at_low [OF inv(1) i]
  show ?case
  proof (cases "p_seq (tx_slot s i) = nack")
    case True
    have "i < cap (tx_buf s)" "i < length R"
      using i inv(4,11) by simp_all
    then obtain c where c: "c < length R" "holds crc c (R ! c) (slot (tx_buf s) i)" "length R \<le> c + cap (tx_buf s)"
      using holds_slot [OF assms(1)] by blast
    show ?thesis
      using True at holds_send [OF c(2) assms(2)] c(1,3) by (auto simp: tx_slot_def)
  next
    case False
    then show ?thesis
      using Suc.IH [of "Suc i"] Suc.prems at by (simp add: add.commute)
  qed
qed simp

lemma dup_ack_step:
  assumes "sender_inv crc A R s" and "e_wr s = []"
  shows "process_dup_ack ack s = Inl Null_deref \<or>
    (\<exists>k. process_dup_ack ack s = Inr (0, s\<lparr>tx_dup_ack := k\<rparr>)) \<or>
    (\<exists>c < length R. length R \<le> c + cap (tx_buf s) \<and> process_dup_ack ack s =
       Inr (0, s\<lparr>tx_dup_ack := 0, e_tx := e_tx s @ [wire_of crc (chunk_segment c (R ! c))]\<rparr>))"
proof (cases "tx_dup_ack s + 1 = 3 \<and> used (tx_buf s) \<noteq> 0")
  case False
  then show ?thesis
    using pktbuf_first_eq [OF sender_invD(1) [OF assms(1)]]
    by (auto simp: process_dup_ack_def Let_def)
next
  case True
  then have u: "0 < used (tx_buf s)" "A < length R" "length R \<le> A + cap (tx_buf s)"
    using sender_invD(4,11) [OF assms(1)] by auto
  let ?s = "s\<lparr>tx_dup_ack := 0\<rparr>"
  have "net_send (slot (tx_buf s) (slot_index (tx_buf s) 0)) ?s =
      Inr (NET_OK, ?s\<lparr>e_tx := e_tx s @ [wire_of crc (chunk_segment A (R ! A))]\<rparr>)"
    using holds_send [of crc A "R ! A" _ ?s] holds_item [OF assms(1) u(1)] assms(2) by simp
  then show ?thesis
    using True pktbuf_first_eq [OF sender_invD(1) [OF assms(1)]] u
    by (auto simp: process_dup_ack_def Let_def tx_slot_def)
qed

end
