(* ===== verification/Sender_Steps.thy ===== *)
theory Sender_Steps
  imports Sender_Inv
begin

text \<open>
  The operations of the sender that read the input and send: their results as equations under
  the invariant.
\<close>

unbundle bit_operations_syntax

declare nth_items [simp del]

section \<open>Reading a chunk\<close>

lemma filled_holds:
  assumes "wf_pkt p" and "p_tr p = 0" and "length bs \<le> 512"
    and "q = p\<lparr>p_type := 1, p_window := 0, p_seq := of_nat n, p_ts := PKT_TIMESTAMP,
      p_payload := splice (p_payload p) 0 bs, p_length := of_nat (length bs)\<rparr>"
  shows "pkt_encode_inline crc q = Inr (PKT_OK, encoded_pkt crc q)" "holds crc n bs (encoded_pkt crc q)"
    and "wf_pkt (encoded_pkt crc q)" "clean_slot (encoded_pkt crc q)"
proof -
  have len: "unat (p_length q) = length bs"
    using assms(3,4) by (simp add: unat_of_nat)
  have wf: "wf_pkt q"
    using assms by (simp add: wf_pkt_def)
  show "pkt_encode_inline crc q = Inr (PKT_OK, encoded_pkt crc q)"
    using pkt_encode_inline_eq [OF wf, of crc] len assms(3) by simp
  have "raw_segment_of q = chunk_segment n bs"
    using assms(2,3) len by (simp add: raw_segment_of_def segment_of_def chunk_segment_def assms(4) splice_0)
  then show "holds crc n bs (encoded_pkt crc q)"
    using wf len assms(3) unfolding holds_def by blast
  show "wf_pkt (encoded_pkt crc q)" "clean_slot (encoded_pkt crc q)"
    using encoded_pkt [OF wf, of crc] len assms(2-4) by (simp_all add: clean_slot_def)
qed

lemma mod_window_neq: "c mod k \<noteq> n mod k" if "c < n" "n < c + k" for c n k :: nat
proof
  assume "c mod k = n mod k"
  then have "k dvd n - c"
    using that(1) mod_eq_dvd_iff_nat [of c n k] by simp
  then show False
    using that by (auto dest: dvd_imp_le)
qed

lemma input_step:
  assumes "sender_inv crc A R s" and "used (tx_buf s) < cap (tx_buf s)"
    and "tx_input s = In_data bytes # evs"
  shows "\<exists>s'. handle_input_read crc s = Inr (0, s') \<and> sender_inv crc A (R @ [take 512 bytes]) s' \<and>
    outstanding s' = outstanding s \<and>
    s' = s\<lparr>tx_buf := tx_buf s', tx_last_chunk_read := tx_last_chunk_read s + 1,
      tx_last_in_read := int (length (take 512 bytes)), tx_input := evs\<rparr>"
proof -
  let ?b = "tx_buf s" and ?bs = "take 512 bytes" and ?n = "length R"
  note i = sender_invD [OF assms(1)]
  obtain j b1 where e: "pktbuf_enqueue ?b = (j, b1)"
    by force
  have j: "j = ?n mod cap ?b"
    using enqueue_slot [OF i(1)] e slot_index_acked [OF assms(1), of "used ?b"] i(3,4) by simp
  have b1: "wf_buf b1" "used b1 = Suc (used ?b)" "cap b1 = cap ?b" "slot b1 = slot ?b"
    "b_head b1 = b_head ?b" "b_first b1 = b_first ?b"
    using enqueue_items [OF i(1) assms(2)] enqueue_used [OF i(1) assms(2)] enqueue_fields [of ?b] e
    by simp_all
  have jc: "j < cap ?b" "length (b_head ?b) = cap ?b"
    using j wf_bufD(1,4) [OF i(1)] by simp_all
  let ?p = "slot ?b j"
  have p: "wf_pkt ?p" "p_tr ?p = 0"
    using wf_slot [OF i(1) jc(1)] i(9) jc by (simp_all add: slot_def list_all_length clean_slot_def)
  let ?q0 = "?p\<lparr>p_type := 1, p_window := 0, p_seq := of_nat ?n, p_ts := PKT_TIMESTAMP\<rparr>"
  define q where "q = encoded_pkt crc (?p\<lparr>p_type := 1, p_window := 0, p_seq := of_nat ?n,
    p_ts := PKT_TIMESTAMP, p_payload := splice (p_payload ?p) 0 ?bs, p_length := of_nat (length ?bs)\<rparr>)"
  have "length ?bs \<le> 512"
    by simp
  note f = filled_holds [OF p this refl, of crc ?n, folded q_def]
  have again: "set_slot (set_slot b1 j ?q0) j q = set_slot b1 j q"
    by (simp add: set_slot_def)
  let ?s' = "s\<lparr>tx_buf := set_slot b1 j q, tx_last_chunk_read := tx_last_chunk_read s + 1,
      tx_last_in_read := int (length ?bs), tx_input := evs\<rparr>"
  have run: "handle_input_read crc s = Inr (0, ?s')"
    using assms(3) e f(1) i(7) b1(4) again
    by (simp add: handle_input_read_def sys_read_def Let_def q_def)
  have keep: "holds crc c ((R @ [?bs]) ! c) (slot (set_slot b1 j q) (c mod cap ?b))"
    if "c < Suc ?n" "Suc ?n \<le> c + cap ?b" for c
  proof (cases "c = ?n")
    case True
    then show ?thesis
      using f(2) b1(5) jc j by (simp add: slot_set_slot)
  next
    case False
    then have c: "c < ?n" "?n \<le> c + cap ?b"
      using that by simp_all
    have "c mod cap ?b \<noteq> j"
      unfolding j using mod_window_neq [of c ?n "cap ?b"] c(1) that by linarith
    then have "slot (set_slot b1 j q) (c mod cap ?b) = slot ?b (c mod cap ?b)"
      using b1(4,5) jc by (simp add: slot_set_slot)
    then show ?thesis
      using i(10) [OF c] c(1) by (simp only: nth_append if_True)
  qed
  have tr: "list_all clean_slot (b_head (set_slot b1 j q))"
    using i(9) f(4) b1(5) by (auto simp: set_slot_def list_all_iff dest!: set_update_subset_insert [THEN subsetD])
  have wf: "wf_buf (set_slot b1 j q)"
    using b1(1) f(3) by simp
  have o: "outstanding ?s' = outstanding s"
    by (simp add: outstanding_def)
  have cnt: "tx_last_chunk_read ?s' + 1 = of_nat (length (R @ [?bs]))"
    using i(7) by simp
  have sz: "cap (set_slot b1 j q) = cap ?b" "used (set_slot b1 j q) = Suc (used ?b)"
    "b_first (set_slot b1 j q) = b_first ?b"
    using b1 by simp_all
  have "sender_inv crc A (R @ [?bs]) ?s'"
    unfolding sender_inv_def
  proof (intro conjI allI impI)
    fix c
    assume "c < length (R @ [?bs])" "length (R @ [?bs]) \<le> c + cap (tx_buf ?s')"
    then show "holds crc c ((R @ [?bs]) ! c) (slot (tx_buf ?s') (c mod cap (tx_buf ?s')))"
      using keep [of c] sz(1) by simp
  next
    show "tx_last_ack ?s' = of_nat A"
      using i(6) by simp
  next
    show "outstanding ?s' \<le> used (tx_buf ?s')"
      using i(8) sz(2) by (simp only: o) simp
  qed (use i(2-5) sz tr wf cnt in simp_all)
  then show ?thesis
    using run o by (intro exI [of _ ?s']) simp
qed

section \<open>Sending\<close>

definition sends :: "crc_fun \<Rightarrow> byte list list \<Rightarrow> nat \<Rightarrow> nat \<Rightarrow> byte list list" where
  "sends crc R a b = map (\<lambda>i. wire_of crc (chunk_segment i (R ! i))) [a..<b]"

lemma sends_Cons: "a < b \<Longrightarrow> wire_of crc (chunk_segment a (R ! a)) # sends crc R (Suc a) b = sends crc R a b"
  by (simp add: sends_def upt_rec)

lemma outstanding_chunks:
  assumes "sender_inv crc A R s"
  shows "tx_last_sent s = tx_last_chunk_read s \<longleftrightarrow> outstanding s = length R - A"
    and "outstanding s \<le> 128" "outstanding s \<le> length R - A"
proof -
  note i = sender_invD [OF assms]
  show le: "outstanding s \<le> 128" "outstanding s \<le> length R - A"
    using i(2,4,8,11) by simp_all
  have "tx_last_chunk_read s + 1 - tx_last_ack s = of_nat (length R - A)"
    using i(3,6,7) by (simp add: of_nat_diff)
  moreover have "length R - A < 256"
    using i(2,4,11) by simp
  ultimately have "unat (tx_last_chunk_read s + 1 - tx_last_ack s) = length R - A"
    by (simp add: unat_of_nat)
  then have "outstanding s = length R - A \<longleftrightarrow>
      tx_last_sent s + 1 - tx_last_ack s = tx_last_chunk_read s + 1 - tx_last_ack s"
    by (simp only: outstanding_def word_unat_eq_iff)
  then show "tx_last_sent s = tx_last_chunk_read s \<longleftrightarrow> outstanding s = length R - A"
    by simp
qed

lemma outstanding_sent: "outstanding (s\<lparr>tx_last_sent := x\<rparr>) = unat (x + 1 - tx_last_ack s)"
  by (simp add: outstanding_def)

lemma outstanding_Suc:
  assumes "outstanding s < 255"
  shows "outstanding (s\<lparr>tx_last_sent := tx_last_sent s + 1\<rparr>) = Suc (outstanding s)"
proof -
  have "tx_last_sent s + 1 + 1 - tx_last_ack s = (tx_last_sent s + 1 - tx_last_ack s) + 1"
    by simp
  then have "outstanding (s\<lparr>tx_last_sent := tx_last_sent s + 1\<rparr>) =
      unat ((tx_last_sent s + 1 - tx_last_ack s) + 1)"
    by (simp only: outstanding_sent)
  also have "\<dots> = Suc (outstanding s)"
    using assms by (simp only: outstanding_def unat_word_ariths) simp
  finally show ?thesis .
qed

lemma unat_plus_1_u8: "x \<noteq> 255 \<Longrightarrow> unat (x + 1) = unat x + 1" for x :: u8
proof -
  assume "x \<noteq> 255"
  then have "unat x \<noteq> 255"
    by (simp add: word_unat_eq_iff)
  then show ?thesis
    using unat_less_u8 [of x] by (simp add: unat_word_ariths)
qed

lemma outstanding_tx [simp]: "outstanding (s\<lparr>e_tx := t\<rparr>) = outstanding s"
  by (simp add: outstanding_def)

text \<open>
  \<open>do_send_sbuf\<close> sends the chunks after the last one sent, in order, as long as there are any
  and the window has room.
\<close>

lemma send_sbuf_step:
  assumes "sender_inv crc A R s" and "e_wr s = []"
  shows "\<exists>s'. do_send_sbuf s = Inr (0, s') \<and> sender_inv crc A R s' \<and>
    outstanding s' = max (outstanding s) (min (length R - A) (unat (tx_last_win s))) \<and>
    s' = s\<lparr>tx_last_sent := tx_last_sent s',
      e_tx := e_tx s @ sends crc R (A + outstanding s) (A + outstanding s')\<rparr>"
  using assms
proof (induction "length R - A - outstanding s" arbitrary: s rule: less_induct)
  case less
  note inv = less.prems(1) and i = sender_invD [OF less.prems(1)]
  note o = outstanding_chunks [OF less.prems(1)]
  have go: "tx_last_sent s \<noteq> tx_last_chunk_read s \<and> can_send s \<longleftrightarrow>
      outstanding s < length R - A \<and> outstanding s < unat (tx_last_win s)"
    using o i(4) used_eq_0 [of "tx_buf s"]
    by (auto simp: can_send_def word_less_nat_alt outstanding_def)
  show ?case
  proof (cases "outstanding s < length R - A \<and> outstanding s < unat (tx_last_win s)")
    case False
    then have "do_send_sbuf s = Inr (0, s)"
      using go by (simp only: do_send_sbuf.simps [of s] if_False)
    moreover have "outstanding s = max (outstanding s) (min (length R - A) (unat (tx_last_win s)))"
      using False o(3) by auto
    ultimately show ?thesis
      using less.prems(1) by (intro exI [of _ s]) (simp add: sends_def)
  next
    case True
    let ?s1 = "s\<lparr>tx_last_sent := tx_last_sent s + 1\<rparr>"
    let ?s2 = "?s1\<lparr>e_tx := e_tx s @ [wire_of crc (chunk_segment (A + outstanding s) (R ! (A + outstanding s)))]\<rparr>"
    have u: "unat (tx_last_sent s + 1 - tx_last_ack s) < used (tx_buf s)"
      using True i(4) by (simp add: outstanding_def)
    obtain j where j: "pktbuf_slotfor_seq (tx_buf s) (tx_last_sent s + 1) = Inr (j, tx_buf s)"
      "net_send (slot (tx_buf s) j) ?s1 = Inr (NET_OK, ?s2)"
      using send_item [OF inv u, of ?s1] less.prems(2) by (auto simp: outstanding_def)
    have same: "?s1\<lparr>tx_buf := tx_buf s\<rparr> = ?s1"
      by simp
    have run: "do_send_sbuf s = do_send_sbuf ?s2"
      using go True j by (subst do_send_sbuf.simps) (simp add: Let_def)
    have o2: "outstanding ?s2 = Suc (outstanding s)"
      using outstanding_Suc [of s] o(2) by simp
    have "sender_inv crc A R ?s2"
      using inv True o2 i(4) by (simp add: sender_inv_def)
    moreover have "length R - A - outstanding ?s2 < length R - A - outstanding s"
      using True unfolding o2 by linarith
    moreover have "e_wr ?s2 = []"
      using less.prems(2) by simp
    ultimately obtain s' where s': "do_send_sbuf ?s2 = Inr (0, s')" "sender_inv crc A R s'"
      "outstanding s' = max (outstanding ?s2) (min (length R - A) (unat (tx_last_win ?s2)))"
      "s' = ?s2\<lparr>tx_last_sent := tx_last_sent s',
        e_tx := e_tx ?s2 @ sends crc R (A + outstanding ?s2) (A + outstanding s')\<rparr>"
      using less.hyps [of ?s2] by blast
    have os: "outstanding s' = max (outstanding s) (min (length R - A) (unat (tx_last_win s)))"
      "A + outstanding s < A + outstanding s'"
      using s'(3) True o2 by auto
    have "s' = s\<lparr>tx_last_sent := tx_last_sent s',
        e_tx := e_tx s @ sends crc R (A + outstanding s) (A + outstanding s')\<rparr>"
      using s'(4) sends_Cons [OF os(2), of crc R] o2 by simp
    then show ?thesis
      using run s'(1,2) os(1) by (intro exI [of _ s'] conjI) simp_all
  qed
qed

section \<open>Retransmission\<close>

lemma resend_step:
  assumes "sender_inv crc A R s" and "e_wr s = []" and "tx_last_sent s \<noteq> 255"
    and "j \<le> outstanding s" and "sseq = tx_last_ack s + of_nat j"
  shows "resend_loop sseq s = Some (Inr (0, s\<lparr>tx_dup_ack := 0,
    e_tx := e_tx s @ sends crc R (A + j) (A + outstanding s)\<rparr>))"
  using assms
proof (induction "outstanding s - j" arbitrary: s j sseq)
  case 0
  then have "tx_last_ack s + of_nat j = tx_last_sent s + 1"
    by (simp add: outstanding_def)
  moreover note unat_plus_1_u8 [OF 0(4)]
  ultimately have "unat sseq = unat (tx_last_sent s) + 1"
    using 0(6) by simp
  then have "resend_loop sseq s = Some (Inr (0, s\<lparr>tx_dup_ack := 0\<rparr>))"
    by (subst resend_loop.simps) simp
  then show ?case
    using 0(1) by (simp add: sends_def)
next
  case (Suc n)
  note i = sender_invD [OF Suc.prems(1)] and o = outstanding_chunks [OF Suc.prems(1)]
  have j: "j < outstanding s" "unat (of_nat j :: u8) = j"
    using Suc.hyps(2) o(2) by (simp_all add: unat_of_nat)
  have off: "unat (sseq - tx_last_ack s) = j"
    using Suc.prems(5) j(2) by simp
  have "sseq \<noteq> tx_last_sent s + 1"
    using off j(1) by (auto simp: outstanding_def)
  then have ne: "unat sseq \<noteq> unat (tx_last_sent s) + 1"
    by (simp only: word_unat_eq_iff unat_plus_1_u8 [OF Suc.prems(3)] not_False_eq_True)
  let ?s = "s\<lparr>e_tx := e_tx s @ [wire_of crc (chunk_segment (A + j) (R ! (A + j)))]\<rparr>"
  obtain k where k: "pktbuf_slotfor_seq (tx_buf s) sseq = Inr (k, tx_buf s)"
    "net_send (slot (tx_buf s) k) s = Inr (NET_OK, ?s)"
    using send_item [OF Suc.prems(1), of sseq s] Suc.prems(2) off j(1) i(8) by auto
  have "resend_loop sseq s = resend_loop (sseq + 1) ?s"
    using ne k by (subst resend_loop.simps) simp
  also have "\<dots> = Some (Inr (0, ?s\<lparr>tx_dup_ack := 0,
    e_tx := e_tx ?s @ sends crc R (A + Suc j) (A + outstanding ?s)\<rparr>))"
    using Suc.hyps(2) Suc.prems j(1) by (intro Suc.hyps(1)) simp_all
  finally show ?case
    using sends_Cons [of "A + j" "A + outstanding s" crc R] j(1) by simp
qed

lemma resend_at_255:
  assumes ret: "resend_loop sseq s = Some r"
  shows "tx_last_sent s = 255 \<longrightarrow> (\<forall>s'. r \<noteq> Inr (0, s'))"
proof (rule resend_loop.raw_induct
    [where P = "\<lambda>sseq s r. tx_last_sent s = 255 \<longrightarrow> (\<forall>s'. r \<noteq> Inr (0, s'))", OF _ ret])
  fix f sseq and r :: "(int \<times> sender) res" and s :: sender
  let ?body = "(if unat sseq \<noteq> unat (tx_last_sent s) + 1 then
       case pktbuf_slotfor_seq (tx_buf s) sseq of
         Inl f \<Rightarrow> Some (Inl f)
       | Inr (j, buf) \<Rightarrow>
           case net_send (slot buf j) (s\<lparr>tx_buf := buf\<rparr>) of
             Inl f \<Rightarrow> Some (Inl f)
           | Inr (st, s) \<Rightarrow> if st \<noteq> NET_OK then Some (Inr (-1, s)) else f (sseq + 1) s
     else Some (Inr (0, s\<lparr>tx_dup_ack := 0\<rparr>))) :: (int \<times> sender) res option"
  assume IH: "\<And>sseq s r. f sseq s = Some r \<Longrightarrow> tx_last_sent s = 255 \<longrightarrow> (\<forall>s'. r \<noteq> Inr (0, s'))"
    and eq: "?body = Some r"
  show "tx_last_sent s = 255 \<longrightarrow> (\<forall>s'. r \<noteq> Inr (0, s'))"
  proof
    assume l: "tx_last_sent s = 255"
    then have ne: "unat sseq \<noteq> unat (tx_last_sent s) + 1"
      using unat_less_u8 [of sseq] by simp
    have "tx_last_sent s2 = 255" if "net_send p (s\<lparr>tx_buf := b\<rparr>) = Inr (st, s2)" for p b st s2
      using l by (subst net_send_fields [OF that]) simp
    then show "\<forall>s'. r \<noteq> Inr (0, s')"
      using eq ne IH by (auto split: sum.splits prod.splits if_splits)
  qed
qed

end
