(* ===== verification/Sender_Wrap.thy ===== *)
theory Sender_Wrap
  imports Sender_Steps Pktbuf_Overflow
begin

text \<open>
  The go-back-n when the last packet sent has number 255: its loop does not stop there, resends
  the whole ring and what it reserves behind it, and ends the process.
\<close>

unbundle bit_operations_syntax

declare nth_items [simp del]

definition sendable_shape :: "u16 \<times> nat \<Rightarrow> bool" where
  "sendable_shape x \<longleftrightarrow> unat (ntohs (fst x)) \<le> 512 \<and> snd x = 512"

definition clean_shapes :: "pktbuf \<Rightarrow> bool" where
  "clean_shapes b \<longleftrightarrow> list_all sendable_shape (map pkt_shape (b_head b))"

lemma clean_slots_shapes: "wf_buf b \<Longrightarrow> list_all clean_slot (b_head b) \<Longrightarrow> clean_shapes b"
  by (auto simp: clean_shapes_def list_all_iff clean_slot_def sendable_shape_def pkt_shape_def
      wf_buf_def wf_pkt_def)

text \<open>A slot with a length that fits can always be sent.\<close>

lemma clean_send:
  fixes s :: sender
  assumes "clean_shapes b" and "i < length (b_head b)" and "e_wr s = []"
  shows "\<exists>t. net_send (slot b i) s = Inr (NET_OK, s\<lparr>e_tx := t\<rparr>)"
proof -
  let ?q = "slot b i"
  have "sendable_shape (pkt_shape ?q)"
    using assms(1,2) by (simp add: clean_shapes_def list_all_length slot_def)
  then have "pkt_len_serial ?q \<le> 528" "length (pkt_mem ?q) = 528"
    by (simp_all add: sendable_shape_def pkt_shape_def pkt_len_serial_def wf_pkt_def)
  then show ?thesis
    using assms(3) by (auto simp: net_send_def Let_def sys_write_def)
qed

lemma resend_on:
  assumes "pktbuf_slotfor_seq (tx_buf s) sseq = Inr (i, b)" and "i < length (b_head b)"
    and "clean_shapes (tx_buf s)" and "e_wr s = []" and "tx_last_sent s = 255"
  shows "\<exists>t. resend_loop sseq s = resend_loop (sseq + 1) (s\<lparr>tx_buf := b, e_tx := t\<rparr>) \<and> clean_shapes b"
proof -
  have c: "clean_shapes b"
    using slotfor_seq_shapes [OF assms(1)] assms(3) by (simp add: clean_shapes_def)
  obtain t where "net_send (slot b i) (s\<lparr>tx_buf := b\<rparr>) = Inr (NET_OK, s\<lparr>tx_buf := b, e_tx := t\<rparr>)"
    using clean_send [OF c assms(2), of "s\<lparr>tx_buf := b\<rparr>"] assms(4) by auto
  moreover have "unat sseq \<noteq> unat (tx_last_sent s) + 1"
    using unat_less_u8 [of sseq] assms(5) by simp
  ultimately have "resend_loop sseq s = resend_loop (sseq + 1) (s\<lparr>tx_buf := b, e_tx := t\<rparr>)"
    using assms(1) by (subst resend_loop.simps) simp
  then show ?thesis
    using c by blast
qed

lemma seq_Suc: "unat (sseq - a) = j \<Longrightarrow> j < 255 \<Longrightarrow> unat (sseq + 1 - a) = Suc j" for sseq a :: u8
proof -
  assume j: "unat (sseq - a) = j" "j < 255"
  have "sseq + 1 - a = (sseq - a) + 1"
    by simp
  then show ?thesis
    using j by (simp only: unat_word_ariths) simp
qed

text \<open>Once the ring counts one packet too many.\<close>

lemma resend_overfull:
  assumes "wf_buf ((tx_buf s)\<lparr>b_last := b_first (tx_buf s)\<rparr>)" and "used (tx_buf s) = Suc (cap (tx_buf s))"
    and "p_seq (slot (tx_buf s) (slot_index (tx_buf s) 0)) = a" and "cap (tx_buf s) \<le> 128"
    and "clean_shapes (tx_buf s)" and "e_wr s = []" and "tx_last_sent s = 255"
    and "unat (sseq - a) \<le> Suc (cap (tx_buf s))"
  shows "resend_loop sseq s = Some (Inl Exit_failure)"
  using assms
proof (induction "Suc (cap (tx_buf s)) - unat (sseq - a)" arbitrary: s sseq)
  case 0
  have "pktbuf_slotfor_seq (tx_buf s) sseq = Inl Exit_failure"
    using slotfor_seq_overfull [OF 0(2-4), of sseq] 0(1) by (simp split: if_splits)
  moreover have "unat sseq \<noteq> unat (tx_last_sent s) + 1"
    using unat_less_u8 [of sseq] 0(8) by simp
  ultimately show ?case
    by (subst resend_loop.simps) simp
next
  case (Suc n)
  obtain i where i: "i < cap (tx_buf s)" "pktbuf_slotfor_seq (tx_buf s) sseq = Inr (i, tx_buf s)"
    using slotfor_seq_overfull [OF Suc(3-5), of sseq] Suc(2) by (auto split: if_splits)
  have "i < length (b_head (tx_buf s))"
    using wf_bufD(1) [OF Suc(3)] i(1) by (simp add: cap_def)
  from resend_on [OF i(2) this Suc(7-9)] obtain t where t:
    "resend_loop sseq s = resend_loop (sseq + 1) (s\<lparr>tx_buf := tx_buf s, e_tx := t\<rparr>)"
    by blast
  have u: "unat (sseq + 1 - a) = Suc (unat (sseq - a))"
    using Suc(2,6) by (intro seq_Suc) simp_all
  have "resend_loop (sseq + 1) (s\<lparr>e_tx := t\<rparr>) = Some (Inl Exit_failure)"
    using Suc(2-9) u by (intro Suc(1)) simp_all
  then show ?case
    using t by simp
qed

lemma resend_extending:
  assumes "wf_buf (tx_buf s)" and "seq_from a (items (tx_buf s))" and "used (tx_buf s) \<noteq> 0"
    and "cap (tx_buf s) \<le> 128" and "clean_shapes (tx_buf s)" and "e_wr s = []" and "tx_last_sent s = 255"
    and "unat (sseq - a) \<le> cap (tx_buf s)"
  shows "resend_loop sseq s = Some (Inl Exit_failure)"
  using assms
proof (induction "cap (tx_buf s) - unat (sseq - a)" arbitrary: s sseq)
  case 0
  let ?b = "tx_buf s"
  have "unat (sseq - a) = cap ?b"
    using 0(1,9) by simp
  from slotfor_seq_at_cap [OF 0(2-4) this] obtain b' where b': "used b' = Suc (cap b')" "cap b' = cap ?b"
    "b_first b' = b_first ?b" "wf_buf (b'\<lparr>b_last := b_first b'\<rparr>)" "p_seq (slot b' (slot_index ?b 0)) = sseq"
    "pktbuf_slotfor_seq ?b sseq = Inr (slot_index ?b 0, b')"
    by blast
  have "slot_index ?b 0 < length (b_head b')"
    using slot_index_less [OF 0(2)] b'(2) wf_bufD(1) [OF b'(4)] by (simp add: cap_def)
  from resend_on [OF b'(6) this 0(6-8)] obtain t where t:
    "resend_loop sseq s = resend_loop (sseq + 1) (s\<lparr>tx_buf := b', e_tx := t\<rparr>)" "clean_shapes b'"
    by blast
  have i: "slot_index b' 0 = slot_index ?b 0"
    using b'(2,3) by (simp add: slot_index_def cap_def)
  have "resend_loop (sseq + 1) (s\<lparr>tx_buf := b', e_tx := t\<rparr>) = Some (Inl Exit_failure)"
    using b' t(2) 0(5,7,8) i seq_Suc [of sseq sseq 0] wf_bufD(4) [OF 0(2)]
    by (intro resend_overfull [of _ sseq]) simp_all
  then show ?case
    using t by simp
next
  case (Suc n)
  let ?b = "tx_buf s" and ?d = "unat (sseq - a)"
  have d: "?d < cap ?b"
    using Suc(2) by simp
  from slotfor_seq_ok [OF Suc(3-5) this] obtain b' where b':
    "pktbuf_slotfor_seq ?b sseq = Inr (slot_index ?b ?d, b')" "wf_buf b'"
    "used b' = max (used ?b) (Suc ?d)" "seq_from a (items b')" "cap b' = cap ?b"
    by blast
  have "slot_index ?b ?d < length (b_head b')"
    using slot_index_less [OF Suc(3), of ?d] b'(5) wf_bufD(1) [OF b'(2)] by (simp add: cap_def)
  from resend_on [OF b'(1) this Suc(7-9)] obtain t where t:
    "resend_loop sseq s = resend_loop (sseq + 1) (s\<lparr>tx_buf := b', e_tx := t\<rparr>)" "clean_shapes b'"
    by blast
  have u: "unat (sseq + 1 - a) = Suc ?d"
    using d Suc(6) by (intro seq_Suc) simp_all
  have "resend_loop (sseq + 1) (s\<lparr>tx_buf := b', e_tx := t\<rparr>) = Some (Inl Exit_failure)"
    using Suc(2,6,8,9) b' t(2) u by (intro Suc(1)) simp_all
  then show ?case
    using t by simp
qed

text \<open>So a timeout with anything in the buffer then ends the process.\<close>

lemma retransmission_at_255:
  assumes "sender_inv crc A R s" and "e_wr s = []" and "tx_last_sent s = 255"
    and "used (tx_buf s) \<noteq> 0" and "tx_retry_count s < MAX_RETRANSMISSION"
  shows "handle_retransmission s = Inl Exit_failure"
proof -
  note i = sender_invD [OF assms(1)]
  let ?s = "s\<lparr>tx_retry_count := tx_retry_count s + 1\<rparr>"
  have "resend_loop (tx_last_ack s) ?s = Some (Inl Exit_failure)"
    using i(1,2) sender_seq [OF assms(1)] clean_slots_shapes [OF i(1,9)] assms(2-4)
    by (intro resend_extending [of _ "tx_last_ack s"]) simp_all
  then show ?thesis
    using assms(5) by (simp add: handle_retransmission_def Let_def)
qed

end
