(* ===== verification/Sender_Loop.thy ===== *)
theory Sender_Loop
  imports Sender_Wrap
begin

text \<open>
  The main loop of the sender: every round, whatever arrives, keeps the invariant, sends only
  chunks that have been read, and takes only acknowledged chunks out of the buffer.
\<close>

unbundle bit_operations_syntax

declare nth_items [simp del]

section \<open>The state between two rounds\<close>

text \<open>The datagrams of the chunks from number \<open>lo\<close> on.\<close>

definition chunk_wires :: "crc_fun \<Rightarrow> nat \<Rightarrow> byte list list \<Rightarrow> byte list set" where
  "chunk_wires crc lo R = (\<lambda>i. wire_of crc (chunk_segment i (R ! i))) ` {lo..<length R}"

definition sent_only :: "crc_fun \<Rightarrow> nat \<Rightarrow> byte list list \<Rightarrow> byte list list \<Rightarrow> 'a env_scheme \<Rightarrow> bool" where
  "sent_only crc lo R tx s \<longleftrightarrow> (\<exists>new. e_tx s = tx @ new \<and> set new \<subseteq> chunk_wires crc lo R)"

text \<open>An acknowledgement with number \<open>A\<close> is among the datagrams received so far.\<close>

definition ack_received :: "crc_fun \<Rightarrow> rx_event list \<Rightarrow> nat \<Rightarrow> bool" where
  "ack_received crc got A \<longleftrightarrow>
     (\<exists>src d seg. Rx src d \<in> set got \<and> datagram_of crc seg (take 528 d) \<and>
        s_type seg = ucast PTYPE_ACK \<and> s_seq seg = of_nat A)"

text \<open>
  \<open>R\<close> is what the first reads of an input return, each cut to a chunk; only the last may be
  empty.
\<close>

definition chunks_read :: "in_event list \<Rightarrow> byte list list \<Rightarrow> bool" where
  "chunks_read input R \<longleftrightarrow>
     (\<exists>evs rest. input = map In_data evs @ rest \<and> R = map (take 512) evs) \<and> [] \<notin> set (butlast R)"

definition read_so_far :: "in_event list \<Rightarrow> byte list list \<Rightarrow> sender \<Rightarrow> bool" where
  "read_so_far input R s \<longleftrightarrow>
     (\<exists>evs. input = map In_data evs @ tx_input s \<and> R = map (take 512) evs) \<and>
     tx_last_in_read s = (if R = [] then -1 else int (length (last R))) \<and> [] \<notin> set (butlast R)"

text \<open>No datagram acknowledges more than the 31 packets that can be in flight.\<close>

definition acked_so_far :: "crc_fun \<Rightarrow> nat \<Rightarrow> rx_event list \<Rightarrow> nat \<Rightarrow> 'a env_scheme \<Rightarrow> bool" where
  "acked_so_far crc A0 rx A s \<longleftrightarrow>
     (\<exists>got. rx = got @ e_rx s \<and> A0 \<le> A \<and> A \<le> A0 + 31 * length got \<and> (A = A0 \<or> ack_received crc got A))"

text \<open>
  The window field has five bits, so no more than 31 packets are ever in flight. Timeouts are
  counted from zero.
\<close>

definition window_ok :: "sender \<Rightarrow> bool" where
  "window_ok s \<longleftrightarrow> outstanding s \<le> 31 \<and> unat (tx_last_win s) \<le> 31 \<and> 0 \<le> tx_retry_count s"

text \<open>
  The state reached by the main loop, with a ring of \<open>k0\<close> slots, from one in which \<open>A0\<close> chunks were
  acknowledged and \<open>n0\<close> read: \<open>A\<close> chunks are acknowledged now, and \<open>R\<close> are the chunks read. Only chunks that were in
  the ring at some time since have been sent.
\<close>

definition progress ::
  "crc_fun \<Rightarrow> 'a env_scheme \<Rightarrow> in_event list \<Rightarrow> nat \<Rightarrow> nat \<Rightarrow> nat \<Rightarrow> nat \<Rightarrow> byte list list \<Rightarrow> sender \<Rightarrow> bool" where
  "progress crc e input A0 n0 k0 A R s \<longleftrightarrow>
     sender_inv crc A R s \<and> e_wr s = [] \<and> sent_only crc (n0 - k0) R (e_tx e) s \<and>
     read_so_far input R s \<and> acked_so_far crc A0 (e_rx e) A s \<and> window_ok s \<and> n0 \<le> length R \<and>
     cap (tx_buf s) = k0"

lemma progressD:
  assumes "progress crc e input A0 n0 k0 A R s"
  shows "sender_inv crc A R s" "e_wr s = []" "sent_only crc (n0 - k0) R (e_tx e) s"
    "read_so_far input R s" "acked_so_far crc A0 (e_rx e) A s" "window_ok s" "n0 \<le> length R"
    "cap (tx_buf s) = k0"
  using assms by (simp_all add: progress_def)

lemma progress_recent:
  assumes "progress crc e input A0 n0 k0 A R s"
  shows "n0 - k0 \<le> A"
  using progressD(7,8) [OF assms] sender_invD(4,11) [OF progressD(1) [OF assms]] by linarith

lemma read_so_far_chunks: "read_so_far input R s \<Longrightarrow> chunks_read input R"
  by (auto simp: read_so_far_def chunks_read_def)

lemma progress_chunks:
  "progress crc e input A0 n0 k0 A R s \<Longrightarrow>
    chunks_read input R \<and> sent_only crc (n0 - k0) R (e_tx e) s"
  by (auto simp: progress_def intro: read_so_far_chunks)

lemma sent_only_append:
  assumes "sent_only crc lo R tx s" and "e_tx s' = e_tx s @ new" and "set new \<subseteq> chunk_wires crc lo R"
  shows "sent_only crc lo R tx s'"
proof -
  obtain old where "e_tx s = tx @ old" "set old \<subseteq> chunk_wires crc lo R"
    using assms(1) by (auto simp: sent_only_def)
  then show ?thesis
    using assms(2,3) unfolding sent_only_def by (intro exI [of _ "old @ new"]) simp
qed

lemma chunk_wires_append: "chunk_wires crc lo R \<subseteq> chunk_wires crc lo (R @ [x])"
  by (auto simp: chunk_wires_def nth_append image_iff)

lemma chunk_wire: "lo \<le> i \<Longrightarrow> i < length R \<Longrightarrow> wire_of crc (chunk_segment i (R ! i)) \<in> chunk_wires crc lo R"
  by (simp add: chunk_wires_def)

lemma sends_wires: "lo \<le> a \<Longrightarrow> b \<le> length R \<Longrightarrow> set (sends crc R a b) \<subseteq> chunk_wires crc lo R"
  by (auto simp: sends_def chunk_wires_def)

text \<open>Changes of the state that none of this is about.\<close>

lemma window_ok_update [simp]:
  "window_ok (s\<lparr>e_tx := t\<rparr>) = window_ok s" "window_ok (s\<lparr>e_rx := r\<rparr>) = window_ok s"
  "window_ok (s\<lparr>tx_dup_ack := c\<rparr>) = window_ok s"
  by (simp_all add: window_ok_def outstanding_def)

lemma progress_win:
  "progress crc e input A0 n0 k0 A R s \<Longrightarrow> unat c \<le> 31 \<Longrightarrow> progress crc e input A0 n0 k0 A R (s\<lparr>tx_last_win := c\<rparr>)"
  by (auto simp: progress_def sent_only_def read_so_far_def acked_so_far_def window_ok_def outstanding_def)

lemma progress_update [simp]:
  "progress crc e input A0 n0 k0 A R (s\<lparr>tx_dup_ack := c\<rparr>) = progress crc e input A0 n0 k0 A R s"
  by (simp add: progress_def sent_only_def read_so_far_def acked_so_far_def)

lemma progress_retry:
  "progress crc e input A0 n0 k0 A R s \<Longrightarrow> 0 \<le> d \<Longrightarrow> progress crc e input A0 n0 k0 A R (s\<lparr>tx_retry_count := d\<rparr>)"
  by (auto simp: progress_def sent_only_def read_so_far_def acked_so_far_def window_ok_def outstanding_def)

lemma progress_sent:
  assumes "progress crc e input A0 n0 k0 A R s" and "set new \<subseteq> chunk_wires crc (n0 - k0) R"
  shows "progress crc e input A0 n0 k0 A R (s\<lparr>e_tx := e_tx s @ new\<rparr>)"
  using progressD [OF assms(1)] assms(2)
    sent_only_append [of crc "n0 - k0" R "e_tx e" s "s\<lparr>e_tx := e_tx s @ new\<rparr>" new]
  by (simp add: progress_def read_so_far_def acked_so_far_def)

lemma progress_rx:
  assumes "progress crc e input A0 n0 k0 A R s" and "e_rx s = ev # evs"
  shows "progress crc e input A0 n0 k0 A R (s\<lparr>e_rx := evs\<rparr>)"
proof -
  obtain got where got: "e_rx e = got @ e_rx s" "A0 \<le> A" "A \<le> A0 + 31 * length got"
    "A = A0 \<or> ack_received crc got A"
    using progressD(5) [OF assms(1)] by (auto simp: acked_so_far_def)
  then have "acked_so_far crc A0 (e_rx e) A (s\<lparr>e_rx := evs\<rparr>)"
    using assms(2) unfolding acked_so_far_def
    by (intro exI [of _ "got @ [ev]"]) (auto simp: ack_received_def)
  then show ?thesis
    using progressD [OF assms(1)] by (simp add: progress_def sent_only_def read_so_far_def)
qed

section \<open>One handler at a time\<close>

text \<open>What a handler leaves as it is, so that the next one can run.\<close>

definition calmer :: "sender \<Rightarrow> sender \<Rightarrow> bool" where
  "calmer s s' \<longleftrightarrow> used (tx_buf s') \<le> used (tx_buf s) \<and> cap (tx_buf s') = cap (tx_buf s) \<and>
     tx_last_in_read s' = tx_last_in_read s"

lemma calmer_refl [simp]: "calmer s s"
  by (simp add: calmer_def)

lemma calmer_update [simp]:
  "calmer s (s'\<lparr>e_tx := a\<rparr>) = calmer s s'"
  "calmer s (s'\<lparr>e_rx := b\<rparr>) = calmer s s'"
  "calmer s (s'\<lparr>tx_last_win := c\<rparr>) = calmer s s'"
  "calmer s (s'\<lparr>tx_dup_ack := c\<rparr>) = calmer s s'"
  "calmer s (s'\<lparr>tx_retry_count := d\<rparr>) = calmer s s'"
  by (simp_all add: calmer_def)

lemma nack_progress:
  assumes "progress crc e input A0 n0 k0 A R s"
  shows "\<exists>s'. process_nack nack s = Inr (0, s') \<and> progress crc e input A0 n0 k0 A R s' \<and> calmer s s'"
proof -
  have "process_nack nack s = Inr (0, s) \<or>
    (\<exists>c < length R. length R \<le> c + cap (tx_buf s) \<and> process_nack nack s =
       Inr (0, s\<lparr>e_tx := e_tx s @ [wire_of crc (chunk_segment c (R ! c))]\<rparr>))"
    using nack_loop_step [OF progressD(1,2) [OF assms], of 0 "used (tx_buf s)" nack]
    by (simp add: process_nack_def sint_used [OF sender_invD(1) [OF progressD(1) [OF assms]]])
  then show ?thesis
  proof
    assume "\<exists>c < length R. length R \<le> c + cap (tx_buf s) \<and> process_nack nack s =
       Inr (0, s\<lparr>e_tx := e_tx s @ [wire_of crc (chunk_segment c (R ! c))]\<rparr>)"
    then obtain c where c: "c < length R" "process_nack nack s =
       Inr (0, s\<lparr>e_tx := e_tx s @ [wire_of crc (chunk_segment c (R ! c))]\<rparr>)"
      "n0 - k0 \<le> c"
      using progressD(7,8) [OF assms] by fastforce
    then show ?thesis
      using progress_sent [OF assms, of "[wire_of crc (chunk_segment c (R ! c))]"]
      by (simp add: chunk_wire)
  qed (use assms in auto)
qed

lemma dup_ack_progress:
  assumes "progress crc e input A0 n0 k0 A R s"
  shows "process_dup_ack ack s = Inl Null_deref \<or>
    (\<exists>s'. process_dup_ack ack s = Inr (0, s') \<and> progress crc e input A0 n0 k0 A R s' \<and> calmer s s')"
  using dup_ack_step [OF progressD(1,2) [OF assms], of ack]
proof (elim disjE)
  assume "\<exists>c < length R. length R \<le> c + cap (tx_buf s) \<and> process_dup_ack ack s =
       Inr (0, s\<lparr>tx_dup_ack := 0, e_tx := e_tx s @ [wire_of crc (chunk_segment c (R ! c))]\<rparr>)"
  then obtain c where c: "c < length R" "process_dup_ack ack s =
       Inr (0, s\<lparr>tx_dup_ack := 0, e_tx := e_tx s @ [wire_of crc (chunk_segment c (R ! c))]\<rparr>)"
    "n0 - k0 \<le> c"
    using progressD(7,8) [OF assms] by fastforce
  then show ?thesis
    using progress_sent [of crc e input A0 n0 k0 A R "s\<lparr>tx_dup_ack := 0\<rparr>" "[wire_of crc (chunk_segment c (R ! c))]"]
      assms by (simp add: chunk_wire)
qed (use assms in auto)

lemma ack_progress:
  assumes "progress crc e input A0 n0 k0 A R s" and "unat (ack - tx_last_ack s) \<le> outstanding s"
    and "\<And>B. A \<le> B \<Longrightarrow> B \<le> A + 31 \<Longrightarrow> of_nat B = ack \<Longrightarrow> acked_so_far crc A0 (e_rx e) B s"
  shows "\<exists>s' B. process_ack ack s = (0, s') \<and> progress crc e input A0 n0 k0 B R s' \<and> calmer s s'"
proof -
  note p = progressD [OF assms(1)]
  let ?B = "A + unat (ack - tx_last_ack s)"
  obtain s' where s': "process_ack ack s = (0, s')" "sender_inv crc ?B R s'"
    "s' = s\<lparr>tx_buf := tx_buf s', tx_last_ack := tx_last_ack s', tx_dup_ack := 0\<rparr>"
    "outstanding s' \<le> outstanding s"
    using process_ack_step [OF p(1) assms(2)] by (metis diff_le_self)
  have "tx_last_win s' = tx_last_win s" "tx_retry_count s' = tx_retry_count s"
    by (subst s'(3), simp)+
  then have w: "window_ok s'"
    using p(6) s'(4) by (simp add: window_ok_def)
  have f: "e_wr s' = e_wr s" "e_tx s' = e_tx s" "e_rx s' = e_rx s" "tx_input s' = tx_input s"
    "tx_last_in_read s' = tx_last_in_read s"
    by (subst s'(3), simp)+
  have "tx_buf s' = (tx_buf s)\<lparr>b_first := b_first (tx_buf s) + of_nat (unat (ack - tx_last_ack s))\<rparr>"
    using s'(1) by (auto simp: process_ack_def dequeue_acked_eq)
  then have c: "cap (tx_buf s') = cap (tx_buf s)"
    by (simp add: cap_def)
  have "used (tx_buf s') \<le> used (tx_buf s)"
    using sender_invD(4) [OF p(1)] sender_invD(4) [OF s'(2)] by simp
  moreover have "of_nat ?B = ack"
    using sender_invD(6) [OF p(1)] by simp
  moreover have "?B \<le> A + 31"
    using assms(2) p(6) by (simp add: window_ok_def)
  ultimately have "progress crc e input A0 n0 k0 ?B R s'"
    using p s'(2) f w c assms(3) [of ?B]
    by (simp add: progress_def sent_only_def read_so_far_def acked_so_far_def)
  then show ?thesis
    using s'(1) f c \<open>used (tx_buf s') \<le> used (tx_buf s)\<close> by (auto simp: calmer_def)
qed

lemma if_last_win: "(if tx_last_win s \<noteq> w then s\<lparr>tx_last_win := w\<rparr> else s) = s\<lparr>tx_last_win := w\<rparr>"
  by (cases s) simp

text \<open>Receiving: the buffer can only shrink, and only by what an acknowledgement covers.\<close>

lemma socket_progress:
  assumes "progress crc e input A0 n0 k0 A R s"
  shows "case handle_socket_read crc s of
      Inl f \<Rightarrow> f = Blocked \<or> f = Null_deref
    | Inr (err, s') \<Rightarrow> \<exists>B. progress crc e input A0 n0 k0 B R s' \<and> calmer s s'"
proof (cases "e_rx s")
  case Nil
  then show ?thesis
    by (simp add: handle_socket_read_def net_recv_pkt_def net_recvfrom_def sys_recv_def)
next
  case (Cons ev evs)
  let ?s = "s\<lparr>tx_retry_count := 0\<rparr>" and ?win = "tx_last_sent s - tx_last_ack s + 1"
  let ?s1 = "?s\<lparr>e_rx := evs\<rparr>"
  have s1: "progress crc e input A0 n0 k0 A R ?s1" "calmer s ?s1"
    using progress_rx [of crc e input A0 n0 k0 A R ?s ev evs] progress_retry [OF assms, of 0] Cons by simp_all
  have rx: "e_rx ?s = ev # evs"
    using Cons by simp
  show ?thesis
  proof (cases ev)
    case Rx_error
    then have "handle_socket_read crc s = Inr (1, ?s1)"
      using net_recv_pkt_error [of ?s evs crc pkt_zero "tx_last_ack s" ?win] rx
      by (simp add: handle_socket_read_def Let_def)
    then show ?thesis
      using s1 by (auto intro!: exI [of _ A])
  next
    case (Rx src d)
    note rx' = rx [unfolded Rx]
    show ?thesis
    proof (cases rule: net_recv_pkt_cases [OF wf_pkt_zero rx', of crc "tx_last_ack s" ?win,
          case_names accepted dropped])
      case (dropped q)
      then have "handle_socket_read crc s = Inr (0, ?s1)"
        by (simp add: handle_socket_read_def Let_def)
      then show ?thesis
        using s1 by (auto intro!: exI [of _ A])
    next
      case (accepted q)
      let ?s2 = "?s1\<lparr>tx_last_win := ucast (p_window q)\<rparr>"
      have "unat (ucast (p_window q) :: u8) = unat (p_window q)"
        by (simp add: unat_ucast_up)
      then have "unat (ucast (p_window q) :: u8) \<le> 31"
        using unsigned_less [of "p_window q", where ?'a = nat] by simp
      then have s2: "progress crc e input A0 n0 k0 A R ?s2" "calmer s ?s2"
        using s1 progress_win by simp_all
      have run: "handle_socket_read crc s =
          (if p_type q \<noteq> ucast PTYPE_ACK \<and> p_type q \<noteq> ucast PTYPE_NACK then Inr (0, ?s1)
           else if p_type q = ucast PTYPE_NACK then process_nack (p_seq q) ?s2
           else if tx_last_ack ?s2 = p_seq q then process_dup_ack (p_seq q) ?s2
           else Inr (process_ack (p_seq q) ?s2))"
        unfolding handle_socket_read_def Let_def if_last_win using accepted(1) by simp
      show ?thesis
      proof (cases "p_type q = ucast PTYPE_ACK \<or> p_type q = ucast PTYPE_NACK")
        case False
        then show ?thesis
          using run s1 by (auto intro!: exI [of _ A])
      next
        case True
        have win: "unat (p_seq q - tx_last_ack ?s2) \<le> outstanding ?s2"
        proof -
          have eq: "?win = tx_last_sent s + 1 - tx_last_ack s"
            by (simp add: algebra_simps)
          have "unat (p_seq q - tx_last_ack s) \<le> unat ?win"
            using accepted(3) by (simp add: segment_of_def word_le_nat_alt)
          then have "unat (p_seq q - tx_last_ack s) \<le> outstanding s"
            unfolding eq outstanding_def .
          then show ?thesis
            by (simp add: outstanding_def)
        qed
        have ack: "acked_so_far crc A0 (e_rx e) B ?s2" if "A \<le> B" "B \<le> A + 31" "of_nat B = p_seq q" "p_type q = ucast PTYPE_ACK" for B
        proof -
          obtain got where "e_rx e = got @ e_rx s" "A0 \<le> A" "A \<le> A0 + 31 * length got"
            using progressD(5) [OF assms] by (auto simp: acked_so_far_def)
          moreover have "ack_received crc (got @ [ev]) B"
            unfolding ack_received_def Rx using accepted(2) that(3,4)
            by (intro exI [of _ src] exI [of _ d] exI [of _ "segment_of q"]) (simp add: segment_of_def)
          ultimately show ?thesis
            using Cons that(1,2) by (auto simp: acked_so_far_def intro!: exI [of _ "got @ [ev]"])
        qed
        have "case (if p_type q = ucast PTYPE_NACK then process_nack (p_seq q) ?s2
           else if tx_last_ack ?s2 = p_seq q then process_dup_ack (p_seq q) ?s2
           else Inr (process_ack (p_seq q) ?s2)) of
            Inl f \<Rightarrow> f = Blocked \<or> f = Null_deref
          | Inr (err, s') \<Rightarrow> \<exists>B. progress crc e input A0 n0 k0 B R s' \<and> calmer ?s2 s'"
        proof (cases "p_type q = ucast PTYPE_NACK")
          case True
          then show ?thesis
            using nack_progress [OF s2(1), of "p_seq q"] by auto
        next
          case False
          then have a: "p_type q = ucast PTYPE_ACK"
            using \<open>p_type q = ucast PTYPE_ACK \<or> _\<close> by simp
          have "\<exists>s' B. process_ack (p_seq q) ?s2 = (0, s') \<and> progress crc e input A0 n0 k0 B R s' \<and> calmer ?s2 s'"
            using ack a by (intro ack_progress [OF s2(1) win]) blast
          then show ?thesis
            using False dup_ack_progress [OF s2(1), of "p_seq q"] a by auto
        qed
        moreover have "calmer s s'" if "calmer ?s2 s'" for s'
          using that by (simp add: calmer_def)
        ultimately show ?thesis
          unfolding run using True by (auto split: sum.splits prod.splits if_splits)
      qed
    qed
  qed
qed

text \<open>Reading: one more chunk, the last one when it is empty; a failed read sends nothing.\<close>

lemma input_cap: "handle_input_read crc s = Inr (err, s') \<Longrightarrow> cap (tx_buf s') = cap (tx_buf s)"
  by (auto simp: handle_input_read_def Let_def sys_read_def case_prod_unfold pktbuf_enqueue_def cap_def
      set_slot_def rbind_Inr_iff split: list.splits in_event.splits)

lemma input_progress:
  assumes "progress crc e input A0 n0 k0 A R s" and "used (tx_buf s) < cap (tx_buf s)" and "tx_last_in_read s \<noteq> 0"
  shows "case handle_input_read crc s of
      Inl f \<Rightarrow> f = Blocked
    | Inr (err, s') \<Rightarrow> e_tx s' = e_tx s \<and> (err = 0 \<longrightarrow> (\<exists>R'. progress crc e input A0 n0 k0 A (R @ R') s')) \<and>
        (err \<noteq> 0 \<longrightarrow> In_error \<in> set input)"
proof -
  note p = progressD [OF assms(1)]
  consider "tx_input s = []" | evs where "tx_input s = In_error # evs"
    | bytes evs where "tx_input s = In_data bytes # evs"
    by (cases "tx_input s"; cases "hd (tx_input s)") auto
  then show ?thesis
  proof cases
    case 1
    then show ?thesis
      by (simp add: handle_input_read_def Let_def sys_read_def case_prod_unfold)
  next
    case 2
    then have "In_error \<in> set input"
      using p(4) by (auto simp: read_so_far_def)
    then show ?thesis
      using 2 by (simp add: handle_input_read_def Let_def sys_read_def case_prod_unfold)
  next
    case 3
    obtain s' where s': "handle_input_read crc s = Inr (0, s')" "sender_inv crc A (R @ [take 512 bytes]) s'"
      "s' = s\<lparr>tx_buf := tx_buf s', tx_last_chunk_read := tx_last_chunk_read s + 1,
        tx_last_in_read := int (length (take 512 bytes)), tx_input := evs\<rparr>" "outstanding s' = outstanding s"
      using input_step [OF p(1) assms(2) 3] by blast
    have "tx_last_win s' = tx_last_win s" "tx_retry_count s' = tx_retry_count s"
      by (subst s'(3), simp)+
    then have w: "window_ok s'"
      using p(6) s'(4) by (simp add: window_ok_def)
    have f: "e_wr s' = e_wr s" "e_tx s' = e_tx s" "e_rx s' = e_rx s" "tx_input s' = evs"
      "tx_last_in_read s' = int (length (take 512 bytes))"
      by (subst s'(3), simp)+
    obtain old where old: "input = map In_data old @ tx_input s" "R = map (take 512) old"
      "tx_last_in_read s = (if R = [] then -1 else int (length (last R)))" "[] \<notin> set (butlast R)"
      using p(4) by (auto simp: read_so_far_def)
    have "[] \<notin> set R"
      using old(3,4) assms(3) by (cases R rule: rev_cases) auto
    then have "read_so_far input (R @ [take 512 bytes]) s'"
      using old(1,2) 3 f by (auto simp: read_so_far_def intro!: exI [of _ "old @ [bytes]"])
    moreover have "sent_only crc (n0 - k0) (R @ [take 512 bytes]) (e_tx e) s'"
      using p(3) f(2) chunk_wires_append [of crc _ R "take 512 bytes"]
      by (fastforce simp: sent_only_def)
    ultimately have "progress crc e input A0 n0 k0 A (R @ [take 512 bytes]) s'"
      using p s'(2) f w input_cap [OF s'(1)] by (simp add: progress_def acked_so_far_def)
    then show ?thesis
      using s'(1) f(2) by auto
  qed
qed

lemma send_progress:
  assumes "progress crc e input A0 n0 k0 A R s"
  shows "\<exists>s'. do_send_sbuf s = Inr (0, s') \<and> progress crc e input A0 n0 k0 A R s' \<and> calmer s s'"
proof -
  note p = progressD [OF assms]
  obtain s' where s': "do_send_sbuf s = Inr (0, s')" "sender_inv crc A R s'"
    "s' = s\<lparr>tx_last_sent := tx_last_sent s',
      e_tx := e_tx s @ sends crc R (A + outstanding s) (A + outstanding s')\<rparr>"
    "outstanding s' = max (outstanding s) (min (length R - A) (unat (tx_last_win s)))"
    using send_sbuf_step [OF p(1,2)] by blast
  have "tx_last_win s' = tx_last_win s" "tx_retry_count s' = tx_retry_count s"
    by (subst s'(3), simp)+
  then have w: "window_ok s'"
    using p(6) s'(4) unfolding window_ok_def by auto
  have f: "e_wr s' = e_wr s" "e_tx s' = e_tx s @ sends crc R (A + outstanding s) (A + outstanding s')"
    "e_rx s' = e_rx s" "tx_input s' = tx_input s" "tx_last_in_read s' = tx_last_in_read s"
    "tx_buf s' = tx_buf s"
    by (subst s'(3), simp)+
  have "A + outstanding s' \<le> length R"
    using outstanding_chunks(3) [OF s'(2)] sender_invD(3) [OF p(1)] by simp
  then have "sent_only crc (n0 - k0) R (e_tx e) s'"
    using progress_recent [OF assms] by (intro sent_only_append [OF p(3) f(2)] sends_wires) simp_all
  then show ?thesis
    using p s'(1,2) f w by (auto simp: progress_def read_so_far_def acked_so_far_def calmer_def)
qed

lemma resend_progress:
  assumes "progress crc e input A0 n0 k0 A R s" and "used (tx_buf s) \<noteq> 0"
  shows "handle_retransmission s = Inl Exit_failure \<or>
    (\<exists>err s'. handle_retransmission s = Inr (err, s') \<and> progress crc e input A0 n0 k0 A R s' \<and> calmer s s')"
proof -
  note p = progressD [OF assms(1)]
  let ?s = "s\<lparr>tx_retry_count := tx_retry_count s + 1\<rparr>"
  have again: "progress crc e input A0 n0 k0 A R ?s"
    using p(6) by (intro progress_retry [OF assms(1)]) (simp add: window_ok_def)
  consider "MAX_RETRANSMISSION \<le> tx_retry_count s" | "tx_retry_count s < MAX_RETRANSMISSION" "tx_last_sent s = 255"
    | "tx_retry_count s < MAX_RETRANSMISSION" "tx_last_sent s \<noteq> 255"
    by linarith
  then show ?thesis
  proof cases
    case 1
    then show ?thesis
      using again by (simp add: handle_retransmission_def Let_def)
  next
    case 2
    then show ?thesis
      using retransmission_at_255 [OF p(1,2) _ assms(2)] by blast
  next
    case 3
    let ?new = "sends crc R (A + 0) (A + outstanding ?s)"
    have "resend_loop (tx_last_ack s) ?s = Some (Inr (0, ?s\<lparr>tx_dup_ack := 0, e_tx := e_tx ?s @ ?new\<rparr>))"
      using p(1,2) 3(2) by (intro resend_step) simp_all
    then have "handle_retransmission s = Inr (0, ?s\<lparr>tx_dup_ack := 0, e_tx := e_tx ?s @ ?new\<rparr>)"
      using 3(1) by (simp add: handle_retransmission_def Let_def)
    moreover have "set ?new \<subseteq> chunk_wires crc (n0 - k0) R"
      using outstanding_chunks(3) [OF p(1)] sender_invD(3) [OF p(1)] progress_recent [OF assms(1)]
      by (intro sends_wires) (simp_all add: outstanding_def)
    then have "progress crc e input A0 n0 k0 A R (?s\<lparr>tx_dup_ack := 0, e_tx := e_tx (?s\<lparr>tx_dup_ack := 0\<rparr>) @ ?new\<rparr>)"
      using again by (intro progress_sent) simp_all
    ultimately show ?thesis
      by (simp add: calmer_def)
  qed
qed

section \<open>Rounds\<close>

text \<open>
  The input is polled only while there is room and its end has not been seen.
\<close>

definition may_read :: "bool \<Rightarrow> sender \<Rightarrow> bool" where
  "may_read both s \<longleftrightarrow> (both \<longrightarrow> used (tx_buf s) < cap (tx_buf s) \<and> tx_last_in_read s \<noteq> 0)"

text \<open>The outcome of a round that began with what \<open>R\<close> describes.\<close>

definition round_ok ::
  "crc_fun \<Rightarrow> 'a env_scheme \<Rightarrow> in_event list \<Rightarrow> nat \<Rightarrow> nat \<Rightarrow> nat \<Rightarrow> (bool \<times> bool \<times> sender) res \<Rightarrow> bool" where
  "round_ok crc e input A0 n0 k0 r \<longleftrightarrow>
     (case r of
        Inl f \<Rightarrow> f \<in> {Blocked, Null_deref, Exit_failure}
      | Inr (go_on, both, s') \<Rightarrow>
          (\<exists>R. chunks_read input R \<and> sent_only crc 0 R (e_tx e) s' \<and> \<not> go_on \<and> In_error \<in> set input) \<or>
          (\<exists>A R. progress crc e input A0 n0 k0 A R s' \<and> (go_on \<longrightarrow> may_read both s')))"

lemma sent_only_weaken: "sent_only crc lo R tx s \<Longrightarrow> sent_only crc 0 R tx s"
  by (fastforce simp: sent_only_def chunk_wires_def)

lemma round_ended:
  "round_ok crc e input A0 n0 k0 (Inr (False, both, s')) \<Longrightarrow>
    \<exists>R. chunks_read input R \<and> sent_only crc 0 R (e_tx e) s'"
  by (auto simp: round_ok_def dest!: progress_chunks intro: sent_only_weaken)

lemma send_round:
  assumes "progress crc e input A0 n0 k0 A R s"
  shows "round_ok crc e input A0 n0 k0 (rbind (do_send_sbuf s) (\<lambda>(err, s).
    if err \<noteq> 0 then Inr (False, True, s)
    else Inr (True, tx_last_in_read s \<noteq> 0 \<and> \<not> pktbuf_full (tx_buf s), s)))"
proof -
  obtain s' where s': "do_send_sbuf s = Inr (0, s')" "progress crc e input A0 n0 k0 A R s'"
    using send_progress [OF assms] by blast
  have "may_read (tx_last_in_read s' \<noteq> 0 \<and> \<not> pktbuf_full (tx_buf s')) s'"
    by (simp add: may_read_def full_iff)
  then show ?thesis
    using s' by (auto simp: round_ok_def)
qed

lemma ready_round:
  assumes "progress crc e input A0 n0 k0 A R s" and "may_read both s"
  shows "round_ok crc e input A0 n0 k0 (transmit_ready crc (both \<and> file_ev) sock_ev s)"
proof -
  have sock: "case (if sock_ev then handle_socket_read crc s else Inr (0, s)) of
      Inl f \<Rightarrow> f = Blocked \<or> f = Null_deref
    | Inr (err, s') \<Rightarrow> \<exists>B. progress crc e input A0 n0 k0 B R s' \<and> calmer s s'"
    using socket_progress [OF assms(1)] assms(1) by auto
  show ?thesis
  proof (cases "if sock_ev then handle_socket_read crc s else Inr (0, s)")
    case (Inl f)
    then show ?thesis
      using sock by (auto simp: transmit_ready_def round_ok_def)
  next
    case (Inr x)
    then obtain err s1 B where s1: "x = (err, s1)" "progress crc e input A0 n0 k0 B R s1" "calmer s s1"
      using sock by (cases x) auto
    have m: "may_read both s1"
      using assms(2) s1(3) by (auto simp: may_read_def calmer_def)
    show ?thesis
    proof (cases "err = 0")
      case False
      then show ?thesis
        using Inr s1 progress_chunks [OF s1(2)] by (auto simp: transmit_ready_def round_ok_def)
    next
      case True
      then have run: "transmit_ready crc (both \<and> file_ev) sock_ev s =
          rbind (if both \<and> file_ev then handle_input_read crc s1 else Inr (0, s1)) (\<lambda>(err, s).
          if err \<noteq> 0 then Inr (False, True, s) else
          rbind (do_send_sbuf s) (\<lambda>(err, s).
          if err \<noteq> 0 then Inr (False, True, s)
          else Inr (True, tx_last_in_read s \<noteq> 0 \<and> \<not> pktbuf_full (tx_buf s), s)))"
        using Inr s1(1) by (simp add: transmit_ready_def)
      show ?thesis
      proof (cases "both \<and> file_ev")
        case False
        then show ?thesis
          unfolding run if_not_P [OF False] using send_round [OF s1(2)] by simp
      next
        case True
        then have inp: "case handle_input_read crc s1 of
            Inl f \<Rightarrow> f = Blocked
          | Inr (err, s') \<Rightarrow> e_tx s' = e_tx s1 \<and> (err = 0 \<longrightarrow> (\<exists>R'. progress crc e input A0 n0 k0 B (R @ R') s')) \<and>
              (err \<noteq> 0 \<longrightarrow> In_error \<in> set input)"
          using m by (intro input_progress [OF s1(2)]) (simp_all add: may_read_def)
        show ?thesis
        proof (cases "handle_input_read crc s1")
          case (Inl f)
          then show ?thesis
            unfolding run if_P [OF True] using inp by (simp add: round_ok_def)
        next
          case (Inr y)
          then obtain err' s2 where s2: "y = (err', s2)" "e_tx s2 = e_tx s1"
            "err' = 0 \<longrightarrow> (\<exists>R'. progress crc e input A0 n0 k0 B (R @ R') s2)" "err' \<noteq> 0 \<longrightarrow> In_error \<in> set input"
            using inp by (cases y) auto
          have "chunks_read input R \<and> sent_only crc 0 R (e_tx e) s2"
            using progress_chunks [OF s1(2)] s2(2) sent_only_weaken by (fastforce simp: sent_only_def)
          then have "err' \<noteq> 0 \<Longrightarrow> round_ok crc e input A0 n0 k0 (Inr (False, True, s2))"
            using s2(4) by (auto simp: round_ok_def)
          then show ?thesis
            unfolding run if_P [OF True] using Inr s2(1,3) send_round by auto
        qed
      qed
    qed
  qed
qed

lemma expired_round:
  assumes "progress crc e input A0 n0 k0 A R s" and "may_read both s"
  shows "round_ok crc e input A0 n0 k0 (transmit_expired both s)"
proof (cases "used (tx_buf s) = 0")
  case True
  then show ?thesis
    using assms used_eq_0 [of "tx_buf s"] by (auto simp: transmit_expired_def round_ok_def)
next
  case False
  then have run: "transmit_expired both s = rbind (handle_retransmission s) (\<lambda>(err, s). Inr (err = 0, both, s))"
    using used_eq_0 [of "tx_buf s"] by (simp add: transmit_expired_def)
  have "may_read both s'" if "calmer s s'" for s'
    using assms(2) that by (auto simp: may_read_def calmer_def)
  then show ?thesis
    unfolding run using resend_progress [OF assms(1) False] by (auto simp: round_ok_def)
qed

section \<open>The loop\<close>

definition finished :: "crc_fun \<Rightarrow> 'a env_scheme \<Rightarrow> in_event list \<Rightarrow> (int \<times> sender) res \<Rightarrow> bool" where
  "finished crc e input r \<longleftrightarrow>
     (case r of
        Inl f \<Rightarrow> f \<in> {Blocked, Null_deref, Exit_failure}
      | Inr (ret, s') \<Rightarrow>
          ret = -103 \<and> (\<exists>R. chunks_read input R \<and> sent_only crc 0 R (e_tx e) s') \<or>
          ret = 0 \<and> (\<exists>R k0. progress crc e input 0 0 k0 (length R) R s' \<and> R \<noteq> [] \<and> last R = []))"

text \<open>The loop ends when the last chunk read was empty and all chunks are acknowledged.\<close>

lemma loop_done:
  assumes "progress crc e input A0 n0 k0 A R s" and "tx_last_in_read s = 0" and "pktbuf_empty (tx_buf s)"
  shows "A = length R \<and> R \<noteq> [] \<and> last R = []"
proof -
  have "A = length R"
    using sender_invD(3,4) [OF progressD(1) [OF assms(1)]] used_eq_0 [of "tx_buf s"] assms(3) by simp
  moreover have "R \<noteq> [] \<and> last R = []"
    using assms(2) progressD(4) [OF assms(1)] by (auto simp: read_so_far_def split: if_splits)
  ultimately show ?thesis
    by simp
qed

lemma loop_progress:
  assumes "progress crc e input 0 0 k0 A R s" and "may_read both s"
  shows "finished crc e input (transmit_loop crc both polls s)"
  using assms
proof (induction polls arbitrary: A R s both)
  case Nil
  then show ?case
    by (simp add: finished_def)
next
  case (Cons ev polls)
  let ?round = "case ev of
        Poll_failed \<Rightarrow> Inr (False, both, s)
      | Poll_events file_ev sock_ev \<Rightarrow> transmit_ready crc (both \<and> file_ev) sock_ev s
      | Poll_expired \<Rightarrow> transmit_expired both s"
  have ok: "round_ok crc e input 0 0 k0 ?round"
    using ready_round [OF Cons.prems] expired_round [OF Cons.prems] Cons.prems
    by (auto simp: round_ok_def dest: progress_chunks split: poll_event.split)
  show ?case
  proof (cases ?round)
    case (Inl f)
    then show ?thesis
      using ok by (simp add: round_ok_def finished_def)
  next
    case (Inr x)
    obtain go_on both' s1 where x: "x = (go_on, both', s1)"
      by (cases x)
    show ?thesis
    proof (cases go_on)
      case False
      then show ?thesis
        using round_ended [of crc e input 0 0 k0 both' s1] ok Inr x by (simp add: finished_def)
    next
      case True
      then obtain B S where s1: "progress crc e input 0 0 k0 B S s1" "may_read both' s1"
        using ok Inr x by (auto simp: round_ok_def)
      show ?thesis
      proof (cases "tx_last_in_read s1 \<noteq> 0 \<or> \<not> pktbuf_empty (tx_buf s1)")
        case True
        then show ?thesis
          using Inr x \<open>go_on\<close> Cons.IH [OF s1] by simp
      next
        case False
        then show ?thesis
          using Inr x \<open>go_on\<close> s1(1) loop_done [OF s1(1)] by (auto simp: finished_def)
      qed
    qed
  qed
qed

end
