(* ===== verification/Sender_Props.thy ===== *)
theory Sender_Props
  imports Sender_Loop Pktbuf_Props
begin

text \<open>
  What the sender promises: what its handlers do exactly, that it sends only chunks of its
  input, that returning 0 means that the whole input was acknowledged, that it gets there when
  the other side answers, and where its code goes wrong.
\<close>

unbundle bit_operations_syntax

declare nth_items [simp del]

section \<open>The start\<close>

lemma sender_init_inv:
  assumes "pktbuf_new True c = Inr (Some buf)" and "unat c \<le> 128"
  shows "sender_inv crc 0 [] (sender_init buf input e)" "cap buf = unat c" "used buf = 0"
proof -
  have buf: "buf = \<lparr>b_first = 0, b_last = 0, b_capacity = c, b_head = replicate (unat c) pkt_zero\<rparr>"
    using assms(1) by (auto simp: pktbuf_new_def split: if_splits)
  then show u: "cap buf = unat c" "used buf = 0"
    by (simp_all add: cap_def used_def pktbuf_used_def)
  have z: "ntohs 0 = 0"
    by simp
  have "list_all clean_slot (b_head buf)"
    by (simp add: buf list_all_iff clean_slot_def pkt_zero_def z)
  then show "sender_inv crc 0 [] (sender_init buf input e)"
    using pktbuf_new_wf(1) [OF assms(1)] assms(2) u buf
    by (simp add: sender_inv_def sender_init_def outstanding_def)
qed

lemma sender_init_progress:
  assumes "pktbuf_new True c = Inr (Some buf)" and "unat c \<le> 128" and "e_wr e = []"
  shows "progress crc e input 0 0 (cap buf) 0 [] (sender_init buf input e)" "may_read True (sender_init buf input e)"
proof -
  show "progress crc e input 0 0 (cap buf) 0 [] (sender_init buf input e)"
    using sender_init_inv(1) [OF assms(1,2), of crc input e] assms(3)
    by (simp add: progress_def)
      (simp add: sender_init_def sent_only_def read_so_far_def acked_so_far_def window_ok_def outstanding_def)
  show "may_read True (sender_init buf input e)"
    using pktbuf_new_wf [OF assms(1)] wf_bufD(4) [of buf] by (simp add: may_read_def sender_init_def)
qed

lemma ack_received_mono: "ack_received crc got A \<Longrightarrow> set got \<subseteq> set got' \<Longrightarrow> ack_received crc got' A"
  unfolding ack_received_def by blast

section \<open>Transfers\<close>

text \<open>
  C10. \<open>transmit\<close>, on a new buffer of at most 128 slots and a socket that takes what it is given,
  whatever arrives and whenever: every datagram it sends is the encoding of a chunk of the input,
  with the number of that chunk; it returns 0 or \<open>-ECONNABORTED\<close>; when it returns 0 the input has
  been read to its end, and an acknowledgement of the empty last chunk, so of everything, has
  arrived. Otherwise it can only block, or stop for one of two known reasons: a fast
  retransmission with an empty buffer, a timeout after packet 255.
\<close>

theorem transmit_sends_input:
  assumes "pktbuf_new True c = Inr (Some buf)" and "unat c \<le> 128" and "e_wr e = []"
  shows "case transmit crc polls buf input e of
      Inl f \<Rightarrow> f \<in> {Blocked, Null_deref, Exit_failure}
    | Inr (ret, s') \<Rightarrow> \<exists>R. chunks_read input R \<and> sent_only crc 0 R (e_tx e) s' \<and>
        (ret = -103 \<or> ret = 0 \<and> R \<noteq> [] \<and> last R = [] \<and> ack_received crc (e_rx e) (length R))"
proof -
  have fin: "finished crc e input (transmit crc polls buf input e)"
    unfolding transmit_def by (rule loop_progress [OF sender_init_progress [OF assms]])
  show ?thesis
  proof (cases "transmit crc polls buf input e")
    case (Inl f)
    then show ?thesis
      using fin by (simp add: finished_def)
  next
    case (Inr x)
    have acked: "ack_received crc (e_rx e) (length R)"
      if "progress crc e input 0 0 k0 (length R) R s'" "R \<noteq> []" for R s' k0
      using progressD(5) [OF that(1)] that(2)
      by (auto simp: acked_so_far_def elim: ack_received_mono)
    show ?thesis
      using fin Inr acked progress_chunks [of crc e input 0 0] by (fastforce simp: finished_def)
  qed
qed

section \<open>The handlers\<close>

text \<open>
  C30. \<open>do_send_sbuf\<close> sends exactly the chunks that have been read and not sent, in order, until
  the number of packets in flight reaches the window last announced.
\<close>

theorem send_window:
  assumes "sender_inv crc A R s" and "e_wr s = []"
  shows "\<exists>s'. do_send_sbuf s = Inr (0, s') \<and> sender_inv crc A R s' \<and>
    outstanding s' = max (outstanding s) (min (length R - A) (unat (tx_last_win s))) \<and>
    e_tx s' = e_tx s @ sends crc R (A + outstanding s) (A + outstanding s')"
proof -
  obtain s' where s': "do_send_sbuf s = Inr (0, s')" "sender_inv crc A R s'"
    "outstanding s' = max (outstanding s) (min (length R - A) (unat (tx_last_win s)))"
    "s' = s\<lparr>tx_last_sent := tx_last_sent s',
      e_tx := e_tx s @ sends crc R (A + outstanding s) (A + outstanding s')\<rparr>"
    using send_sbuf_step [OF assms] by blast
  moreover have "e_tx s' = e_tx s @ sends crc R (A + outstanding s) (A + outstanding s')"
    by (subst s'(4)) simp
  ultimately show ?thesis
    by blast
qed

lemma resends_outstanding:
  assumes "sender_inv crc A R s" and "e_wr s = []" and "tx_last_sent s \<noteq> 255"
    and "tx_retry_count s < MAX_RETRANSMISSION"
  shows "handle_retransmission s = Inr (0, s\<lparr>tx_retry_count := tx_retry_count s + 1, tx_dup_ack := 0,
    e_tx := e_tx s @ sends crc R A (A + outstanding s)\<rparr>)"
proof -
  let ?s = "s\<lparr>tx_retry_count := tx_retry_count s + 1\<rparr>"
  have o: "outstanding ?s = outstanding s"
    by (simp add: outstanding_def)
  have "resend_loop (tx_last_ack s) ?s = Some (Inr (0, ?s\<lparr>tx_dup_ack := 0,
      e_tx := e_tx ?s @ sends crc R (A + 0) (A + outstanding ?s)\<rparr>))"
    using assms(1-3) by (intro resend_step) simp_all
  then show ?thesis
    using assms(4) o by (simp add: handle_retransmission_def Let_def)
qed

text \<open>
  C31. After a timeout, unless it is the sixth in a row or the last packet sent has number 255,
  \<open>handle_retransmission\<close> performs a go-back-n: it sends all the packets in flight again, once
  each and in order, and changes nothing but the counters.
\<close>

theorem retransmission_goes_back:
  assumes "sender_inv crc A R s" and "e_wr s = []" and "tx_last_sent s \<noteq> 255"
    and "tx_retry_count s < MAX_RETRANSMISSION"
  shows "handle_retransmission s = Inr (0, s\<lparr>tx_retry_count := tx_retry_count s + 1, tx_dup_ack := 0,
    e_tx := e_tx s @ sends crc R A (A + outstanding s)\<rparr>)"
  by (rule resends_outstanding [OF assms])

text \<open>
  C32. When the last packet sent has number 255, the loop of \<open>handle_retransmission\<close> does not
  find its end (it compares an 8-bit counter with 256) and the first timeout with anything in
  the buffer ends the process.
\<close>

theorem retransmission_after_255:
  assumes "sender_inv crc A R s" and "e_wr s = []" and "tx_last_sent s = 255" and "A < length R"
    and "tx_retry_count s < MAX_RETRANSMISSION"
  shows "transmit_loop crc both (Poll_expired # polls) s = Inl Exit_failure"
proof -
  have u: "used (tx_buf s) \<noteq> 0"
    using sender_invD(4) [OF assms(1)] assms(4) by simp
  then have "\<not> pktbuf_empty (tx_buf s)"
    by (simp add: used_eq_0)
  then show ?thesis
    using retransmission_at_255 [OF assms(1-3) u assms(5)] by (simp add: transmit_expired_def)
qed

text \<open>
  C33. \<open>process_ack\<close> takes exactly the packets out of the buffer that the acknowledgement covers,
  and never more than are in flight.
\<close>

theorem ack_dequeues:
  assumes "sender_inv crc A R s" and "unat (ack - tx_last_ack s) \<le> outstanding s"
  shows "\<exists>s'. process_ack ack s = (0, s') \<and> sender_inv crc (A + unat (ack - tx_last_ack s)) R s' \<and>
    outstanding s' = outstanding s - unat (ack - tx_last_ack s) \<and>
    s' = s\<lparr>tx_buf := tx_buf s', tx_last_ack := ack, tx_dup_ack := 0\<rparr>"
proof -
  obtain s' where s': "process_ack ack s = (0, s')" "sender_inv crc (A + unat (ack - tx_last_ack s)) R s'"
    "outstanding s' = outstanding s - unat (ack - tx_last_ack s)"
    "s' = s\<lparr>tx_buf := tx_buf s', tx_last_ack := tx_last_ack s', tx_dup_ack := 0\<rparr>"
    using process_ack_step [OF assms] by blast
  moreover have "tx_last_ack s' = ack"
    using s'(1) by (auto simp: process_ack_def dequeue_acked_eq)
  ultimately show ?thesis
    by auto
qed

text \<open>
  \<open>handle_input_read\<close> reads at most 512 bytes and queues them as the next chunk, encoded; it
  returns -1 when the input fails.
\<close>

theorem input_queues_chunk:
  assumes "sender_inv crc A R s" and "used (tx_buf s) < cap (tx_buf s)" and "tx_input s = ev # evs"
  shows "case ev of
      In_data bytes \<Rightarrow> \<exists>s'. handle_input_read crc s = Inr (0, s') \<and>
        sender_inv crc A (R @ [take 512 bytes]) s' \<and> tx_input s' = evs \<and>
        tx_last_in_read s' = int (length (take 512 bytes)) \<and> outstanding s' = outstanding s
    | In_error \<Rightarrow> \<exists>s'. handle_input_read crc s = Inr (-1, s') \<and> used (tx_buf s') = Suc (used (tx_buf s))"
proof (cases ev)
  case In_error
  have "used (snd (pktbuf_enqueue (tx_buf s))) = Suc (used (tx_buf s))"
    using enqueue_used [OF sender_invD(1) [OF assms(1)] assms(2)] by simp
  then show ?thesis
    using In_error assms(3)
    by (simp add: handle_input_read_def Let_def sys_read_def case_prod_unfold)
next
  case (In_data bytes)
  obtain s' where s': "handle_input_read crc s = Inr (0, s')" "sender_inv crc A (R @ [take 512 bytes]) s'"
    "outstanding s' = outstanding s"
    "s' = s\<lparr>tx_buf := tx_buf s', tx_last_chunk_read := tx_last_chunk_read s + 1,
      tx_last_in_read := int (length (take 512 bytes)), tx_input := evs\<rparr>"
    using input_step [OF assms(1,2) assms(3) [unfolded In_data]] by blast
  moreover have "tx_input s' = evs" "tx_last_in_read s' = int (length (take 512 bytes))"
    by (subst s'(4), simp)+
  ultimately show ?thesis
    using In_data by auto
qed

text \<open>
  Which slots a negative acknowledgement finds: the packets in the buffer are looked up by slot
  number below the number of packets, not by position.
\<close>

lemma chunk_number_inject:
  assumes "of_nat c = (of_nat d :: u8)" and "c < n" and "d < n" and "n \<le> c + k" and "n \<le> d + k" and "k \<le> 128"
  shows "c = d"
proof -
  have "c mod 256 = d mod 256"
    using arg_cong [OF assms(1), of unat] by (simp add: unat_of_nat)
  moreover have "c < d + 256" "d < c + 256"
    using assms(2-6) by linarith+
  ultimately show ?thesis
    using mod_window_neq [of c d 256] mod_window_neq [of d c 256] by (metis nat_neq_iff)
qed

lemma slot_seq_iff:
  assumes "sender_inv crc A R s" and "i < used (tx_buf s)" and "c < length R" and "length R \<le> c + cap (tx_buf s)"
  shows "p_seq (tx_slot s i) = of_nat c \<longleftrightarrow> i = c mod cap (tx_buf s)"
proof
  note inv = sender_invD [OF assms(1)]
  have i: "i < cap (tx_buf s)" "i < length R"
    using assms(2) inv(4,11) by simp_all
  obtain d where d: "d < length R" "length R \<le> d + cap (tx_buf s)" "d mod cap (tx_buf s) = i"
    "holds crc d (R ! d) (slot (tx_buf s) i)"
    using holds_slot [OF assms(1) i] by blast
  show "i = c mod cap (tx_buf s)" if "p_seq (tx_slot s i) = of_nat c"
    using chunk_number_inject [OF _ d(1) assms(3) d(2) assms(4) inv(2)] that holds_seq [OF d(4)] d(3)
    by (simp add: tx_slot_def)
  show "p_seq (tx_slot s i) = of_nat c" if "i = c mod cap (tx_buf s)"
    using holds_seq [OF inv(10) [OF assms(3,4)]] that by (simp add: tx_slot_def)
qed

lemma nack_loop_exact:
  assumes "sender_inv crc A R s" and "e_wr s = []" and "c < length R" and "length R \<le> c + cap (tx_buf s)"
    and "i + n = used (tx_buf s)"
  shows "nack_loop n (of_nat i) (of_nat c) s = Inr (0,
    if i \<le> c mod cap (tx_buf s) \<and> c mod cap (tx_buf s) < used (tx_buf s)
    then s\<lparr>e_tx := e_tx s @ [wire_of crc (chunk_segment c (R ! c))]\<rparr> else s)"
  using assms(5)
proof (induction n arbitrary: i)
  case (Suc n)
  note inv = sender_invD [OF assms(1)]
  have i: "i < used (tx_buf s)"
    using Suc.prems by simp
  note at = pktbuf_at_low [OF inv(1) i] and sq = slot_seq_iff [OF assms(1) i assms(3,4)]
  show ?case
  proof (cases "i = c mod cap (tx_buf s)")
    case True
    then show ?thesis
      using at sq i holds_send [OF inv(10) [OF assms(3,4)] assms(2)] by (simp add: tx_slot_def)
  next
    case False
    then show ?thesis
      using Suc.IH [of "Suc i"] Suc.prems at sq by (auto simp: add.commute)
  qed
qed auto

text \<open>
  C34. A NACK for a chunk still in the ring is answered with that chunk exactly when the number
  of its slot is less than the number of packets in the buffer; otherwise nothing is sent,
  although the packet is there.
\<close>

theorem nack_resends:
  assumes "sender_inv crc A R s" and "e_wr s = []" and "c < length R" and "length R \<le> c + cap (tx_buf s)"
  shows "process_nack (of_nat c) s = Inr (0,
    if c mod cap (tx_buf s) < length R - A
    then s\<lparr>e_tx := e_tx s @ [wire_of crc (chunk_segment c (R ! c))]\<rparr> else s)"
  using nack_loop_exact [OF assms, of 0] sender_invD(4) [OF assms(1)]
  by (simp add: process_nack_def sint_used [OF sender_invD(1) [OF assms(1)]])

text \<open>Receiving an acknowledgement of at most the packets in flight.\<close>

lemma ack_round:
  assumes "e_rx s = Rx src d # evs" and "datagram_of crc seg (take 528 d)"
    and "s_type seg = ucast PTYPE_ACK" and "unat (s_seq seg - tx_last_ack s) \<le> outstanding s"
  shows "handle_socket_read crc s =
    (let s' = s\<lparr>tx_retry_count := 0, e_rx := evs, tx_last_win := ucast (s_window seg)\<rparr> in
     if tx_last_ack s = s_seq seg then process_dup_ack (s_seq seg) s' else Inr (process_ack (s_seq seg) s'))"
proof -
  let ?win = "tx_last_sent s - tx_last_ack s + 1"
  have "?win = tx_last_sent s + 1 - tx_last_ack s"
    by (simp add: algebra_simps)
  then have win: "s_seq seg - tx_last_ack s \<le> ?win"
    using assms(4) by (simp only: outstanding_def word_le_nat_alt)
  show ?thesis
  proof (cases rule: net_recv_pkt_cases [of pkt_zero "s\<lparr>tx_retry_count := 0\<rparr>" src d evs crc "tx_last_ack s" ?win,
        case_names wf rx accepted dropped])
    case (accepted q)
    have "segment_of q = seg"
      using datagram_of_unique [OF accepted(2) assms(2)] .
    then have q: "p_type q = ucast PTYPE_ACK" "p_seq q = s_seq seg" "p_window q = s_window seg"
      using assms(3) by (auto simp: segment_of_def)
    then show ?thesis
      unfolding handle_socket_read_def Let_def if_last_win using accepted(1) by simp
  next
    case (dropped q)
    then show ?thesis
      using dropped(2) [OF assms(2)] win by blast
  qed (use assms(1) in simp_all)
qed

text \<open>
  C35. With an empty buffer and nothing left to send, the third acknowledgement that repeats the
  last one makes \<open>process_dup_ack\<close> send the first packet of the empty buffer: a null pointer.
\<close>

theorem third_dup_ack_crashes:
  assumes "e_rx s = map (\<lambda>d. Rx src d) [d, d', d''] @ evs"
    and "\<forall>x \<in> {d, d', d''}. \<exists>seg. datagram_of crc seg (take 528 x) \<and> s_type seg = ucast PTYPE_ACK \<and>
      s_seq seg = tx_last_ack s"
    and "pktbuf_empty (tx_buf s)" and "tx_dup_ack s = 0" and "tx_last_sent s = tx_last_chunk_read s"
    and "tx_last_in_read s \<noteq> 0"
  shows "transmit_loop crc both (replicate 3 (Poll_events False True) @ polls) s = Inl Null_deref"
proof -
  obtain g g' g'' where g: "datagram_of crc g (take 528 d)" "s_type g = ucast PTYPE_ACK" "s_seq g = tx_last_ack s"
    "datagram_of crc g' (take 528 d')" "s_type g' = ucast PTYPE_ACK" "s_seq g' = tx_last_ack s"
    "datagram_of crc g'' (take 528 d'')" "s_type g'' = ucast PTYPE_ACK" "s_seq g'' = tx_last_ack s"
    using assms(2) by (metis insertCI)
  let ?next = "\<lambda>s k evs seg. s\<lparr>tx_retry_count := 0, e_rx := evs, tx_last_win := ucast (s_window seg), tx_dup_ack := k\<rparr>"
  let ?s1 = "?next s 1 (Rx src d' # Rx src d'' # evs) g"
  let ?s2 = "?next ?s1 2 (Rx src d'' # evs) g'"
  have round: "transmit_loop crc b (Poll_events False True # ps) t =
      transmit_loop crc (tx_last_in_read t' \<noteq> 0 \<and> \<not> pktbuf_full (tx_buf t')) ps t'"
    if "handle_socket_read crc t = Inr (0, t')" "tx_last_sent t' = tx_last_chunk_read t'"
      "tx_last_in_read t' \<noteq> 0" for b ps t t'
    using that by (simp add: transmit_ready_def do_send_sbuf.simps [of t'])
  have s1: "handle_socket_read crc s = Inr (0, ?s1)"
    using ack_round [OF _ g(1,2), of s src "Rx src d' # Rx src d'' # evs"] g(3) assms(1,4)
    by (simp add: process_dup_ack_def)
  have s2: "handle_socket_read crc ?s1 = Inr (0, ?s2)"
    using ack_round [of ?s1 src d' "Rx src d'' # evs" crc g'] g(4-6)
    by (simp add: process_dup_ack_def)
  have s3: "handle_socket_read crc ?s2 = Inl Null_deref"
    using ack_round [of ?s2 src d'' evs crc g''] g(7-9) assms(3)
    by (simp add: process_dup_ack_def pktbuf_first_def)
  have "transmit_loop crc b (Poll_events False True # polls) ?s2 = Inl Null_deref" for b
    using s3 by (simp add: transmit_ready_def)
  then show ?thesis
    using round [OF s1] round [OF s2] assms(5,6) by (simp add: numeral_3_eq_3)
qed

section \<open>A transfer that goes well\<close>

text \<open>
  Two rounds: a chunk is read and sent, and acknowledged.
\<close>

definition at_rest :: "crc_fun \<Rightarrow> byte list list \<Rightarrow> sender \<Rightarrow> bool" where
  "at_rest crc R s \<longleftrightarrow> sender_inv crc (length R) R s \<and> e_wr s = [] \<and> tx_last_win s \<noteq> 0"

definition acks_chunk :: "nat \<Rightarrow> segment \<Rightarrow> bool" where
  "acks_chunk i seg \<longleftrightarrow> valid_segment seg \<and> s_type seg = ucast PTYPE_ACK \<and> s_seq seg = of_nat (Suc i) \<and>
     s_window seg \<noteq> 0"

lemma acks_chunk_datagram:
  assumes "acks_chunk i seg"
  shows "datagram_of crc seg (take 528 (wire_of crc seg))"
proof -
  have "s_data seg = []"
    using assms by (auto simp: acks_chunk_def valid_segment_def)
  then have "take 528 (wire_of crc seg) = wire_of crc seg"
    by (simp add: length_wire_of)
  then show ?thesis
    using assms by (simp add: datagram_of_def acks_chunk_def)
qed

lemma read_round:
  assumes "at_rest crc R s" and "tx_input s = In_data b # ins" and "length b \<le> 512"
  shows "\<exists>s2 both. transmit_ready crc True False s = Inr (True, both, s2) \<and> \<not> pktbuf_empty (tx_buf s2) \<and>
    sender_inv crc (length R) (R @ [b]) s2 \<and> outstanding s2 = 1 \<and> e_wr s2 = [] \<and> tx_input s2 = ins \<and>
    e_rx s2 = e_rx s \<and> tx_last_in_read s2 = int (length b) \<and> tx_retry_count s2 = tx_retry_count s \<and>
    e_tx s2 = e_tx s @ [wire_of crc (chunk_segment (length R) b)]"
proof -
  have inv: "sender_inv crc (length R) R s" "e_wr s = []" "0 < unat (tx_last_win s)"
    using assms(1) by (simp_all add: at_rest_def unat_gt_0)
  note i = sender_invD [OF inv(1)]
  have u: "used (tx_buf s) = 0" "used (tx_buf s) < cap (tx_buf s)" "outstanding s = 0"
    using i(4,8) wf_bufD(4) [OF i(1)] by simp_all
  have b: "take 512 b = b"
    using assms(3) by simp
  obtain s1 where s1: "handle_input_read crc s = Inr (0, s1)" "sender_inv crc (length R) (R @ [b]) s1"
    "outstanding s1 = outstanding s"
    "s1 = s\<lparr>tx_buf := tx_buf s1, tx_last_chunk_read := tx_last_chunk_read s + 1,
      tx_last_in_read := int (length b), tx_input := ins\<rparr>"
    using input_step [OF inv(1) u(2) assms(2)] unfolding b by blast
  have f1: "e_wr s1 = []" "e_tx s1 = e_tx s" "e_rx s1 = e_rx s" "tx_last_win s1 = tx_last_win s"
    "tx_input s1 = ins" "tx_last_in_read s1 = int (length b)" "tx_retry_count s1 = tx_retry_count s"
    by (subst s1(4), simp add: inv(2))+
  obtain s2 where s2: "do_send_sbuf s1 = Inr (0, s2)" "sender_inv crc (length R) (R @ [b]) s2"
    "outstanding s2 = max (outstanding s1) (min (length (R @ [b]) - length R) (unat (tx_last_win s1)))"
    "s2 = s1\<lparr>tx_last_sent := tx_last_sent s2,
      e_tx := e_tx s1 @ sends crc (R @ [b]) (length R + outstanding s1) (length R + outstanding s2)\<rparr>"
    using send_sbuf_step [OF s1(2) f1(1)] by blast
  have o2: "outstanding s2 = 1"
    using s2(3) s1(3) u(3) f1(4) inv(3) by simp
  have f2: "e_wr s2 = []" "e_rx s2 = e_rx s" "tx_input s2 = ins" "tx_last_in_read s2 = int (length b)"
    "tx_retry_count s2 = tx_retry_count s" "e_tx s2 = e_tx s @ sends crc (R @ [b]) (length R + 0) (length R + 1)"
    by (subst s2(4), simp add: f1 s1(3) u(3) o2)+
  have "used (tx_buf s2) = 1"
    using sender_invD(4) [OF s2(2)] by simp
  then have "\<not> pktbuf_empty (tx_buf s2)"
    by (simp add: used_eq_0)
  moreover have "transmit_ready crc True False s =
      Inr (True, tx_last_in_read s2 \<noteq> 0 \<and> \<not> pktbuf_full (tx_buf s2), s2)"
    using s1(1) s2(1) by (simp add: transmit_ready_def)
  ultimately show ?thesis
    using s2(2) o2 f2 by (intro exI [of _ s2] exI conjI) (simp_all add: sends_def)
qed

lemma read_and_send:
  assumes "at_rest crc R s" and "tx_input s = In_data b # ins" and "length b \<le> 512"
  shows "\<exists>s2 both. transmit_loop crc True (Poll_events True False # polls) s = transmit_loop crc both polls s2 \<and>
    sender_inv crc (length R) (R @ [b]) s2 \<and> outstanding s2 = 1 \<and> e_wr s2 = [] \<and> tx_input s2 = ins \<and>
    e_rx s2 = e_rx s \<and> tx_last_in_read s2 = int (length b) \<and>
    e_tx s2 = e_tx s @ [wire_of crc (chunk_segment (length R) b)]"
proof -
  obtain s2 both where s2: "transmit_ready crc True False s = Inr (True, both, s2)" "\<not> pktbuf_empty (tx_buf s2)"
    "sender_inv crc (length R) (R @ [b]) s2" "outstanding s2 = 1" "e_wr s2 = []" "tx_input s2 = ins"
    "e_rx s2 = e_rx s" "tx_last_in_read s2 = int (length b)"
    "e_tx s2 = e_tx s @ [wire_of crc (chunk_segment (length R) b)]"
    using read_round [OF assms] by blast
  then show ?thesis
    by (intro exI [of _ s2] exI [of _ both]) simp
qed

lemma ack_ready:
  assumes "sender_inv crc (length R) (R @ [b]) s" and "outstanding s = 1" and "e_wr s = []"
    and "e_rx s = Rx src (wire_of crc seg) # evs" and "acks_chunk (length R) seg"
    and "tx_last_in_read s = int (length b)"
  shows "\<exists>s'. transmit_ready crc False True s = Inr (True, b \<noteq> [], s') \<and> pktbuf_empty (tx_buf s') \<and>
    tx_last_in_read s' = int (length b) \<and> tx_retry_count s' = 0 \<and>
    at_rest crc (R @ [b]) s' \<and> e_rx s' = evs \<and> e_tx s' = e_tx s \<and> tx_input s' = tx_input s \<and> tx_dup_ack s' = 0"
proof -
  note i = sender_invD [OF assms(1)]
  have ack: "s_type seg = ucast PTYPE_ACK" "s_seq seg = tx_last_ack s + 1" "s_window seg \<noteq> 0"
    using assms(5) i(6) by (simp_all add: acks_chunk_def)
  have one: "unat (tx_last_ack s + 1 - tx_last_ack s) = 1"
    by simp
  let ?s1 = "s\<lparr>tx_retry_count := 0, e_rx := evs, tx_last_win := ucast (s_window seg)\<rparr>"
  have s1: "sender_inv crc (length R) (R @ [b]) ?s1" "outstanding ?s1 = 1"
    using assms(1,2) by (simp_all add: outstanding_def)
  have read: "handle_socket_read crc s = Inr (process_ack (tx_last_ack s + 1) ?s1)"
    using ack_round [OF assms(4) acks_chunk_datagram [OF assms(5)] ack(1)] ack(2) assms(2) by simp
  obtain s2 where s2: "process_ack (tx_last_ack s + 1) ?s1 = (0, s2)"
    "sender_inv crc (length R + 1) (R @ [b]) s2" "outstanding s2 = 0"
    "s2 = ?s1\<lparr>tx_buf := tx_buf s2, tx_last_ack := tx_last_ack s2, tx_dup_ack := 0\<rparr>"
    using process_ack_step [OF s1(1), of "tx_last_ack s + 1"] s1(2) by auto
  have f2: "e_wr s2 = []" "e_rx s2 = evs" "e_tx s2 = e_tx s" "tx_input s2 = tx_input s"
    "tx_last_win s2 = ucast (s_window seg)" "tx_last_in_read s2 = int (length b)" "tx_retry_count s2 = 0"
    "tx_dup_ack s2 = 0"
    by (subst s2(4), simp add: assms(3,6))+
  note i2 = sender_invD [OF s2(2)]
  have u: "used (tx_buf s2) = 0" "pktbuf_empty (tx_buf s2)"
    using i2(4) by (simp_all add: used_eq_0)
  have nofull: "\<not> pktbuf_full (tx_buf s2)"
    using u(1) wf_bufD(4) [OF i2(1)] by (simp add: full_iff)
  have "tx_last_sent s2 = tx_last_chunk_read s2"
    using outstanding_chunks(1) [OF s2(2)] s2(3) by simp
  then have "do_send_sbuf s2 = Inr (0, s2)"
    by (simp add: do_send_sbuf.simps [of s2])
  then have "transmit_ready crc False True s = Inr (True, b \<noteq> [], s2)"
    using read s2(1) u nofull f2(6) by (simp add: transmit_ready_def)
  moreover have "ucast (s_window seg) \<noteq> (0 :: u8)"
    using ack(3) by (simp add: word_unat_eq_iff unat_ucast_up)
  then have "at_rest crc (R @ [b]) s2"
    using s2(2) f2 by (simp add: at_rest_def)
  ultimately show ?thesis
    using f2 u(2) by blast
qed

lemma acknowledged:
  assumes "sender_inv crc (length R) (R @ [b]) s" and "outstanding s = 1" and "e_wr s = []"
    and "e_rx s = Rx src (wire_of crc seg) # evs" and "acks_chunk (length R) seg"
    and "tx_last_in_read s = int (length b)"
  shows "\<exists>s'. transmit_loop crc both (Poll_events False True # polls) s =
      (if b = [] then Inr (0, s') else transmit_loop crc True polls s') \<and>
    at_rest crc (R @ [b]) s' \<and> e_rx s' = evs \<and> e_tx s' = e_tx s \<and> tx_input s' = tx_input s"
proof -
  obtain s' where s': "transmit_ready crc False True s = Inr (True, b \<noteq> [], s')" "pktbuf_empty (tx_buf s')"
    "tx_last_in_read s' = int (length b)"
    "at_rest crc (R @ [b]) s' \<and> e_rx s' = evs \<and> e_tx s' = e_tx s \<and> tx_input s' = tx_input s"
    using ack_ready [OF assms] by blast
  then show ?thesis
    by (intro exI [of _ s']) simp
qed

lemma transfer_rounds:
  assumes "at_rest crc R s" and "tx_input s = map In_data (fs @ [[]])"
    and "list_all (\<lambda>b. b \<noteq> [] \<and> length b \<le> 512) fs"
    and "list_all2 (\<lambda>i ev. \<exists>src seg. ev = Rx src (wire_of crc seg) \<and> acks_chunk i seg)
      [length R..<length R + Suc (length fs)] (e_rx s)"
  shows "\<exists>s'. transmit_loop crc True
      (concat (replicate (Suc (length fs)) [Poll_events True False, Poll_events False True])) s = Inr (0, s') \<and>
    e_tx s' = e_tx s @ map (\<lambda>i. wire_of crc (chunk_segment (length R + i) ((fs @ [[]]) ! i))) [0..<Suc (length fs)]"
  using assms
proof (induction fs arbitrary: R s)
  case Nil
  obtain src seg where rx: "e_rx s = [Rx src (wire_of crc seg)]" "acks_chunk (length R) seg"
    using Nil(4) by (auto simp: list_all2_Cons1)
  obtain s2 both where s2: "transmit_loop crc True (Poll_events True False # [Poll_events False True]) s =
      transmit_loop crc both [Poll_events False True] s2"
    "sender_inv crc (length R) (R @ [[]]) s2" "outstanding s2 = 1" "e_wr s2 = []"
    "e_rx s2 = e_rx s" "tx_last_in_read s2 = 0"
    "e_tx s2 = e_tx s @ [wire_of crc (chunk_segment (length R) [])]"
    using read_and_send [OF Nil(1), of "[]" "[]" "[Poll_events False True]"] Nil(2) by auto
  then show ?case
    using acknowledged [OF s2(2-4), of src seg "[]" both "[]"] rx by auto
next
  case (Cons b fs)
  let ?ps = "concat (replicate (Suc (length fs)) [Poll_events True False, Poll_events False True])"
  obtain src seg evs where rx: "e_rx s = Rx src (wire_of crc seg) # evs" "acks_chunk (length R) seg"
    "list_all2 (\<lambda>i ev. \<exists>src seg. ev = Rx src (wire_of crc seg) \<and> acks_chunk i seg)
      [Suc (length R)..<length R + Suc (length (b # fs))] evs"
    using Cons.prems(4) upt_conv_Cons [of "length R" "length R + Suc (length (b # fs))"]
    by (auto simp: list_all2_Cons1 simp del: upt_Suc)
  have b: "b \<noteq> []" "length b \<le> 512" "tx_input s = In_data b # map In_data (fs @ [[]])"
    using Cons.prems(2,3) by simp_all
  obtain s2 both where s2: "transmit_loop crc True (Poll_events True False # Poll_events False True # ?ps) s =
      transmit_loop crc both (Poll_events False True # ?ps) s2"
    "sender_inv crc (length R) (R @ [b]) s2" "outstanding s2 = 1" "e_wr s2 = []"
    "tx_input s2 = map In_data (fs @ [[]])" "e_rx s2 = e_rx s" "tx_last_in_read s2 = int (length b)"
    "e_tx s2 = e_tx s @ [wire_of crc (chunk_segment (length R) b)]"
    using read_and_send [OF Cons.prems(1) b(3,2), of "Poll_events False True # ?ps"] by blast
  obtain s3 where s3: "transmit_loop crc both (Poll_events False True # ?ps) s2 = transmit_loop crc True ?ps s3"
    "at_rest crc (R @ [b]) s3" "e_rx s3 = evs" "e_tx s3 = e_tx s2" "tx_input s3 = tx_input s2"
    using acknowledged [OF s2(2-4) _ rx(2) s2(7), of src evs both ?ps] s2(6) rx(1) b(1) by auto
  have "\<exists>s'. transmit_loop crc True ?ps s3 = Inr (0, s') \<and> e_tx s' = e_tx s3 @
      map (\<lambda>i. wire_of crc (chunk_segment (length (R @ [b]) + i) ((fs @ [[]]) ! i))) [0..<Suc (length fs)]"
    using Cons.prems(3) s3 s2(5) rx(3) by (intro Cons.IH) simp_all
  then obtain s' where s': "transmit_loop crc True ?ps s3 = Inr (0, s')" "e_tx s' = e_tx s3 @
      map (\<lambda>i. wire_of crc (chunk_segment (length (R @ [b]) + i) ((fs @ [[]]) ! i))) [0..<Suc (length fs)]"
    by blast
  have "map (\<lambda>i. wire_of crc (chunk_segment (length R + i) ((b # fs @ [[]]) ! i))) [0..<Suc (Suc (length fs))] =
      wire_of crc (chunk_segment (length R) b) #
      map (\<lambda>i. wire_of crc (chunk_segment (length (R @ [b]) + i) ((fs @ [[]]) ! i))) [0..<Suc (length fs)]"
    by (simp add: map_upt_Suc del: upt_Suc)
  then have "e_tx s' = e_tx s @
      map (\<lambda>i. wire_of crc (chunk_segment (length R + i) (((b # fs) @ [[]]) ! i))) [0..<Suc (length (b # fs))]"
    using s'(2) s3(4) s2(8) by (simp del: upt_Suc)
  moreover have "transmit_loop crc True (concat (replicate (Suc (length (b # fs)))
      [Poll_events True False, Poll_events False True])) s = Inr (0, s')"
    using s2(1) s3(1) s'(1) by simp
  ultimately show ?case
    by blast
qed

text \<open>
  When the input is ready and every chunk sent is acknowledged by the next one with an open
  window, \<open>transmit\<close> ends: it sends the chunks of the input in order, each once, then the empty
  chunk, and returns 0.
\<close>

lemma transmit_in_step:
  assumes "pktbuf_new True c = Inr (Some buf)" and "unat c \<le> 128" and "e_wr e = []"
    and "list_all (\<lambda>b. b \<noteq> [] \<and> length b \<le> 512) fs"
    and "list_all2 (\<lambda>i ev. \<exists>src seg. ev = Rx src (wire_of crc seg) \<and> acks_chunk i seg)
      [0..<Suc (length fs)] (e_rx e)"
  shows "\<exists>s'. transmit crc (concat (replicate (Suc (length fs)) [Poll_events True False, Poll_events False True]))
      buf (map In_data (fs @ [[]])) e = Inr (0, s') \<and>
    e_tx s' = e_tx e @ map (\<lambda>i. wire_of crc (chunk_segment i ((fs @ [[]]) ! i))) [0..<Suc (length fs)]"
proof -
  let ?s = "sender_init buf (map In_data (fs @ [[]])) e"
  have f: "e_wr ?s = []" "e_tx ?s = e_tx e" "e_rx ?s = e_rx e" "tx_last_win ?s = 1"
    "tx_input ?s = map In_data (fs @ [[]])"
    by (simp_all add: sender_init_def assms(3))
  have "at_rest crc [] ?s"
    using sender_init_inv(1) [OF assms(1,2)] f by (simp add: at_rest_def)
  then show ?thesis
    using transfer_rounds [of crc "[]" ?s fs] f assms(4,5) by (simp add: transmit_def del: upt_Suc)
qed

end
