(* ===== verification/Sender_Demo.thy ===== *)
theory Sender_Demo
  imports Sender_Props
begin

text \<open>
  A concrete sender that holds one packet, and each property of the sender applied to it.
\<close>

unbundle bit_operations_syntax

declare nth_items [simp del]

text \<open>
  The packet in the buffer has number \<open>i\<close>, an odd number, so it lies in the second of two slots;
  the first one still has the packet before it.
\<close>

definition demo_slot :: "nat \<Rightarrow> pkt" where
  "demo_slot i = encoded_pkt demo_crc (pkt_zero\<lparr>p_type := 1, p_window := 0, p_seq := of_nat i,
     p_ts := PKT_TIMESTAMP, p_payload := splice (p_payload pkt_zero) 0 [7], p_length := of_nat (length [7 :: byte])\<rparr>)"

definition demo_tx :: "nat \<Rightarrow> bool \<Rightarrow> sender" where
  "demo_tx i sent = \<lparr>e_rx = [], e_wr = [], e_connect = 0, e_tx = [], e_peer = None, e_fd = 3, e_closed = [],
     tx_buf = \<lparr>b_first = of_nat i, b_last = of_nat i + 1, b_capacity = 2, b_head = [demo_slot (i - 1), demo_slot i]\<rparr>,
     tx_last_ack = of_nat i, tx_last_win = 5, tx_last_sent = (if sent then of_nat i else of_nat i - 1),
     tx_last_chunk_read = of_nat i, tx_dup_ack = 0, tx_retry_count = 0, tx_last_in_read = 1,
     tx_input = []\<rparr>"

lemma demo_slot:
  "holds demo_crc i [7] (demo_slot i)" "wf_pkt (demo_slot i)" "clean_slot (demo_slot i)"
proof -
  have "p_tr pkt_zero = 0" "length [7 :: byte] \<le> 512"
    by (simp_all add: pkt_zero_def)
  from filled_holds [OF wf_pkt_zero this refl, of demo_crc i]
  show "holds demo_crc i [7] (demo_slot i)" "wf_pkt (demo_slot i)" "clean_slot (demo_slot i)"
    by (simp_all only: demo_slot_def)
qed

lemma demo_tx_fields [simp]:
  "e_rx (demo_tx i sent) = []" "e_wr (demo_tx i sent) = []" "e_tx (demo_tx i sent) = []"
  "tx_last_ack (demo_tx i sent) = of_nat i" "tx_last_win (demo_tx i sent) = 5"
  "tx_last_sent (demo_tx i sent) = (if sent then of_nat i else of_nat i - 1)"
  "tx_last_chunk_read (demo_tx i sent) = of_nat i" "tx_dup_ack (demo_tx i sent) = 0"
  "tx_retry_count (demo_tx i sent) = 0" "tx_last_in_read (demo_tx i sent) = 1"
  "cap (tx_buf (demo_tx i sent)) = 2" "used (tx_buf (demo_tx i sent)) = 1"
  "outstanding (demo_tx i sent) = of_bool sent"
  by (simp_all add: demo_tx_def cap_def used_def pktbuf_used_def outstanding_def)

lemma demo_tx_inv:
  assumes "odd i" and "i < 2 ^ 32"
  shows "sender_inv demo_crc i (replicate (Suc i) [7]) (demo_tx i sent)"
proof -
  have head: "slot (tx_buf (demo_tx i sent)) 0 = demo_slot (i - 1)" "slot (tx_buf (demo_tx i sent)) 1 = demo_slot i"
    by (simp_all add: demo_tx_def slot_def)
  have "holds demo_crc c (replicate (Suc i) [7] ! c) (slot (tx_buf (demo_tx i sent)) (c mod 2))"
    if "c < Suc i" "Suc i \<le> c + 2" for c
  proof -
    have "0 < i"
      using assms(1) by (cases i) simp_all
    have "c = i \<or> c = i - 1"
      using that by auto
    then consider "c = i" | "c = i - 1" "0 < i"
      using \<open>0 < i\<close> by blast
    then show ?thesis
    proof cases
      case 1
      then show ?thesis
        using assms(1) demo_slot(1) [of i] head by (simp add: odd_iff_mod_2_eq_one del: replicate_Suc)
    next
      case 2
      then have "c mod 2 = 0"
        using assms(1) by simp
      then show ?thesis
        using 2 demo_slot(1) [of "i - 1"] head that(1) by (simp del: replicate_Suc)
    qed
  qed
  moreover have "wf_buf (tx_buf (demo_tx i sent))"
    using demo_slot(2) by (auto simp: wf_buf_def demo_tx_def pktbuf_used_def intro!: exI [of _ "1 :: nat"])
  moreover have "unat (of_nat i :: u32) = i"
    using assms(2) by (simp add: unat_of_nat)
  then have "unat (b_first (tx_buf (demo_tx i sent))) mod 2 = i mod 2"
    by (simp add: demo_tx_def)
  moreover have "list_all clean_slot (b_head (tx_buf (demo_tx i sent)))"
    using demo_slot(3) by (simp add: demo_tx_def)
  ultimately show ?thesis
    by (simp add: sender_inv_def add.commute del: replicate_Suc)
qed

section \<open>The properties at a concrete input\<close>

lemma demo_new: "\<exists>buf. pktbuf_new True 4 = Inr (Some buf)"
proof -
  have "popcount 4 = 1"
    by code_simp
  then show ?thesis
    by (simp add: pktbuf_new_def)
qed

theorem transmit_sends_input_witness:
  "\<exists>buf. pktbuf_new True 4 = Inr (Some buf) \<and>
    (case transmit demo_crc [Poll_events True False, Poll_expired] buf [In_data [1, 2], In_data []] demo_env of
       Inl f \<Rightarrow> f \<in> {Blocked, Null_deref, Exit_failure}
     | Inr (ret, s') \<Rightarrow> \<exists>R. chunks_read [In_data [1, 2], In_data []] R \<and> sent_only demo_crc 0 R (e_tx demo_env) s' \<and>
         (ret = -103 \<or> ret = 0 \<and> R \<noteq> [] \<and> last R = [] \<and> ack_received demo_crc (e_rx demo_env) (length R)))"
proof -
  obtain buf where buf: "pktbuf_new True 4 = Inr (Some buf)"
    using demo_new by blast
  have "unat (4 :: u32) \<le> 128" "e_wr demo_env = []"
    by (simp_all add: demo_env_def)
  from transmit_sends_input [OF buf this] buf show ?thesis
    by blast
qed

theorem send_window_witness:
  "\<exists>s'. do_send_sbuf (demo_tx 1 False) = Inr (0, s') \<and>
    e_tx s' = [wire_of demo_crc (chunk_segment 1 [7])]"
  using send_window [OF demo_tx_inv [of 1 False]] by (auto simp: sends_def)

theorem retransmission_goes_back_witness:
  "handle_retransmission (demo_tx 1 True) = Inr (0, (demo_tx 1 True)\<lparr>tx_retry_count := 1, tx_dup_ack := 0,
    e_tx := [wire_of demo_crc (chunk_segment 1 [7])]\<rparr>)"
  using retransmission_goes_back [OF demo_tx_inv [of 1 True]] by (simp add: sends_def)

theorem retransmission_after_255_witness:
  "transmit_loop demo_crc True [Poll_expired] (demo_tx 255 True) = Inl Exit_failure"
  by (rule retransmission_after_255 [OF demo_tx_inv]) simp_all

theorem ack_dequeues_witness:
  "\<exists>s'. process_ack 2 (demo_tx 1 True) = (0, s') \<and> sender_inv demo_crc (Suc 1) [[7], [7]] s' \<and>
    outstanding s' = 0 \<and> s' = (demo_tx 1 True)\<lparr>tx_buf := tx_buf s', tx_last_ack := 2, tx_dup_ack := 0\<rparr>"
  using ack_dequeues [OF demo_tx_inv [of 1 True], of 2] by simp

definition demo_reading :: sender where
  "demo_reading = (demo_tx 1 True)\<lparr>tx_input := [In_data [9]]\<rparr>"

theorem input_queues_chunk_witness:
  "\<exists>s'. handle_input_read demo_crc demo_reading = Inr (0, s') \<and>
    sender_inv demo_crc 1 [[7], [7], [9]] s' \<and> tx_input s' = [] \<and> tx_last_in_read s' = 1 \<and> outstanding s' = 1"
proof -
  have "sender_inv demo_crc 1 [[7], [7]] demo_reading" "used (tx_buf demo_reading) < cap (tx_buf demo_reading)"
    "tx_input demo_reading = [In_data [9]]" "outstanding demo_reading = 1"
    using demo_tx_inv [of 1 True] by (simp_all add: demo_reading_def) (simp add: outstanding_def)
  then show ?thesis
    using input_queues_chunk [of demo_crc 1 "[[7], [7]]" demo_reading "In_data [9]" "[]"] by simp
qed

theorem nack_resends_witness: "process_nack 1 (demo_tx 1 True) = Inr (0, demo_tx 1 True)"
  using nack_resends [OF demo_tx_inv [of 1 True], of 1] by simp

definition demo_answer :: segment where
  "demo_answer = \<lparr>s_type = 2, s_tr = 0, s_window = 31, s_seq = 1, s_length = 0, s_ts = 0, s_data = []\<rparr>"

lemma demo_answer: "acks_chunk 0 demo_answer"
  by (simp add: acks_chunk_def demo_answer_def valid_segment_def)

definition demo_idle_tx :: sender where
  "demo_idle_tx = (demo_tx 1 True)\<lparr>tx_buf := \<lparr>b_first = 1, b_last = 1, b_capacity = 1, b_head = [demo_slot 0]\<rparr>,
     tx_last_sent := 0, tx_last_chunk_read := 0,
     e_rx := replicate 3 (Rx [] (wire_of demo_crc demo_answer))\<rparr>"

theorem third_dup_ack_crashes_witness:
  "transmit_loop demo_crc True (replicate 3 (Poll_events False True)) demo_idle_tx = Inl Null_deref"
proof -
  let ?d = "wire_of demo_crc demo_answer"
  have "\<exists>seg. datagram_of demo_crc seg (take 528 ?d) \<and> s_type seg = ucast PTYPE_ACK \<and>
      s_seq seg = tx_last_ack demo_idle_tx"
    using acks_chunk_datagram [OF demo_answer]
    by (intro exI [of _ demo_answer]) (simp add: demo_idle_tx_def, simp add: demo_answer_def)
  then show ?thesis
    using third_dup_ack_crashes [of demo_idle_tx "[]" ?d ?d ?d "[]" demo_crc True "[]"]
    by (simp add: demo_idle_tx_def numeral_3_eq_3 pktbuf_empty_def)
qed

end
