(* ===== verification/Sender_Rounds.thy ===== *)
theory Sender_Rounds
  imports Sender_Demo Runs
begin

text \<open>
  The main loop of the sender as a state machine, and what holds in every state it reaches.
\<close>

section \<open>Rounds\<close>

text \<open>A round after which the loop goes on; the first component says whether the input is polled.\<close>

definition tx_goes_on :: "sender \<Rightarrow> bool" where
  "tx_goes_on s \<longleftrightarrow> tx_last_in_read s \<noteq> 0 \<or> \<not> pktbuf_empty (tx_buf s)"

inductive transmit_step :: "crc_fun \<Rightarrow> bool \<times> sender \<Rightarrow> bool \<times> sender \<Rightarrow> bool" for crc where
  tx_ready: "transmit_ready crc (both \<and> file_ev) sock_ev s = Inr (True, both', s') \<Longrightarrow> tx_goes_on s' \<Longrightarrow>
    transmit_step crc (both, s) (both', s')"
| tx_expired: "transmit_expired both s = Inr (True, both', s') \<Longrightarrow> tx_goes_on s' \<Longrightarrow>
    transmit_step crc (both, s) (both', s')"

inductive_simps transmit_step_simps: "transmit_step crc x y"

text \<open>Steps are rounds of the loop: any run of the machine is a prefix of a script of \<open>poll\<close> results.\<close>

lemma transmit_step_loop:
  assumes "transmit_step crc x y"
  shows "\<exists>ev. \<forall>polls. transmit_loop crc (fst x) (ev # polls) (snd x) = transmit_loop crc (fst y) polls (snd y)"
  using assms
proof (cases rule: transmit_step.cases)
  case (tx_ready both file_ev sock_ev s both' s')
  then show ?thesis
    by (intro exI [of _ "Poll_events file_ev sock_ev"]) (simp add: tx_goes_on_def)
next
  case (tx_expired both s both' s')
  then show ?thesis
    by (intro exI [of _ Poll_expired]) (simp add: tx_goes_on_def)
qed

lemma transmit_run_loop:
  assumes "(transmit_step crc)\<^sup>*\<^sup>* x y"
  shows "\<exists>pre. \<forall>polls. transmit_loop crc (fst x) (pre @ polls) (snd x) = transmit_loop crc (fst y) polls (snd y)"
  using assms
proof (induction rule: converse_rtranclp_induct)
  case base
  show ?case
    by (rule exI [of _ "[]"]) simp
next
  case (step x z)
  obtain ev pre where ev: "\<forall>polls. transmit_loop crc (fst x) (ev # polls) (snd x) = transmit_loop crc (fst z) polls (snd z)"
    "\<forall>polls. transmit_loop crc (fst z) (pre @ polls) (snd z) = transmit_loop crc (fst y) polls (snd y)"
    using transmit_step_loop [OF step(1)] step(3) by blast
  then show ?case
    by (intro exI [of _ "ev # pre"]) simp
qed

section \<open>Every reachable state\<close>

definition tx_start :: "(bool \<times> sender) \<Rightarrow> bool" where
  "tx_start x \<longleftrightarrow> (\<exists>c buf input e. pktbuf_new True c = Inr (Some buf) \<and> unat c \<le> 128 \<and> e_wr e = [] \<and>
     x = (True, sender_init buf input e))"

definition tx_good :: "crc_fun \<Rightarrow> (bool \<times> sender) \<Rightarrow> bool" where
  "tx_good crc x \<longleftrightarrow> (\<exists>(e :: env) input A0 n0 k0 A R. progress crc e input A0 n0 k0 A R (snd x) \<and> may_read (fst x) (snd x))"

lemma transmit_step_good:
  assumes "transmit_step crc x y" and "tx_good crc x"
  shows "tx_good crc y"
proof -
  obtain e :: env and input A0 n0 k0 A R where g: "progress crc e input A0 n0 k0 A R (snd x)" "may_read (fst x) (snd x)"
    using assms(2) by (auto simp: tx_good_def)
  have "\<exists>B S. progress crc e input A0 n0 k0 B S (snd y) \<and> may_read (fst y) (snd y)"
    using assms(1)
  proof (cases rule: transmit_step.cases)
    case (tx_ready both file_ev sock_ev s both' s')
    then show ?thesis
      using ready_round [OF g, of file_ev sock_ev] by (auto simp: round_ok_def)
  next
    case (tx_expired both s both' s')
    then show ?thesis
      using expired_round [OF g] by (auto simp: round_ok_def)
  qed
  then show ?thesis
    unfolding tx_good_def by blast
qed

interpretation sender_rounds: rounds tx_start "transmit_step crc" "tx_good crc" for crc :: crc_fun
proof unfold_locales
  show "tx_good crc x" if "tx_start x" for x
    using that sender_init_progress unfolding tx_start_def tx_good_def by fastforce
  show "tx_good crc y" if "tx_good crc x" "transmit_step crc x y" for x y
    using transmit_step_good that by blast
qed

text \<open>
  C29. In every state the main loop of the sender can reach, on a buffer of at most 128 slots and a
  socket that takes what it is given: at most 31 packets are in flight, all of them in the buffer, the
  buffer is not over-full, and the input is polled only while there is room for a chunk.
\<close>

theorem flight_bounded:
  assumes "pktbuf_new True c = Inr (Some buf)" and "unat c \<le> 128" and "e_wr e = []"
    and "(transmit_step crc)\<^sup>*\<^sup>* (True, sender_init buf input e) (both, s)"
  shows "outstanding s \<le> 31 \<and> outstanding s \<le> used (tx_buf s) \<and> used (tx_buf s) \<le> cap (tx_buf s) \<and>
    (both \<longrightarrow> used (tx_buf s) < cap (tx_buf s))"
proof -
  have "tx_start (True, sender_init buf input e)"
    using assms(1-3) by (auto simp: tx_start_def)
  from sender_rounds.reachable_inv [OF this assms(4)]
  obtain e' :: env and input' A0 n0 k0 A R where p: "progress crc e' input' A0 n0 k0 A R s" "may_read both s"
    by (auto simp: tx_good_def)
  then show ?thesis
    using progressD(6) [OF p(1)] sender_invD(8,11) [OF progressD(1) [OF p(1)]]
    by (simp add: window_ok_def may_read_def)
qed

theorem flight_bounded_witness:
  "\<exists>buf both s. pktbuf_new True 4 = Inr (Some buf) \<and>
    (transmit_step demo_crc)\<^sup>*\<^sup>* (True, sender_init buf [In_data [1, 2]] demo_env) (both, s) \<and>
    used (tx_buf s) = 1 \<and> outstanding s \<le> 31 \<and> used (tx_buf s) \<le> cap (tx_buf s)"
proof -
  obtain buf where buf: "pktbuf_new True 4 = Inr (Some buf)"
    using demo_new by blast
  let ?s = "sender_init buf [In_data [1, 2]] demo_env"
  have c: "unat (4 :: u32) \<le> 128" "e_wr demo_env = []"
    by (simp_all add: demo_env_def)
  have s: "at_rest demo_crc [] ?s" "tx_input ?s = In_data [1, 2] # []"
    using sender_init_inv(1) [OF buf c(1), of demo_crc "[In_data [1, 2]]" demo_env] c(2)
    by (simp_all add: at_rest_def) (simp_all add: sender_init_def)
  obtain both s2 where s2: "transmit_step demo_crc (True, ?s) (both, s2)" "used (tx_buf s2) = 1"
  proof -
    obtain s2 both where r: "transmit_ready demo_crc (True \<and> True) False ?s = Inr (True, both, s2)"
      "\<not> pktbuf_empty (tx_buf s2)" "sender_inv demo_crc 0 [[1, 2]] s2"
      using read_round [OF s] by auto
    have "transmit_step demo_crc (True, ?s) (both, s2)"
      using tx_ready [OF r(1)] r(2) by (simp add: tx_goes_on_def)
    then show ?thesis
      using that sender_invD(4) [OF r(3)] by simp
  qed
  then have r: "(transmit_step demo_crc)\<^sup>*\<^sup>* (True, ?s) (both, s2)"
    by blast
  show ?thesis
    using flight_bounded [OF buf c r] buf r s2(2) by blast
qed

end
