(* ===== verification/Phases.thy ===== *)
theory Phases
  imports Receiver_Rounds Sender_Rounds
begin

text \<open>
  \<open>transmit\<close> and \<open>receive\<close> cut into the steps between two system calls that wait: where each
  program stands, and what it does until it waits again. Running the steps one after the other
  is the function; so other programs can run in between.
\<close>

section \<open>The sender\<close>

text \<open>The sender is in its loop, with or without polling the input, or has returned.\<close>

datatype tx_phase = Tx_loop bool | Tx_end int

definition transmit_round :: "crc_fun \<Rightarrow> poll_event \<Rightarrow> bool \<Rightarrow> sender \<Rightarrow> (tx_phase \<times> sender) res" where
  "transmit_round crc ev both s =
    rbind (case ev of
        Poll_failed \<Rightarrow> Inr (False, both, s)
      | Poll_events file_ev sock_ev \<Rightarrow> transmit_ready crc (both \<and> file_ev) sock_ev s
      | Poll_expired \<Rightarrow> transmit_expired both s) (\<lambda>(go_on, both, s).
    Inr (if \<not> go_on then Tx_end (-103) else if tx_goes_on s then Tx_loop both else Tx_end 0, s))"

fun tx_run :: "crc_fun \<Rightarrow> poll_event list \<Rightarrow> tx_phase \<Rightarrow> sender \<Rightarrow> (int \<times> sender) res" where
  "tx_run crc polls (Tx_end ret) s = Inr (ret, s)"
| "tx_run crc [] (Tx_loop both) s = Inl Blocked"
| "tx_run crc (ev # polls) (Tx_loop both) s =
    rbind (transmit_round crc ev both s) (\<lambda>(ph, s). tx_run crc polls ph s)"

lemma transmit_loop_run: "transmit_loop crc both polls s = tx_run crc polls (Tx_loop both) s"
proof (induction polls arbitrary: both s)
  case (Cons ev polls)
  show ?case
    by (simp add: transmit_round_def tx_goes_on_def rbind_def Cons.IH split: sum.split prod.split poll_event.split)
qed simp

section \<open>The receiver\<close>

text \<open>
  The receiver waits for its first packet, is in its loop, repeats the last acknowledgement, or
  has returned.
\<close>

datatype rx_phase = Rx_open | Rx_loop bool | Rx_linger nat | Rx_end int

definition receive_open :: "crc_fun \<Rightarrow> bool \<times> bool \<times> u32 \<Rightarrow> receiver \<Rightarrow> (rx_phase \<times> receiver) res" where
  "receive_open crc unblock s =
    (let (get_ok, set_ok, flags_addr) = unblock;
         (err, s) = unblock_out_file get_ok set_ok flags_addr s in
     if err \<noteq> 0 then Inr (Rx_end (- ECONNABORTED), s) else
     let (i, buf) = pktbuf_enqueue (r_buf s);
         s = s\<lparr>r_buf := buf\<rparr> in
     rbind (net_wait_and_connect crc (buf_slot s i) INITIAL_SEQNUM s) (\<lambda>(err, pkt, s).
     let s = put_slot s i pkt in
     if err \<noteq> NET_OK then Inr (Rx_end (- ECONNABORTED), s) else
     rbind (process_incoming_pkt i s) (\<lambda>(_, s). Inr (Rx_loop True, s\<lparr>r_need_ack := True\<rparr>))))"

definition receive_round :: "crc_fun \<Rightarrow> poll_result \<Rightarrow> bool \<Rightarrow> receiver \<Rightarrow> (rx_phase \<times> receiver) res" where
  "receive_round crc ev both s =
    (case ev of
       Poll_error \<Rightarrow> Inr (Rx_end (- ECONNABORTED), s)
     | Poll_timeout \<Rightarrow> Inr (Rx_end (- ECONNABORTED), s)
     | Poll_ready file_ev sock_ev \<Rightarrow>
         rbind (receive_ready crc (both \<and> file_ev) sock_ev s) (\<lambda>(go_on, both, s).
         if \<not> go_on then Inr (Rx_end (- ECONNABORTED), s)
         else
           let s = s\<lparr>r_need_ack := False, r_need_nack := False\<rparr> in
           Inr (if r_last_written_len s \<noteq> 0 \<or> \<not> pktbuf_empty (r_buf s) then Rx_loop both else Rx_linger 0, s)))"

definition linger_round :: "crc_fun \<Rightarrow> poll_result \<Rightarrow> nat \<Rightarrow> receiver \<Rightarrow> (rx_phase \<times> receiver) res" where
  "linger_round crc ev retry s =
    (if ev = Poll_timeout \<or> \<not> retry < MAX_LINGER_RETRY then Inr (Rx_end 0, s)
     else if ev = Poll_error then Inr (Rx_end (- ECONNABORTED), s)
     else rbind (send_ack crc s) (\<lambda>(err, s).
            if err \<noteq> NET_OK then Inr (Rx_end (- ECONNABORTED), s) else Inr (Rx_linger (retry + 1), s)))"

definition receive_next ::
  "crc_fun \<Rightarrow> bool \<times> bool \<times> u32 \<Rightarrow> poll_result \<Rightarrow> rx_phase \<Rightarrow> receiver \<Rightarrow> (rx_phase \<times> receiver) res" where
  "receive_next crc unblock ev ph s =
    (case ph of
       Rx_open \<Rightarrow> receive_open crc unblock s
     | Rx_loop both \<Rightarrow> receive_round crc ev both s
     | Rx_linger retry \<Rightarrow> linger_round crc ev retry s
     | Rx_end ret \<Rightarrow> Inl Blocked)"

fun rx_run :: "crc_fun \<Rightarrow> poll_result list \<Rightarrow> rx_phase \<Rightarrow> receiver \<Rightarrow> (int \<times> receiver) res" where
  "rx_run crc polls (Rx_end ret) s = Inr (ret, s)"
| "rx_run crc (ev # polls) (Rx_loop both) s =
    rbind (receive_round crc ev both s) (\<lambda>(ph, s). rx_run crc polls ph s)"
| "rx_run crc (ev # polls) (Rx_linger retry) s =
    rbind (linger_round crc ev retry s) (\<lambda>(ph, s). rx_run crc polls ph s)"
| "rx_run crc polls ph s = Inl Blocked"

lemma linger_loop_run: "linger_loop crc retry polls s = rx_run crc polls (Rx_linger retry) s"
proof (induction polls arbitrary: retry s)
  case (Cons ev polls)
  show ?case
    by (auto simp: linger_round_def rbind_def Cons.IH split: sum.split prod.split)
qed simp

lemma receive_loop_run:
  "rbind (receive_loop crc both polls s) (\<lambda>(ok, polls, s).
      if \<not> ok then Inr (- ECONNABORTED, s) else linger_loop crc 0 polls s) =
    rx_run crc polls (Rx_loop both) s"
proof (induction polls arbitrary: both s)
  case (Cons ev polls)
  show ?case
  proof (cases ev)
    case (Poll_ready file_ev sock_ev)
    then show ?thesis
      by (cases "receive_ready crc (both \<and> file_ev) sock_ev s")
        (auto simp: receive_round_def Let_def linger_loop_run Cons.IH [symmetric] split: prod.split)
  qed (simp_all add: receive_round_def)
qed simp

text \<open>
  \<open>transmit\<close> is its rounds one after the other, and \<open>receive\<close> is its opening, the rounds of its
  main loop and those of its last loop.
\<close>

theorem programs_run_phases:
  "transmit crc polls buf input e = tx_run crc polls (Tx_loop True) (sender_init buf input e) \<and>
    receive crc unblock rpolls r = rbind (receive_open crc unblock r) (\<lambda>(ph, r). rx_run crc rpolls ph r)"
proof
  show "transmit crc polls buf input e = tx_run crc polls (Tx_loop True) (sender_init buf input e)"
    by (simp add: transmit_def transmit_loop_run)
  show "receive crc unblock rpolls r = rbind (receive_open crc unblock r) (\<lambda>(ph, r). rx_run crc rpolls ph r)"
    by (simp add: receive_def receive_open_def Let_def receive_loop_run [symmetric] rbind_def
        split: prod.split sum.split)
qed

end
