(* ===== verification/File_Transfer.thy ===== *)
theory File_Transfer
  imports Receiver_File Sender_Props
begin

text \<open>
  The segments of a file, and one run of each program put together: what the receiver writes of
  what the sender has sent. (\<open>System_Props\<close> has the theorems on all interleaved runs.)
\<close>

unbundle bit_operations_syntax

section \<open>What the sender sends of a file\<close>

lemma chunks_read_file:
  assumes "chunks_read (map In_data (fs @ [[]])) R" and "list_all (\<lambda>b. length b \<le> 512) fs"
  shows "\<exists>k \<le> Suc (length fs). R = take k (fs @ [[]])"
proof -
  obtain evs rest where e: "map In_data (fs @ [[]]) = map In_data evs @ rest" "R = map (take 512) evs"
    using assms(1) by (auto simp: chunks_read_def)
  have k: "length evs \<le> Suc (length fs)"
    using arg_cong [OF e(1), of length] by simp
  have "take (length evs) (map In_data (fs @ [[]])) = map In_data evs"
    by (subst e(1)) simp
  then have "map In_data (take (length evs) (fs @ [[]])) = map In_data evs"
    by (simp only: take_map)
  then have evs: "evs = take (length evs) (fs @ [[]])"
    by (metis in_event.inject list.inj_map_strong)
  have "\<forall>b \<in> set evs. length b \<le> 512"
  proof
    fix b
    assume "b \<in> set evs"
    then have "b \<in> set (fs @ [[]])"
      using evs set_take_subset [of "length evs" "fs @ [[]]"] by auto
    then show "length b \<le> 512"
      using assms(2) by (auto simp: list_all_iff)
  qed
  then have "R = evs"
    using e(2) by (simp add: map_idI)
  then show ?thesis
    using evs k by (intro exI [of _ "length evs"]) simp
qed

text \<open>The segments of a file: the one with number \<open>i\<close> carries chunk \<open>i\<close>.\<close>

definition file_segment :: "byte list list \<Rightarrow> nat \<Rightarrow> segment" where
  "file_segment fs i = chunk_segment i (chunk fs i)"

definition file_wires :: "crc_fun \<Rightarrow> byte list list \<Rightarrow> byte list set" where
  "file_wires crc fs = (\<lambda>i. wire_of crc (file_segment fs i)) ` {..length fs}"

lemma chunk_wires_file:
  assumes "k \<le> Suc (length fs)"
  shows "chunk_wires crc 0 (take k (fs @ [[]])) \<subseteq> file_wires crc fs"
proof
  fix w
  assume "w \<in> chunk_wires crc 0 (take k (fs @ [[]]))"
  then obtain i where i: "i < k" "w = wire_of crc (chunk_segment i (take k (fs @ [[]]) ! i))"
    by (auto simp: chunk_wires_def simp del: take_append)
  then have "w = wire_of crc (file_segment fs i)" "i \<le> length fs"
    using assms by (simp_all add: file_segment_def chunk_def del: take_append)
  then show "w \<in> file_wires crc fs"
    by (auto simp: file_wires_def)
qed

lemma file_segment_valid:
  assumes "i \<le> length fs" and "list_all (\<lambda>b. length b \<le> 512) fs"
  shows "valid_segment (file_segment fs i)"
proof -
  have "length (chunk fs i) \<le> 512"
    using assms by (cases "i = length fs") (simp_all add: chunk_def nth_append list_all_length)
  then show ?thesis
    by (simp add: valid_segment_def file_segment_def chunk_segment_def unat_of_nat)
qed

section \<open>What the receiver accepts of it\<close>

text \<open>
  With at most 223 chunks, a sequence number inside the window belongs to one chunk only.
\<close>

lemma chunk_in_window:
  assumes "unat (of_nat i - of_nat n :: u8) \<le> 31" and "i \<le> 223" and "n \<le> 224"
  shows "i = n + unat (of_nat i - of_nat n :: u8)"
proof -
  define d where "d = unat (of_nat i - of_nat n :: u8)"
  have "of_nat (n + d) = (of_nat i :: u8)"
    by (simp add: d_def)
  then have "unat (of_nat (n + d) :: u8) = unat (of_nat i :: u8)"
    by (rule arg_cong)
  then have "n + d = i"
    using assms(2,3) assms(1) [folded d_def] by (simp only: unat_of_nat) simp
  then show ?thesis
    by (simp add: d_def)
qed

lemma file_genuine:
  assumes "length fs \<le> 223" and "list_all (\<lambda>b. length b \<le> 512) fs"
    and "list_all (\<lambda>cs. \<forall>seg. cs = Some seg \<longrightarrow> s_tr seg = 0 \<longrightarrow> (\<exists>i \<le> length fs. seg = file_segment fs i)) css"
    and "delivering fs n a" and "a_next a = of_nat n"
  shows "genuine fs n a css"
  using assms(3-5)
proof (induction css arbitrary: n a)
  case (Cons cs css)
  have here: "case cs of
       Some seg \<Rightarrow> a_accepts a seg \<and> s_tr seg = 0 \<longrightarrow>
         n + unat (s_seq seg - a_next a) \<le> length fs \<and>
         s_data seg = chunk fs (n + unat (s_seq seg - a_next a))
     | None \<Rightarrow> True"
  proof (cases cs)
    case (Some seg)
    have "n + unat (s_seq seg - a_next a) \<le> length fs \<and> s_data seg = chunk fs (n + unat (s_seq seg - a_next a))"
      if "a_accepts a seg" "s_tr seg = 0"
    proof -
      obtain i where i: "i \<le> length fs" "seg = file_segment fs i"
        using Cons.prems(1) Some \<open>s_tr seg = 0\<close> by auto
      then have sq: "s_seq seg - a_next a = of_nat i - of_nat n" "s_data seg = chunk fs i"
        using Cons.prems(3) by (simp_all add: file_segment_def chunk_segment_def)
      have w: "n \<le> 224" "unat (ucast (a_window a) :: u8) \<le> 31"
        using Cons.prems(2) assms(1) by (simp_all add: delivering_below_def word_le_nat_alt unat_ucast_down_u8)
      have "unat (of_nat i - of_nat n :: u8) \<le> 31"
        using that(1) w(2) sq(1) by (simp add: a_accepts_def word_le_nat_alt)
      then have "i = n + unat (of_nat i - of_nat n :: u8)"
        using i(1) assms(1) w(1) by (intro chunk_in_window) simp_all
      then show ?thesis
        using i(1) sq by simp
    qed
    then show ?thesis
      using Some by simp
  qed simp
  have "genuine fs (n + unat (a_next (a_event cs a) - a_next a)) (a_event cs a) css"
    using Cons.prems event_step [OF Cons.prems(2), of cs, unfolded less_Suc_eq_le, OF here]
    by (intro Cons.IH) simp_all
  then show ?case
    using here by simp
qed simp

section \<open>The whole transfer\<close>

text \<open>The network brings no whole segment that was not sent.\<close>

definition nothing_forged :: "crc_fun \<Rightarrow> byte list list \<Rightarrow> rx_event list \<Rightarrow> bool" where
  "nothing_forged crc sent rx \<longleftrightarrow>
     (\<forall>src d seg. Rx src d \<in> set rx \<longrightarrow> datagram_of crc seg (take 528 d) \<longrightarrow> s_tr seg = 0 \<longrightarrow>
        wire_of crc seg \<in> set sent)"

lemma sent_segment:
  assumes "nothing_forged crc sent rx" and "set sent \<subseteq> file_wires crc fs" and "Rx src d \<in> set rx"
    and "datagram_of crc seg (take 528 d)" and "s_tr seg = 0" and "list_all (\<lambda>b. length b \<le> 512) fs"
  shows "\<exists>i \<le> length fs. seg = file_segment fs i"
proof -
  have "wire_of crc seg \<in> file_wires crc fs"
    using assms(1-5) unfolding nothing_forged_def by blast
  then obtain i where i: "i \<le> length fs" "wire_of crc seg = wire_of crc (file_segment fs i)"
    by (auto simp: file_wires_def)
  have "valid_segment seg"
    using assms(4) by (simp add: datagram_of_def)
  then show ?thesis
    using i wire_of_inject [OF i(2)] file_segment_valid [OF i(1) assms(6)] by blast
qed

lemma carried_segments:
  assumes "nothing_forged crc sent rx" and "set sent \<subseteq> file_wires crc fs" and "set evs \<subseteq> set rx"
    and "list_all (\<lambda>b. length b \<le> 512) fs" and "carried crc evs css"
  shows "list_all (\<lambda>cs. \<forall>seg. cs = Some seg \<longrightarrow> s_tr seg = 0 \<longrightarrow> (\<exists>i \<le> length fs. seg = file_segment fs i)) css"
  unfolding list_all_length
proof (intro allI impI)
  fix n seg
  assume n: "n < length css" "css ! n = Some seg" "s_tr seg = 0"
  then obtain src d where d: "n < length evs" "evs ! n = Rx src d" "carries crc d (css ! n)"
    using assms(5) by (auto simp: carried_def list_all2_conv_all_nth)
  have "Rx src d \<in> set rx"
    using d(1,2) assms(3) nth_mem [of n evs] by auto
  moreover have "datagram_of crc seg (take 528 d)"
    using d(3) n(2) by (simp add: carries_def)
  ultimately show "\<exists>i \<le> length fs. seg = file_segment fs i"
    using sent_segment [OF assms(1,2)] n(3) assms(4) by blast
qed

text \<open>
  A file of at most 223 chunks goes from a run of \<open>transmit\<close> that has returned to \<open>receive\<close>, each
  on its own new buffer. The network may lose, duplicate, delay, reorder, truncate and corrupt
  datagrams; it is asked that a whole segment that passes the checksums is one the sender sent,
  that the first datagram is the whole chunk 0, and that the first \<open>poll\<close> of the receiver
  reports no second one. Then what the receiver has written is the first chunks of the file in
  order, and the whole file when it returns 0.
\<close>

theorem file_transfer:
  assumes "pktbuf_new True c = Inr (Some sbuf)" and "unat c \<le> 128" and "e_wr es = []" and "e_tx es = []"
    and "transmit crc spolls sbuf (map In_data (fs @ [[]])) es = Inr (sret, s')"
    and "length fs \<le> 223" and "list_all (\<lambda>b. b \<noteq> [] \<and> length b \<le> 512) fs"
    and "nothing_forged crc (e_tx s') (e_rx er)"
    and "pktbuf_new True 32 = Inr (Some rbuf)" and "0 < win" and "win \<le> 31"
    and "e_wr er = []" and "e_connect er = 0" and "e_rx er = Rx src d # evs"
    and "datagram_of crc seg (take 528 d)" and "s_tr seg = 0" and "s_seq seg = 0"
  shows "case receive crc (True, True, addr) (Poll_ready file_ev False # rpolls) (receiver_init win rbuf er) of
      Inl f \<Rightarrow> f = Blocked
    | Inr (rret, r') \<Rightarrow> (\<exists>m. r_out r' = concat (take m fs)) \<and> (rret = 0 \<longrightarrow> r_out r' = concat fs)"
proof -
  have len: "list_all (\<lambda>b. length b \<le> 512) fs"
    using assms(7) by (auto simp: list_all_iff)
  have "finished crc es (map In_data (fs @ [[]])) (Inr (sret, s'))"
    using loop_progress [OF sender_init_progress [OF assms(1-3)]] assms(5) unfolding transmit_def by metis
  then obtain R where R: "chunks_read (map In_data (fs @ [[]])) R" "sent_only crc 0 R (e_tx es) s'"
    by (auto simp: finished_def dest: progress_chunks)
  have sent: "set (e_tx s') \<subseteq> file_wires crc fs"
    using chunks_read_file [OF R(1) len] chunk_wires_file R(2) assms(4) by (fastforce simp: sent_only_def)
  have "\<exists>i \<le> length fs. seg = file_segment fs i"
    using assms(14) by (intro sent_segment [OF assms(8) sent _ assms(15,16) len, of src]) simp
  then have ty: "s_type seg = 1"
    by (auto simp: file_segment_def chunk_segment_def)
  have "genuine fs 0 (a_init win) (Some seg # css)" if "carried crc (take (length css) evs) css" for css
  proof -
    have "list_all (\<lambda>cs. \<forall>seg. cs = Some seg \<longrightarrow> s_tr seg = 0 \<longrightarrow> (\<exists>i \<le> length fs. seg = file_segment fs i)) css"
      using assms(14) set_take_subset [of "length css" evs]
      by (intro carried_segments [OF assms(8) sent _ len that]) auto
    then have "list_all (\<lambda>cs. \<forall>seg. cs = Some seg \<longrightarrow> s_tr seg = 0 \<longrightarrow> (\<exists>i \<le> length fs. seg = file_segment fs i))
        (Some seg # css)"
      using \<open>\<exists>i \<le> length fs. seg = file_segment fs i\<close> by simp
    then show ?thesis
      by (rule file_genuine [OF assms(6) len _ delivering_init [OF assms(11)]]) (simp add: a_init_def)
  qed
  moreover have "[] \<notin> set fs"
    using assms(7) by (auto simp: list_all_iff)
  ultimately show ?thesis
    by (intro receive_delivers [OF assms(9-15) ty assms(16,17)]) (auto simp: genuine_after_def)
qed

text \<open>A file of one chunk, sent and acknowledged, and delivered as it was sent.\<close>

definition demo_ack_segment :: "u8 \<Rightarrow> segment" where
  "demo_ack_segment n = \<lparr>s_type = 2, s_tr = 0, s_window = 31, s_seq = n, s_length = 0, s_ts = 0, s_data = []\<rparr>"

definition demo_sender_env :: env where
  "demo_sender_env = demo_env\<lparr>e_rx := map (\<lambda>n. Rx [] (wire_of demo_crc (demo_ack_segment n))) [1, 2]\<rparr>"

lemma demo_acks: "acks_chunk 0 (demo_ack_segment 1)" "acks_chunk (Suc 0) (demo_ack_segment 2)"
  by (simp_all add: acks_chunk_def demo_ack_segment_def valid_segment_def)

lemma demo_chunk_segment:
  "demo_segment 0 [1, 2] = chunk_segment 0 [1, 2]" "demo_segment 1 [] = chunk_segment 1 []"
  by (simp_all add: demo_segment_def chunk_segment_def PKT_TIMESTAMP_def)

lemma demo_not_forged:
  "nothing_forged demo_crc [wire_of demo_crc (chunk_segment 0 [1, 2]), wire_of demo_crc (chunk_segment 1 [])]
    (e_rx demo_file_env)"
  unfolding nothing_forged_def
proof (intro allI impI)
  fix src d seg
  assume rx: "Rx src d \<in> set (e_rx demo_file_env)" and seg: "datagram_of demo_crc seg (take 528 d)"
  have "d = wire_of demo_crc (demo_segment 0 [1, 2]) \<or> d = wire_of demo_crc (demo_segment 1 [])"
    using rx by (auto simp: demo_file_env_def)
  then have "seg = demo_segment 0 [1, 2] \<or> seg = demo_segment 1 []"
    using datagram_of_unique [OF seg] demo_segment_datagram [of "[1, 2]" demo_crc 0]
      demo_segment_datagram [of "[]" demo_crc 1] by auto
  then show "wire_of demo_crc seg \<in> set [wire_of demo_crc (chunk_segment 0 [1, 2]), wire_of demo_crc (chunk_segment 1 [])]"
    unfolding demo_chunk_segment by auto
qed

theorem file_transfer_witness:
  "\<exists>sbuf rbuf s'. pktbuf_new True 4 = Inr (Some sbuf) \<and> pktbuf_new True 32 = Inr (Some rbuf) \<and>
    transmit demo_crc (concat (replicate 2 [Poll_events True False, Poll_events False True])) sbuf
      (map In_data ([[1, 2]] @ [[]])) demo_sender_env = Inr (0, s') \<and>
    (case receive demo_crc (True, True, 0) (Poll_ready True False # [Poll_ready False True, Poll_timeout])
        (receiver_init 31 rbuf demo_file_env) of
      Inl f \<Rightarrow> f = Blocked
    | Inr (rret, r') \<Rightarrow> (\<exists>m. r_out r' = concat (take m [[1, 2]])) \<and> (rret = 0 \<longrightarrow> r_out r' = concat [[1, 2]]))"
proof -
  obtain sbuf rbuf where buf: "pktbuf_new True 4 = Inr (Some sbuf)" "pktbuf_new True 32 = Inr (Some rbuf)"
    using new_buffers by blast
  have env: "unat (4 :: u32) \<le> 128" "e_wr demo_sender_env = []" "e_tx demo_sender_env = []"
    by (simp_all add: demo_sender_env_def demo_env_def)
  have "list_all2 (\<lambda>i ev. \<exists>src seg. ev = Rx src (wire_of demo_crc seg) \<and> acks_chunk i seg)
      [0..<Suc (length [[1 :: byte, 2]])] (e_rx demo_sender_env)"
    using demo_acks by (auto simp: demo_sender_env_def)
  then obtain s' where s': "transmit demo_crc (concat (replicate 2 [Poll_events True False, Poll_events False True])) sbuf
      (map In_data ([[1, 2]] @ [[]])) demo_sender_env = Inr (0, s')"
    "e_tx s' = [wire_of demo_crc (chunk_segment 0 [1, 2]), wire_of demo_crc (chunk_segment 1 [])]"
    using transmit_in_step [OF buf(1) env(1,2), of "[[1, 2]]" demo_crc] env(3) by (auto simp: numeral_2_eq_2)
  have "case receive demo_crc (True, True, 0) (Poll_ready True False # [Poll_ready False True, Poll_timeout])
        (receiver_init 31 rbuf demo_file_env) of
      Inl f \<Rightarrow> f = Blocked
    | Inr (rret, r') \<Rightarrow> (\<exists>m. r_out r' = concat (take m [[1, 2]])) \<and> (rret = 0 \<longrightarrow> r_out r' = concat [[1, 2]])"
  proof (rule file_transfer [OF buf(1) env s'(1) _ _ _ buf(2)])
    show "nothing_forged demo_crc (e_tx s') (e_rx demo_file_env)"
      unfolding s'(2) by (rule demo_not_forged)
    show "e_rx demo_file_env = Rx [] (wire_of demo_crc (demo_segment 0 [1, 2])) #
        [Rx [] (wire_of demo_crc (demo_segment 1 []))]"
      by (simp add: demo_file_env_def)
    show "datagram_of demo_crc (demo_segment 0 [1, 2]) (take 528 (wire_of demo_crc (demo_segment 0 [1, 2])))"
      by (rule demo_segment_datagram) simp
  qed (simp_all add: demo_file_env_def demo_env_def demo_segment_def)
  then show ?thesis
    using buf s'(1) by blast
qed

end
