(* ===== verification/Lockstep.thy ===== *)
theory Lockstep
  imports File_Transfer
begin

text \<open>
  The two programs wired to each other: what one writes is what the other reads. Every chunk is
  acknowledged before the next one is read, so the transfer ends, for a file of any length.
\<close>

unbundle bit_operations_syntax

section \<open>What goes back and forth\<close>

definition data_wires :: "crc_fun \<Rightarrow> nat \<Rightarrow> byte list list \<Rightarrow> byte list list" where
  "data_wires crc n bs =
    map (\<lambda>i. wire_of crc (chunk_segment (n + i) ((bs @ [[]]) ! i))) [0..<Suc (length bs)]"

definition ack_for :: "u32 \<Rightarrow> nat \<Rightarrow> segment" where
  "ack_for win n = answer 2 (of_nat (Suc n)) PKT_TIMESTAMP win"

definition ack_wires :: "crc_fun \<Rightarrow> u32 \<Rightarrow> nat \<Rightarrow> nat \<Rightarrow> byte list list" where
  "ack_wires crc win n k = map (\<lambda>i. wire_of crc (ack_for win (n + i))) [0..<k]"

lemma data_wires_Nil: "data_wires crc n [] = [wire_of crc (chunk_segment n [])]"
  by (simp add: data_wires_def)

lemma data_wires_Cons:
  "data_wires crc n (b # bs) = wire_of crc (chunk_segment n b) # data_wires crc (Suc n) bs"
  by (simp add: data_wires_def map_upt_Suc del: upt_Suc)

lemma ack_wires_Suc:
  "ack_wires crc win n (Suc k) = wire_of crc (ack_for win n) # ack_wires crc win (Suc n) k"
  by (simp add: ack_wires_def map_upt_Suc del: upt_Suc)

lemma ack_wires_0 [simp]: "ack_wires crc win n 0 = []"
  by (simp add: ack_wires_def)

lemma chunk_datagram:
  assumes "length b \<le> 512"
  shows "datagram_of crc (chunk_segment n b) (take 528 (wire_of crc (chunk_segment n b)))"
proof -
  have "valid_segment (chunk_segment n b)"
    using assms by (simp add: valid_segment_def chunk_segment_def unat_of_nat)
  moreover have "length (wire_of crc (chunk_segment n b)) \<le> 528"
    using assms by (simp add: length_wire_of chunk_segment_def)
  ultimately show ?thesis
    by (simp add: datagram_of_def)
qed

lemma ack_for_acks:
  assumes "0 < win" and "win \<le> 31"
  shows "acks_chunk n (ack_for win n)"
proof -
  have "0 < unat win" "unat win \<le> 31"
    using assms by (simp_all add: word_le_nat_alt word_less_nat_alt)
  then have "(ucast win :: 5 word) \<noteq> 0"
    by (simp add: word_unat_eq_iff unsigned_ucast_eq take_bit_eq_mod)
  then show ?thesis
    by (simp add: acks_chunk_def ack_for_def answer_def valid_segment_def)
qed

section \<open>The receiver in step\<close>

text \<open>The next chunk arrives, and nothing has arrived ahead of it.\<close>

lemma next_chunk:
  assumes "a_store a = (\<lambda>_. None)" and "0 < a_window a" and "a_next a = of_nat n"
  shows "a_event (Some (chunk_segment n b)) a = a\<lparr>a_ts := PKT_TIMESTAMP, a_next := of_nat (Suc n),
      a_out := a_out a @ b, a_last := int (length b)\<rparr>"
    and "a_answer (Some (chunk_segment n b)) a = ack_for (a_window a) n"
    and "a_in_sequence (Some (chunk_segment n b)) a"
proof -
  let ?seg = "chunk_segment n b"
  have acc: "a_accepts a ?seg" "s_tr ?seg = 0" "s_seq ?seg = a_next a" "s_data ?seg = b"
    "s_ts ?seg = PKT_TIMESTAMP"
    using assms by (simp_all add: a_accepts_def a_full_def chunk_segment_def not_le)
  then show "a_in_sequence (Some ?seg) a"
    by (simp add: a_in_sequence_def)
  let ?a = "a\<lparr>a_ts := PKT_TIMESTAMP, a_store := (\<lambda>_. None)(0 \<mapsto> ?seg)\<rparr>"
  have d: "a_deliver 32 ?a = ?a\<lparr>a_next := a_next ?a + of_nat 1, a_store := \<lambda>j. a_store ?a (j + 1),
      a_out := a_out ?a @ concat (map (\<lambda>j. s_data ?seg) [0..<1]),
      a_last := (case 1 of 0 \<Rightarrow> a_last ?a | Suc i \<Rightarrow> int (length (s_data ?seg)))\<rparr>"
    by (rule a_deliver_run) simp_all
  have "a_event (Some ?seg) a = a_deliver 32 ?a"
    using acc assms(1) by (simp add: a_event_def a_step_def)
  also have "\<dots> = a\<lparr>a_ts := PKT_TIMESTAMP, a_next := of_nat (Suc n), a_store := (\<lambda>_. None),
      a_out := a_out a @ b, a_last := int (length b)\<rparr>"
    unfolding d using acc(4) assms(3) by (simp add: add.commute)
  also have "\<dots> = a\<lparr>a_ts := PKT_TIMESTAMP, a_next := of_nat (Suc n),
      a_out := a_out a @ b, a_last := int (length b)\<rparr>"
    using assms(1) by (cases a) simp
  finally show ev: "a_event (Some ?seg) a = a\<lparr>a_ts := PKT_TIMESTAMP, a_next := of_nat (Suc n),
      a_out := a_out a @ b, a_last := int (length b)\<rparr>" .
  show "a_answer (Some ?seg) a = ack_for (a_window a) n"
    using acc(2) unfolding a_answer_def Let_def ev by (simp add: a_truncated_def ack_for_def)
qed

definition in_step :: "nat \<Rightarrow> receiver \<Rightarrow> bool" where
  "in_step n s \<longleftrightarrow> keeping_up s \<and> used (r_buf s) = 0 \<and> 0 < r_max_window s \<and> r_expected_seq s = of_nat n"

lemma in_step_next:
  assumes "used (r_buf s) = 0" and "keeping_up s"
  shows "marked s = (\<lambda>_. None)"
    and "loop_next crc polls s =
      (if r_last_written_len s = 0 then Inr (True, polls, s) else receive_loop crc False polls s)"
proof -
  have "\<not> bit (r_oos_mask s) j" for j
    using assms syncedD(5) [of s j] by (auto simp: keeping_up_def idle_def)
  then show "marked s = (\<lambda>_. None)"
    by (simp add: marked_def fun_eq_iff)
  show "loop_next crc polls s =
      (if r_last_written_len s = 0 then Inr (True, polls, s) else receive_loop crc False polls s)"
    using assms(1) by (simp add: loop_next_def used_eq_0)
qed

text \<open>What a chunk leaves behind.\<close>

definition took :: "crc_fun \<Rightarrow> nat \<Rightarrow> byte list \<Rightarrow> receiver \<Rightarrow> receiver \<Rightarrow> bool" where
  "took crc n b s s' \<longleftrightarrow> in_step (Suc n) s' \<and> r_max_window s' = r_max_window s \<and>
     r_out s' = r_out s @ b \<and> r_last_written_len s' = int (length b) \<and>
     e_tx s' = e_tx s @ [wire_of crc (ack_for (r_max_window s) n)]"

lemma took_chunk:
  assumes "keeping_up (clear_needs s')" and "used (r_buf s') = 0" and "marked s = (\<lambda>_. None)"
    and "0 < r_max_window s" and "r_expected_seq s = of_nat n"
    and "abs_receiver s' = a_event (Some (chunk_segment n b)) (abs_receiver s)"
    and "e_tx s' = e_tx s @ [wire_of crc (a_answer (Some (chunk_segment n b)) (abs_receiver s))]"
  shows "took crc n b s (clear_needs s')"
proof -
  have a: "a_store (abs_receiver s) = (\<lambda>_. None)" "0 < a_window (abs_receiver s)"
    "a_next (abs_receiver s) = of_nat n"
    using assms(3-5) by simp_all
  note c = next_chunk [OF a]
  have f: "r_max_window s' = r_max_window s" "r_expected_seq s' = of_nat (Suc n)" "r_out s' = r_out s @ b"
    "r_last_written_len s' = int (length b)"
    using arg_cong [OF assms(6), of a_window] arg_cong [OF assms(6), of a_next]
      arg_cong [OF assms(6), of a_out] arg_cong [OF assms(6), of a_last] unfolding c by simp_all
  have "e_tx s' = e_tx s @ [wire_of crc (ack_for (r_max_window s) n)]"
    using assms(7) unfolding c by simp
  then show ?thesis
    using assms(1,2,4) f unfolding took_def in_step_def by (simp add: clear_needs_def)
qed

lemma chunk_ready:
  assumes "in_step n s" and "e_rx s = Rx src (wire_of crc (chunk_segment n b)) # evs" and "length b \<le> 512"
  shows "\<exists>s'. receive_ready crc file_ev True s = Inr (True, False, s') \<and> took crc n b s (clear_needs s') \<and>
    keeping_up (clear_needs s') \<and> e_rx s' = evs"
proof -
  have s: "keeping_up s" "used (r_buf s) = 0" "0 < r_max_window s" "r_expected_seq s = of_nat n"
    using assms(1) by (simp_all add: in_step_def)
  note m = in_step_next(1) [OF s(2,1)]
  have "a_in_sequence (Some (chunk_segment n b)) (abs_receiver s)"
    using m s(3,4) by (intro next_chunk(3)) simp_all
  moreover have "carries crc (wire_of crc (chunk_segment n b)) (Some (chunk_segment n b))"
    using chunk_datagram [OF assms(3)] by (simp add: carries_def)
  ultimately obtain s' where s': "receive_ready crc file_ev True s = Inr (True, False, s')"
    "keeping_up (clear_needs s')" "e_rx s' = evs" "used (r_buf s') = 0"
    "abs_receiver s' = a_event (Some (chunk_segment n b)) (abs_receiver s)"
    "e_tx s' = e_tx s @ [wire_of crc (a_answer (Some (chunk_segment n b)) (abs_receiver s))]"
    using round_step [OF s(1) assms(2), where cs = "Some (chunk_segment n b)" and file_ev = file_ev] s(2) by blast
  have "took crc n b s (clear_needs s')"
    using took_chunk [OF s'(2,4) m s(3,4) s'(5,6)] .
  then show ?thesis
    using s'(1-3) by blast
qed

lemma first_round:
  assumes "connected win s" and "0 < win" and "wf_pkt q" and "whole_pkt q" and "p_seq q = 0"
    and "segment_of q = chunk_segment 0 b"
  shows "\<exists>s1 s2. process_incoming_pkt (slot_index (r_buf s) 0) (put_slot s (slot_index (r_buf s) 0) q) =
      Inr (0, s1) \<and>
    receive_ready crc file_ev False (s1\<lparr>r_need_ack := True\<rparr>) = Inr (True, False, s2) \<and>
    took crc 0 b s (clear_needs s2) \<and> keeping_up (clear_needs s2) \<and> e_rx s2 = e_rx s"
proof -
  note c = connectedD [OF assms(1)]
  have ty: "p_type q = 1"
    using assms(6) by (simp add: segment_of_def chunk_segment_def)
  obtain s1 s2 where s2: "process_incoming_pkt (slot_index (r_buf s) 0) (put_slot s (slot_index (r_buf s) 0) q) =
      Inr (0, s1)"
    "receive_ready crc file_ev False (s1\<lparr>r_need_ack := True\<rparr>) = Inr (True, False, s2)"
    "keeping_up (clear_needs s2)" "e_rx s2 = e_rx s"
    "abs_receiver s2 = a_event (Some (chunk_segment 0 b)) (abs_receiver s)"
    "e_tx s2 = e_tx s @ [wire_of crc (a_answer (Some (chunk_segment 0 b)) (abs_receiver s))]" "used (r_buf s2) = 0"
    using receive_first [OF assms(1-5) ty, of crc file_ev] unfolding assms(6) c(7) by blast
  have f: "0 < r_max_window s" "r_expected_seq s = of_nat 0"
    using c assms(2) by simp_all
  have "took crc 0 b s (clear_needs s2)"
    using took_chunk [OF s2(3,7) c(6) f s2(5,6)] .
  then show ?thesis
    using s2(1-4) by blast
qed

lemma chunk_round:
  assumes "in_step n s" and "e_rx s = Rx src (wire_of crc (chunk_segment n b)) # evs" and "length b \<le> 512"
  shows "\<exists>s'. receive_loop crc both (Poll_ready file_ev True # polls) s =
      (if b = [] then Inr (True, polls, s') else receive_loop crc False polls s') \<and>
    took crc n b s s' \<and> e_rx s' = evs"
proof -
  obtain s' where s': "receive_ready crc (both \<and> file_ev) True s = Inr (True, False, s')"
    "took crc n b s (clear_needs s')" "keeping_up (clear_needs s')" "e_rx s' = evs"
    using chunk_ready [OF assms] by blast
  have "used (r_buf (clear_needs s')) = 0" "r_last_written_len (clear_needs s') = int (length b)"
    using s'(2) by (simp_all add: took_def in_step_def)
  then have "receive_loop crc both (Poll_ready file_ev True # polls) s =
      (if b = [] then Inr (True, polls, clear_needs s') else receive_loop crc False polls (clear_needs s'))"
    using loop_go [OF s'(1), of polls] in_step_next(2) [OF _ s'(3)] by simp
  then show ?thesis
    using s'(2,4) by (intro exI [of _ "clear_needs s'"]) simp
qed

lemma receive_rounds:
  assumes "in_step n s" and "e_rx s = map (Rx src) (data_wires crc n bs)"
    and "list_all (\<lambda>b. b \<noteq> [] \<and> length b \<le> 512) bs"
  shows "\<exists>s'. receive_loop crc both (replicate (Suc (length bs)) (Poll_ready file_ev True) @ polls) s =
      Inr (True, polls, s') \<and>
    r_out s' = r_out s @ concat bs \<and>
    e_tx s' = e_tx s @ ack_wires crc (r_max_window s) n (Suc (length bs))"
  using assms
proof (induction bs arbitrary: n s both)
  case Nil
  then have "e_rx s = [Rx src (wire_of crc (chunk_segment n []))]"
    by (simp add: data_wires_Nil)
  from chunk_round [OF Nil(1) this, of both file_ev polls] show ?case
    by (auto simp: took_def ack_wires_Suc)
next
  case (Cons b bs)
  let ?polls = "replicate (Suc (length bs)) (Poll_ready file_ev True) @ polls"
  have b: "b \<noteq> []" "length b \<le> 512"
    "e_rx s = Rx src (wire_of crc (chunk_segment n b)) # map (Rx src) (data_wires crc (Suc n) bs)"
    using Cons.prems(2,3) by (simp_all add: data_wires_Cons)
  obtain s1 where s1: "receive_loop crc both (Poll_ready file_ev True # ?polls) s = receive_loop crc False ?polls s1"
    "took crc n b s s1" "e_rx s1 = map (Rx src) (data_wires crc (Suc n) bs)"
    using chunk_round [OF Cons.prems(1) b(3,2), of both file_ev ?polls] b(1) by auto
  have "in_step (Suc n) s1"
    using s1(2) by (simp add: took_def)
  from Cons.IH [OF this s1(3), of False] obtain s' where
    s': "receive_loop crc False ?polls s1 = Inr (True, polls, s')"
    "r_out s' = r_out s1 @ concat bs"
    "e_tx s' = e_tx s1 @ ack_wires crc (r_max_window s1) (Suc n) (Suc (length bs))"
    using Cons.prems(3) by auto
  then show ?case
    using s1(1,2) by (intro exI [of _ s']) (simp add: took_def ack_wires_Suc)
qed

text \<open>From the first datagram to the first acknowledgement.\<close>

lemma receive_begins:
  assumes "pktbuf_new True 32 = Inr (Some buf)" and "0 < win" and "win \<le> 31"
    and "e_wr e = []" and "e_connect e = 0" and "length b \<le> 512"
    and "e_rx e = Rx src (wire_of crc (chunk_segment 0 b)) # evs"
  shows "\<exists>s'. receive crc (True, True, addr) (Poll_ready file_ev False # polls) (receiver_init win buf e) =
      rbind (if b = [] then Inr (True, polls, s') else receive_loop crc False polls s') (\<lambda>(ok, polls, s).
      if \<not> ok then Inr (- ECONNABORTED, s) else linger_loop crc 0 polls s) \<and>
    in_step 1 s' \<and> r_max_window s' = win \<and> r_out s' = b \<and> e_rx s' = evs \<and>
    e_tx s' = e_tx e @ [wire_of crc (ack_for win 0)]"
proof -
  let ?seg = "chunk_segment 0 b" and ?polls = "Poll_ready file_ev False # polls"
  have seg: "s_type ?seg = 1" "s_tr ?seg = 0" "s_seq ?seg = 0"
    by (simp_all add: chunk_segment_def)
  obtain s q where s: "receive crc (True, True, addr) ?polls (receiver_init win buf e) =
      rbind (process_incoming_pkt (slot_index (r_buf s) 0) (put_slot s (slot_index (r_buf s) 0) q)) (\<lambda>(_, s).
      rbind (receive_loop crc True ?polls (s\<lparr>r_need_ack := True\<rparr>)) (\<lambda>(ok, polls, s).
      if \<not> ok then Inr (- ECONNABORTED, s) else linger_loop crc 0 polls s))"
    "connected win s" "e_rx s = evs" "e_tx s = e_tx e" "wf_pkt q" "whole_pkt q" "p_seq q = 0" "segment_of q = ?seg"
    using receive_connected [OF assms(1,3-5,7) chunk_datagram [OF assms(6)] seg(2,3), of addr ?polls] by blast
  note c = connectedD [OF s(2)]
  obtain s1 s2 where s2: "process_incoming_pkt (slot_index (r_buf s) 0) (put_slot s (slot_index (r_buf s) 0) q) =
      Inr (0, s1)"
    "receive_ready crc file_ev False (s1\<lparr>r_need_ack := True\<rparr>) = Inr (True, False, s2)"
    "took crc 0 b s (clear_needs s2)" "keeping_up (clear_needs s2)" "e_rx s2 = e_rx s"
    using first_round [OF s(2) assms(2) s(5-8), of crc file_ev] by blast
  note t = s2(3)
  then have u: "used (r_buf (clear_needs s2)) = 0" "r_last_written_len (clear_needs s2) = int (length b)"
    by (simp_all add: took_def in_step_def)
  have loop: "receive_loop crc True ?polls (s1\<lparr>r_need_ack := True\<rparr>) = loop_next crc polls (clear_needs s2)"
    using s2(2) by (intro loop_go) simp
  have "receive crc (True, True, addr) ?polls (receiver_init win buf e) =
      rbind (loop_next crc polls (clear_needs s2)) (\<lambda>(ok, polls, s).
      if \<not> ok then Inr (- ECONNABORTED, s) else linger_loop crc 0 polls s)"
    unfolding s(1) s2(1) by (simp only: rbind_simps prod.case loop)
  then show ?thesis
    using t c(10,11) s(3,4) s2(5) in_step_next(2) [OF u(1) s2(4)] u(2)
    by (intro exI [of _ "clear_needs s2"]) (simp add: took_def)
qed

lemma receive_in_step:
  assumes "pktbuf_new True 32 = Inr (Some buf)" and "0 < win" and "win \<le> 31"
    and "e_wr e = []" and "e_connect e = 0" and "e_rx e = map (Rx src) (data_wires crc 0 fs)"
    and "list_all (\<lambda>b. b \<noteq> [] \<and> length b \<le> 512) fs"
  shows "\<exists>s'. receive crc (True, True, addr)
      (Poll_ready True False # replicate (length fs) (Poll_ready False True) @ [Poll_timeout])
      (receiver_init win buf e) = Inr (0, s') \<and>
    r_out s' = concat fs \<and> e_tx s' = e_tx e @ ack_wires crc win 0 (Suc (length fs))"
proof (cases fs)
  case Nil
  then have "e_rx e = [Rx src (wire_of crc (chunk_segment 0 []))]"
    using assms(6) by (simp add: data_wires_Nil)
  from receive_begins [OF assms(1-5) _ this, of addr True "[Poll_timeout]"] show ?thesis
    using Nil by (auto simp: ack_wires_Suc)
next
  case (Cons b bs)
  let ?polls = "replicate (Suc (length bs)) (Poll_ready False True) @ [Poll_timeout]"
  have b: "b \<noteq> []" "length b \<le> 512" "list_all (\<lambda>b. b \<noteq> [] \<and> length b \<le> 512) bs"
    "e_rx e = Rx src (wire_of crc (chunk_segment 0 b)) # map (Rx src) (data_wires crc 1 bs)"
    using assms(6,7) Cons by (simp_all add: data_wires_Cons)
  obtain s1 where s1: "receive crc (True, True, addr) (Poll_ready True False # ?polls) (receiver_init win buf e) =
      rbind (receive_loop crc False ?polls s1) (\<lambda>(ok, polls, s).
      if \<not> ok then Inr (- ECONNABORTED, s) else linger_loop crc 0 polls s)"
    "in_step 1 s1" "r_max_window s1 = win" "r_out s1 = b" "e_rx s1 = map (Rx src) (data_wires crc 1 bs)"
    "e_tx s1 = e_tx e @ [wire_of crc (ack_for win 0)]"
    using receive_begins [OF assms(1-5) b(2,4), of addr True ?polls] b(1) by auto
  obtain s' where s': "receive_loop crc False ?polls s1 = Inr (True, [Poll_timeout], s')"
    "r_out s' = r_out s1 @ concat bs" "e_tx s' = e_tx s1 @ ack_wires crc win 1 (Suc (length bs))"
    using receive_rounds [OF s1(2,5) b(3), of False False "[Poll_timeout]"] s1(3) by auto
  have "receive crc (True, True, addr) (Poll_ready True False # ?polls) (receiver_init win buf e) = Inr (0, s')"
    unfolding s1(1) s'(1) by simp
  then show ?thesis
    using Cons s'(2,3) s1(4,6) by (intro exI [of _ s']) (simp add: ack_wires_Suc [of crc win 0])
qed

section \<open>Both in step\<close>

text \<open>
  \<open>transmit\<close> and \<open>receive\<close> wired to each other, so that each reads the datagrams the other
  has written: for every file, of any length, both return 0 and what the receiver has written
  is the file.
\<close>

theorem transfer_completes:
  assumes "pktbuf_new True c = Inr (Some sbuf)" and "unat c \<le> 128" and "e_wr es = []" and "e_tx es = []"
    and "pktbuf_new True 32 = Inr (Some rbuf)" and "0 < win" and "win \<le> 31"
    and "e_wr er = []" and "e_tx er = []" and "e_connect er = 0"
    and "list_all (\<lambda>b. b \<noteq> [] \<and> length b \<le> 512) fs"
  shows "\<exists>s' r'.
    transmit crc (concat (replicate (Suc (length fs)) [Poll_events True False, Poll_events False True])) sbuf
      (map In_data (fs @ [[]])) (es\<lparr>e_rx := map (Rx dst) (e_tx r')\<rparr>) = Inr (0, s') \<and>
    receive crc (True, True, addr)
      (Poll_ready True False # replicate (length fs) (Poll_ready False True) @ [Poll_timeout])
      (receiver_init win rbuf (er\<lparr>e_rx := map (Rx src) (e_tx s')\<rparr>)) = Inr (0, r') \<and>
    r_out r' = concat fs"
proof -
  let ?es = "es\<lparr>e_rx := map (Rx dst) (ack_wires crc win 0 (Suc (length fs)))\<rparr>"
  let ?er = "er\<lparr>e_rx := map (Rx src) (data_wires crc 0 fs)\<rparr>"
  have "list_all2 (\<lambda>i ev. \<exists>src seg. ev = Rx src (wire_of crc seg) \<and> acks_chunk i seg)
      [0..<Suc (length fs)] (e_rx ?es)"
    using ack_for_acks [OF assms(6,7)]
    by (auto simp: list_all2_conv_all_nth ack_wires_def simp del: upt_Suc)
  then obtain s' where s': "transmit crc (concat (replicate (Suc (length fs))
      [Poll_events True False, Poll_events False True])) sbuf (map In_data (fs @ [[]])) ?es = Inr (0, s')"
    "e_tx s' = data_wires crc 0 fs"
    using transmit_in_step [OF assms(1,2) _ assms(11), of ?es crc] assms(3,4)
    by (auto simp: data_wires_def simp del: upt_Suc)
  obtain r' where r': "receive crc (True, True, addr)
      (Poll_ready True False # replicate (length fs) (Poll_ready False True) @ [Poll_timeout])
      (receiver_init win rbuf ?er) = Inr (0, r')"
    "r_out r' = concat fs" "e_tx r' = ack_wires crc win 0 (Suc (length fs))"
    using receive_in_step [OF assms(5-7) _ _ _ assms(11), of ?er src crc] assms(8-10) by auto
  show ?thesis
    using s' r' by (intro exI [of _ s'] exI [of _ r']) simp
qed

text \<open>Two chunks and the end.\<close>

theorem transfer_completes_witness:
  "\<exists>sbuf rbuf s' r'. pktbuf_new True 4 = Inr (Some sbuf) \<and> pktbuf_new True 32 = Inr (Some rbuf) \<and>
    transmit demo_crc (concat (replicate (Suc (length demo_chunks)) [Poll_events True False, Poll_events False True]))
      sbuf (map In_data (demo_chunks @ [[]])) (demo_env\<lparr>e_tx := [], e_wr := [], e_rx := map (Rx []) (e_tx r')\<rparr>) =
      Inr (0, s') \<and>
    receive demo_crc (True, True, 0)
      (Poll_ready True False # replicate (length demo_chunks) (Poll_ready False True) @ [Poll_timeout])
      (receiver_init 31 rbuf (demo_env\<lparr>e_tx := [], e_wr := [], e_connect := 0, e_rx := map (Rx []) (e_tx s')\<rparr>)) =
      Inr (0, r') \<and>
    r_out r' = [1, 2, 3]"
proof -
  obtain sbuf rbuf where buf: "pktbuf_new True 4 = Inr (Some sbuf)" "pktbuf_new True 32 = Inr (Some rbuf)"
    using new_buffers by blast
  have out: "concat demo_chunks = [1, 2, 3]"
    by (simp add: demo_chunks_def)
  show ?thesis
    using transfer_completes [OF buf(1) _ _ _ buf(2), of "demo_env\<lparr>e_tx := [], e_wr := []\<rparr>" 31
        "demo_env\<lparr>e_tx := [], e_wr := [], e_connect := 0\<rparr>" demo_chunks demo_crc "[]" 0 "[]"] buf
    unfolding out by (auto simp: demo_chunks_def)
qed

end
