(* ===== verification/System.thy ===== *)
theory System
  imports Phases Lockstep
begin

text \<open>
  Both programs and the network between them, as one state machine. Any of the two may take its
  next step at any time, and each step can receive what the network still holds: datagrams are
  lost, duplicated, delayed, reordered, truncated and corrupted as it likes. It forges nothing,
  and it forgets a datagram once the sender has read \<open>K\<close> more chunks of its input.
\<close>

section \<open>The network\<close>

text \<open>
  The network keeps every datagram written, with the number of chunks the sender had read when
  the step began in which it was written.
\<close>

type_synonym log = "(nat \<times> byte list) list"

definition young :: "nat \<Rightarrow> nat \<Rightarrow> log \<Rightarrow> byte list \<Rightarrow> bool" where
  "young K now log w \<longleftrightarrow> (\<exists>t. (t, w) \<in> set log \<and> now \<le> t + K)"

text \<open>
  What can arrive at the receiver: errors, and datagrams whose segment, if they carry a whole one,
  has been sent lately. Truncated segments and garbage are not restricted.
\<close>

definition data_arrives :: "crc_fun \<Rightarrow> nat \<Rightarrow> nat \<Rightarrow> log \<Rightarrow> rx_event \<Rightarrow> bool" where
  "data_arrives crc K now log ev \<longleftrightarrow>
     (case ev of Rx_error \<Rightarrow> True
      | Rx src d \<Rightarrow> \<forall>seg. datagram_of crc seg (take 528 d) \<and> s_tr seg = 0 \<longrightarrow> young K now log (wire_of crc seg))"

text \<open>What can arrive at the sender: the same for acknowledgements of both kinds.\<close>

definition ack_arrives :: "crc_fun \<Rightarrow> nat \<Rightarrow> nat \<Rightarrow> log \<Rightarrow> rx_event \<Rightarrow> bool" where
  "ack_arrives crc K now log ev \<longleftrightarrow>
     (case ev of Rx_error \<Rightarrow> True
      | Rx src d \<Rightarrow> \<forall>seg. datagram_of crc seg (take 528 d) \<and> s_type seg \<noteq> ucast PTYPE_DATA \<longrightarrow>
          young K now log (wire_of crc seg))"

section \<open>The system\<close>

record system =
  y_tx :: tx_phase
  y_s :: sender
  y_rx :: rx_phase
  y_r :: receiver
  y_data :: log      \<comment> \<open>on the way to the receiver\<close>
  y_acks :: log      \<comment> \<open>on the way to the sender\<close>

text \<open>The number of chunks the sender has read.\<close>

definition chunks_in :: "in_event list \<Rightarrow> sender \<Rightarrow> nat" where
  "chunks_in input s = length input - length (tx_input s)"

definition written :: "'a env_scheme \<Rightarrow> 'b env_scheme \<Rightarrow> byte list list" where
  "written e e' = drop (length (e_tx e)) (e_tx e')"

text \<open>
  A step of the sender is a round of its loop, in which at most one datagram is received. A step
  of the receiver is its opening, with any number of datagrams, or a round of one of its loops.
\<close>

inductive system_step ::
  "crc_fun \<Rightarrow> nat \<Rightarrow> in_event list \<Rightarrow> bool \<times> bool \<times> u32 \<Rightarrow> system \<Rightarrow> system \<Rightarrow> bool"
  for crc K input unblock where
  tx_moves: "y_tx y = Tx_loop both \<Longrightarrow> length evs \<le> 1 \<Longrightarrow>
    list_all (ack_arrives crc K (chunks_in input (y_s y)) (y_acks y)) evs \<Longrightarrow>
    transmit_round crc ev both ((y_s y)\<lparr>e_rx := evs\<rparr>) = Inr (ph, s') \<Longrightarrow>
    system_step crc K input unblock y (y\<lparr>y_tx := ph, y_s := s',
      y_data := y_data y @ map (Pair (chunks_in input (y_s y))) (written (y_s y) s')\<rparr>)"
| rx_moves: "list_all (data_arrives crc K (chunks_in input (y_s y)) (y_data y)) evs \<Longrightarrow>
    receive_next crc unblock ev (y_rx y) ((y_r y)\<lparr>e_rx := evs\<rparr>) = Inr (ph, r') \<Longrightarrow>
    system_step crc K input unblock y (y\<lparr>y_rx := ph, y_r := r',
      y_acks := y_acks y @ map (Pair (chunks_in input (y_s y))) (written (y_r y) r')\<rparr>)"

inductive_cases system_stepE: "system_step crc K input unblock y y'"

text \<open>Each program on its new buffer, and nothing on the way.\<close>

definition file_input :: "byte list list \<Rightarrow> in_event list" where
  "file_input fs = map In_data (fs @ [[]])"

definition system_init :: "pktbuf \<Rightarrow> env \<Rightarrow> byte list list \<Rightarrow> u32 \<Rightarrow> pktbuf \<Rightarrow> env \<Rightarrow> system" where
  "system_init sbuf es fs win rbuf er =
    \<lparr>y_tx = Tx_loop True, y_s = sender_init sbuf (file_input fs) es,
     y_rx = Rx_open, y_r = receiver_init win rbuf er, y_data = [], y_acks = []\<rparr>"

end
