(* ===== verification/System_Sender.thy ===== *)
theory System_Sender
  imports System
begin

text \<open>
  The sender's side of the system: what a step of the sender keeps, and what it adds to the
  network.
\<close>

unbundle bit_operations_syntax

declare nth_items [simp del]

section \<open>Any step\<close>

abbreviation small :: "byte list list \<Rightarrow> bool" where
  "small fs \<equiv> list_all (\<lambda>b. b \<noteq> [] \<and> length b \<le> 512) fs"

text \<open>The chunks read are the first ones of the file.\<close>

lemma read_chunks:
  assumes "read_so_far (file_input fs) R s" and "small fs"
  shows "R = take (length R) (fs @ [[]])" "chunks_in (file_input fs) s = length R" "length R \<le> Suc (length fs)"
proof -
  have len: "list_all (\<lambda>b. length b \<le> 512) fs"
    using assms(2) by (auto simp: list_all_iff)
  obtain k where k: "k \<le> Suc (length fs)" "R = take k (fs @ [[]])"
    using chunks_read_file [OF _ len] read_so_far_chunks [OF assms(1)] unfolding file_input_def by blast
  then have "length R = k"
    by simp
  then show "R = take (length R) (fs @ [[]])" "length R \<le> Suc (length fs)"
    using k by simp_all
  obtain evs where "file_input fs = map In_data evs @ tx_input s" "R = map (take 512) evs"
    using assms(1) by (auto simp: read_so_far_def)
  then have "length (file_input fs) = length R + length (tx_input s)"
    by simp
  then show "chunks_in (file_input fs) s = length R"
    by (simp add: chunks_in_def)
qed

text \<open>A sender with \<open>A\<close> chunks acknowledged and a ring of \<open>c\<close> slots, wherever it started.\<close>

definition sender_at :: "crc_fun \<Rightarrow> byte list list \<Rightarrow> nat \<Rightarrow> nat \<Rightarrow> sender \<Rightarrow> bool" where
  "sender_at crc fs c A s \<longleftrightarrow> (\<exists>(e :: env) A0 n0 R. progress crc e (file_input fs) A0 n0 c A R s)"

lemma rebase:
  assumes "progress crc (e :: env) input A0 n0 k0 A R s"
  shows "\<exists>e' :: env. e_tx e' = e_tx s \<and> e_rx e' = evs \<and> progress crc e' input A (length R) k0 A R (s\<lparr>e_rx := evs\<rparr>)"
  using progressD [OF assms]
  by (intro exI [of _ "e\<lparr>e_tx := e_tx s, e_rx := evs\<rparr>"])
    (simp add: progress_def sent_only_def read_so_far_def acked_so_far_def window_ok_def outstanding_def)

lemma transmit_round_ok:
  assumes "progress crc e input A0 n0 k0 A R s" and "may_read both s" and "In_error \<notin> set input"
    and "transmit_round crc ev both s = Inr (ph, s')"
  shows "\<exists>A' R'. progress crc e input A0 n0 k0 A' R' s' \<and> (\<forall>both'. ph = Tx_loop both' \<longrightarrow> may_read both' s') \<and>
    (ph = Tx_end 0 \<longrightarrow> A' = length R' \<and> R' \<noteq> [] \<and> last R' = [])"
proof -
  let ?round = "case ev of
        Poll_failed \<Rightarrow> Inr (False, both, s)
      | Poll_events file_ev sock_ev \<Rightarrow> transmit_ready crc (both \<and> file_ev) sock_ev s
      | Poll_expired \<Rightarrow> transmit_expired both s"
  have ok: "round_ok crc e input A0 n0 k0 ?round"
    using ready_round [OF assms(1,2)] expired_round [OF assms(1,2)] assms(1,2)
    by (auto simp: round_ok_def split: poll_event.split)
  obtain go_on both' where r: "?round = Inr (go_on, both', s')"
    "ph = (if \<not> go_on then Tx_end (-103) else if tx_goes_on s' then Tx_loop both' else Tx_end 0)"
    using assms(4) unfolding transmit_round_def by (cases ?round) auto
  obtain A' R' where p: "progress crc e input A0 n0 k0 A' R' s'" "go_on \<longrightarrow> may_read both' s'"
    using ok r(1) assms(3) by (auto simp: round_ok_def)
  have "A' = length R' \<and> R' \<noteq> [] \<and> last R' = []" if "ph = Tx_end 0"
    using that r(2) loop_done [OF p(1)] by (auto simp: tx_goes_on_def split: if_splits)
  then show ?thesis
    using p r(2) by (intro exI [of _ A'] exI [of _ R']) (auto split: if_splits)
qed

text \<open>What the network may hold of the sender's: chunks that were in the ring when they were written.\<close>

definition data_log :: "crc_fun \<Rightarrow> byte list list \<Rightarrow> nat \<Rightarrow> nat \<Rightarrow> log \<Rightarrow> bool" where
  "data_log crc fs c now log \<longleftrightarrow>
     (\<forall>t w. (t, w) \<in> set log \<longrightarrow> (\<exists>i. w = wire_of crc (file_segment fs i) \<and> i < now \<and> t \<le> i + c))"

lemma data_log_mono: "data_log crc fs c now log \<Longrightarrow> now \<le> now' \<Longrightarrow> data_log crc fs c now' log"
  by (fastforce simp: data_log_def)

lemma data_log_append:
  "data_log crc fs c now (log @ log') \<longleftrightarrow> data_log crc fs c now log \<and> data_log crc fs c now log'"
  unfolding data_log_def set_append Un_iff by blast

text \<open>Chunks are taken out of the ring only for acknowledgements that arrive.\<close>

lemma tx_step:
  assumes "sender_at crc fs c A s" and "may_read both s" and "small fs" and "length evs \<le> 1"
    and "transmit_round crc ev both (s\<lparr>e_rx := evs\<rparr>) = Inr (ph, s')"
  defines "now \<equiv> chunks_in (file_input fs) s" and "now' \<equiv> chunks_in (file_input fs) s'"
  shows "\<exists>A'. sender_at crc fs c A' s' \<and> (\<forall>both'. ph = Tx_loop both' \<longrightarrow> may_read both' s') \<and>
    (ph = Tx_end 0 \<longrightarrow> A' = Suc (length fs)) \<and> now \<le> now' \<and> A \<le> A' \<and> A' \<le> A + 31 \<and>
    (A' = A \<or> ack_received crc evs A') \<and>
    data_log crc fs c now' (map (Pair now) (written s s'))"
proof -
  obtain e :: env and A0 n0 R where p0: "progress crc e (file_input fs) A0 n0 c A R s"
    using assms(1) by (auto simp: sender_at_def)
  obtain e' :: env where e': "e_tx e' = e_tx s" "e_rx e' = evs"
    "progress crc e' (file_input fs) A (length R) c A R (s\<lparr>e_rx := evs\<rparr>)"
    using rebase [OF p0] by blast
  have m: "may_read both (s\<lparr>e_rx := evs\<rparr>)" and ne: "In_error \<notin> set (file_input fs)"
    using assms(2) by (auto simp: may_read_def file_input_def)
  obtain A' R' where p: "progress crc e' (file_input fs) A (length R) c A' R' s'"
    "\<forall>both'. ph = Tx_loop both' \<longrightarrow> may_read both' s'"
    "ph = Tx_end 0 \<longrightarrow> A' = length R' \<and> R' \<noteq> [] \<and> last R' = []"
    using transmit_round_ok [OF e'(3) m ne assms(5)] by blast
  note d = progressD [OF p(1)]
  note R = read_chunks [OF progressD(4) [OF p0] assms(3)] and R' = read_chunks [OF d(4) assms(3)]
  have now: "now = length R" "now' = length R'"
    using R(2) R'(2) by (simp_all add: now_def now'_def)
  have end': "A' = Suc (length fs)" if "ph = Tx_end 0"
  proof -
    have l: "A' = length R'" "R' \<noteq> []" "last R' = []"
      using p(3) that by simp_all
    have "last R' = R' ! (length R' - 1)"
      using l(2) by (rule last_conv_nth)
    also have "\<dots> = (fs @ [[]]) ! (length R' - 1)"
      using l(2) by (subst R'(1)) (simp del: take_append)
    finally have "(fs @ [[]]) ! (length R' - 1) = []"
      using l(3) by simp
    then have "\<not> length R' - 1 < length fs"
      using assms(3) by (auto simp: nth_append list_all_length)
    then show ?thesis
      using l R'(3) by (cases R') simp_all
  qed
  obtain got where got: "evs = got @ e_rx s'" "A \<le> A'" "A' \<le> A + 31 * length got" "A' = A \<or> ack_received crc got A'"
    using d(5) e'(2) by (auto simp: acked_so_far_def)
  then have "length got \<le> 1" "ack_received crc got A' \<Longrightarrow> ack_received crc evs A'"
    using assms(4) by (auto intro: ack_received_mono)
  then have acked: "A' \<le> A + 31" "A' = A \<or> ack_received crc evs A'"
    using got by auto
  obtain new where new: "e_tx s' = e_tx s @ new" "set new \<subseteq> chunk_wires crc (length R - c) R'"
    using d(3) e'(1) by (auto simp: sent_only_def)
  have "data_log crc fs c now' (map (Pair now) (written s s'))"
    unfolding data_log_def
  proof (intro allI impI)
    fix t w
    assume "(t, w) \<in> set (map (Pair now) (written s s'))"
    then have "t = now" "w \<in> set new"
      by (auto simp: written_def new(1))
    then have "w \<in> chunk_wires crc (length R - c) R'"
      using new(2) by blast
    then obtain i where i: "length R - c \<le> i" "i < length R'" "w = wire_of crc (chunk_segment i (R' ! i))"
      by (auto simp: chunk_wires_def)
    have "R' ! i = chunk fs i"
      using i(2) R'(1) by (metis chunk_def nth_take)
    then show "\<exists>i. w = wire_of crc (file_segment fs i) \<and> i < now' \<and> t \<le> i + c"
      using i now \<open>t = now\<close> by (intro exI [of _ i]) (simp add: file_segment_def)
  qed
  then show ?thesis
    using p(1,2) acked got(2) end' d(7) now unfolding sender_at_def
    by (intro exI [of _ A'] conjI impI) blast+
qed

section \<open>Before the first acknowledgement\<close>

text \<open>
  As long as no acknowledgement arrives the window is the initial one, of one packet: only chunk 0
  is sent, however often.
\<close>

definition unanswered :: "crc_fun \<Rightarrow> byte list list \<Rightarrow> sender \<Rightarrow> bool" where
  "unanswered crc R s \<longleftrightarrow> sender_inv crc 0 R s \<and> e_wr s = [] \<and> tx_last_win s = 1 \<and> outstanding s \<le> 1"

definition no_answer :: "crc_fun \<Rightarrow> rx_event list \<Rightarrow> bool" where
  "no_answer crc evs \<longleftrightarrow> (\<forall>src d seg. Rx src d \<in> set evs \<longrightarrow> datagram_of crc seg (take 528 d) \<longrightarrow>
     s_type seg = ucast PTYPE_DATA)"

definition repeats_first :: "crc_fun \<Rightarrow> byte list list \<Rightarrow> sender \<Rightarrow> sender \<Rightarrow> bool" where
  "repeats_first crc R s s' \<longleftrightarrow>
     (\<exists>new. e_tx s' = e_tx s @ new \<and> (\<forall>w \<in> set new. R \<noteq> [] \<and> w = wire_of crc (chunk_segment 0 (R ! 0))))"

lemma repeats_first_refl [simp]: "e_tx s' = e_tx s \<Longrightarrow> repeats_first crc R s s'"
  by (simp add: repeats_first_def)

lemma repeats_first_sends:
  "e_tx s' = e_tx s @ sends crc R a b \<Longrightarrow> b \<le> 1 \<Longrightarrow> b \<le> length R \<Longrightarrow> repeats_first crc R s s'"
proof -
  assume tx: "e_tx s' = e_tx s @ sends crc R a b" and b: "b \<le> 1" "b \<le> length R"
  have "w = wire_of crc (chunk_segment 0 (R ! 0)) \<and> R \<noteq> []" if w: "w \<in> set (sends crc R a b)" for w
  proof -
    obtain i where i: "i \<in> set [a..<b]" "w = wire_of crc (chunk_segment i (R ! i))"
      using w unfolding sends_def set_map by blast
    then have "i = 0" "R \<noteq> []"
      using b by auto
    then show ?thesis
      using i(2) by simp
  qed
  then show ?thesis
    using tx by (auto simp: repeats_first_def)
qed

lemma quiet_socket:
  assumes "no_answer crc (e_rx s)" and "handle_socket_read crc s = Inr (err, s')"
  shows "\<exists>evs. s' = s\<lparr>tx_retry_count := 0, e_rx := evs\<rparr>"
proof (cases "e_rx s")
  case Nil
  then show ?thesis
    using assms(2) by (simp add: handle_socket_read_def Let_def net_recv_pkt_def net_recvfrom_def sys_recv_def)
next
  case (Cons ev evs)
  let ?s = "s\<lparr>tx_retry_count := 0\<rparr>" and ?win = "tx_last_sent s - tx_last_ack s + 1"
  have rx: "e_rx ?s = ev # evs"
    using Cons by simp
  show ?thesis
  proof (cases ev)
    case Rx_error
    then show ?thesis
      using net_recv_pkt_error [of ?s evs crc pkt_zero "tx_last_ack s" ?win] rx assms(2)
      by (auto simp: handle_socket_read_def Let_def)
  next
    case (Rx src d)
    note rx' = rx [unfolded Rx]
    show ?thesis
    proof (cases rule: net_recv_pkt_cases [OF wf_pkt_zero rx', of crc "tx_last_ack s" ?win,
          case_names accepted dropped])
      case (accepted q)
      have "s_type (segment_of q) = ucast PTYPE_DATA"
        using assms(1) accepted(2) Cons Rx by (auto simp: no_answer_def)
      then have "p_type q = 1"
        by (simp add: segment_of_def)
      then show ?thesis
        using accepted(1) assms(2) by (auto simp: handle_socket_read_def Let_def)
    next
      case (dropped q)
      then show ?thesis
        using assms(2) by (auto simp: handle_socket_read_def Let_def)
    qed
  qed
qed

lemma unanswered_send:
  assumes "unanswered crc R s" and "do_send_sbuf s = Inr (err, s')"
  shows "unanswered crc R s' \<and> repeats_first crc R s s'"
proof -
  have u: "sender_inv crc 0 R s" "e_wr s = []" "tx_last_win s = 1" "outstanding s \<le> 1"
    using assms(1) by (simp_all add: unanswered_def)
  have s': "sender_inv crc 0 R s'"
    "outstanding s' = max (outstanding s) (min (length R - 0) (unat (tx_last_win s)))"
    "s' = s\<lparr>tx_last_sent := tx_last_sent s',
      e_tx := e_tx s @ sends crc R (0 + outstanding s) (0 + outstanding s')\<rparr>"
    using send_sbuf_step [OF u(1,2)] assms(2) by auto
  have o: "outstanding s' \<le> 1" "outstanding s' \<le> length R"
    using s'(2) u(3,4) outstanding_chunks(3) [OF s'(1)] by simp_all
  have f: "e_wr s' = []" "tx_last_win s' = 1" "e_tx s' = e_tx s @ sends crc R (outstanding s) (outstanding s')"
    using u(2,3) by (subst s'(3); simp)+
  show ?thesis
    using s'(1) o f repeats_first_sends [OF f(3)] by (simp add: unanswered_def)
qed

lemma unanswered_input:
  assumes "unanswered crc R s" and "used (tx_buf s) < cap (tx_buf s)" and "handle_input_read crc s = Inr (0, s')"
  shows "\<exists>b. unanswered crc (R @ [b]) s' \<and> e_tx s' = e_tx s"
proof -
  have u: "sender_inv crc 0 R s" "e_wr s = []" "tx_last_win s = 1" "outstanding s \<le> 1"
    using assms(1) by (simp_all add: unanswered_def)
  obtain bytes evs where i: "tx_input s = In_data bytes # evs"
  proof (cases "tx_input s")
    case Nil
    then show ?thesis
      using assms(3) by (simp add: handle_input_read_def Let_def sys_read_def case_prod_unfold)
  next
    case (Cons ev evs)
    then show ?thesis
      using assms(3) that by (cases ev) (simp_all add: handle_input_read_def Let_def sys_read_def case_prod_unfold)
  qed
  have s': "sender_inv crc 0 (R @ [take 512 bytes]) s'" "outstanding s' = outstanding s"
    "s' = s\<lparr>tx_buf := tx_buf s', tx_last_chunk_read := tx_last_chunk_read s + 1,
      tx_last_in_read := int (length (take 512 bytes)), tx_input := evs\<rparr>"
    using input_step [OF u(1) assms(2) i] assms(3) by auto
  have "e_wr s' = []" "tx_last_win s' = 1" "e_tx s' = e_tx s"
    using u(2,3) by (subst s'(3); simp)+
  then show ?thesis
    using s'(1,2) u(4) by (auto simp: unanswered_def)
qed

lemma unanswered_resend:
  assumes "unanswered crc R s" and "used (tx_buf s) \<noteq> 0" and "handle_retransmission s = Inr (err, s')"
  shows "unanswered crc R s' \<and> repeats_first crc R s s'"
proof -
  have u: "sender_inv crc 0 R s" "e_wr s = []" "tx_last_win s = 1" "outstanding s \<le> 1"
    using assms(1) by (simp_all add: unanswered_def)
  let ?s = "s\<lparr>tx_retry_count := tx_retry_count s + 1\<rparr>"
  consider "MAX_RETRANSMISSION \<le> tx_retry_count s" | "tx_retry_count s < MAX_RETRANSMISSION" "tx_last_sent s = 255"
    | "tx_retry_count s < MAX_RETRANSMISSION" "tx_last_sent s \<noteq> 255"
    by linarith
  then show ?thesis
  proof cases
    case 1
    then have "s' = ?s"
      using assms(3) by (simp add: handle_retransmission_def Let_def)
    then show ?thesis
      using assms(1) by (simp add: unanswered_def outstanding_def)
  next
    case 2
    then show ?thesis
      using retransmission_at_255 [OF u(1,2) _ assms(2)] assms(3) by simp
  next
    case 3
    let ?new = "sends crc R (0 + 0) (0 + outstanding ?s)"
    have "resend_loop (tx_last_ack s) ?s = Some (Inr (0, ?s\<lparr>tx_dup_ack := 0, e_tx := e_tx ?s @ ?new\<rparr>))"
      using u(1,2) 3(2) by (intro resend_step) simp_all
    then have s': "s' = ?s\<lparr>tx_dup_ack := 0, e_tx := e_tx ?s @ ?new\<rparr>"
      using 3(1) assms(3) by (simp add: handle_retransmission_def Let_def)
    have "outstanding ?s \<le> 1" "outstanding ?s \<le> length R"
      using u(4) outstanding_chunks(3) [OF u(1)] by (simp_all add: outstanding_def)
    then show ?thesis
      using u repeats_first_sends [of s' s crc R 0 "outstanding ?s"]
      by (simp add: s' unanswered_def outstanding_def)
  qed
qed

lemma repeats_first_trans:
  "repeats_first crc R s s1 \<Longrightarrow> repeats_first crc (R @ R') s1 s2 \<Longrightarrow> repeats_first crc (R @ R') s s2"
  by (fastforce simp: repeats_first_def nth_append)

lemma unanswered_ready:
  assumes "unanswered crc R s" and "no_answer crc (e_rx s)" and "file_ev \<longrightarrow> used (tx_buf s) < cap (tx_buf s)"
    and "transmit_ready crc file_ev sock_ev s = Inr (go_on, both, s')"
  shows "\<exists>R'. unanswered crc (R @ R') s' \<and> repeats_first crc (R @ R') s s' \<or> \<not> go_on \<and> e_tx s' = e_tx s"
proof -
  obtain err s1 where s1: "(if sock_ev then handle_socket_read crc s else Inr (0, s)) = Inr (err, s1)"
    "err \<noteq> 0 \<Longrightarrow> \<not> go_on \<and> s' = s1"
    "err = 0 \<Longrightarrow> rbind (if file_ev then handle_input_read crc s1 else Inr (0, s1)) (\<lambda>(err, s).
      if err \<noteq> 0 then Inr (False, True, s) else
      rbind (do_send_sbuf s) (\<lambda>(err, s).
      if err \<noteq> 0 then Inr (False, True, s)
      else Inr (True, tx_last_in_read s \<noteq> 0 \<and> \<not> pktbuf_full (tx_buf s), s))) = Inr (go_on, both, s')"
    using assms(4) unfolding transmit_ready_def
    by (elim rbind_InrE) (auto simp only: prod.case split_paired_all split: if_splits)
  have "s1 = s \<or> (\<exists>evs. s1 = s\<lparr>tx_retry_count := 0, e_rx := evs\<rparr>)"
    using s1(1) quiet_socket [OF assms(2)] by (auto split: if_splits)
  then have u1: "unanswered crc R s1" "e_tx s1 = e_tx s" "tx_buf s1 = tx_buf s"
    using assms(1) by (auto simp: unanswered_def outstanding_def)
  show ?thesis
  proof (cases "err = 0")
    case False
    then show ?thesis
      using s1(2) u1(2) by auto
  next
    case True
    obtain err' s2 where s2: "(if file_ev then handle_input_read crc s1 else Inr (0, s1)) = Inr (err', s2)"
      "err' \<noteq> 0 \<Longrightarrow> \<not> go_on \<and> s' = s2"
      "err' = 0 \<Longrightarrow> rbind (do_send_sbuf s2) (\<lambda>(err, s).
        if err \<noteq> 0 then Inr (False, True, s)
        else Inr (True, tx_last_in_read s \<noteq> 0 \<and> \<not> pktbuf_full (tx_buf s), s)) = Inr (go_on, both, s')"
      using s1(3) [OF True] by (elim rbind_InrE) (auto simp only: prod.case split_paired_all split: if_splits)
    show ?thesis
    proof (cases "err' = 0")
      case False
      then have "e_tx s2 = e_tx s1"
        using s2(1) by (auto simp: handle_input_read_def Let_def sys_read_def case_prod_unfold rbind_Inr_iff
            split: if_splits list.splits in_event.splits)
      then show ?thesis
        using s2(2) False u1(2) by auto
    next
      case True
      have "\<exists>R'. unanswered crc (R @ R') s2 \<and> e_tx s2 = e_tx s1"
      proof (cases file_ev)
        case True
        then show ?thesis
          using unanswered_input [OF u1(1)] s2(1) \<open>err' = 0\<close> assms(3) u1(3) by auto
      next
        case False
        then show ?thesis
          using s2(1) u1(1) by (intro exI [of _ "[]"]) simp
      qed
      then obtain R' where u2: "unanswered crc (R @ R') s2" "e_tx s2 = e_tx s"
        using u1(2) by auto
      obtain err3 where "do_send_sbuf s2 = Inr (err3, s')"
        using s2(3) [OF True] by (elim rbind_InrE) (auto split: if_splits)
      then have "unanswered crc (R @ R') s'" "repeats_first crc (R @ R') s2 s'"
        using unanswered_send [OF u2(1)] by simp_all
      then show ?thesis
        using u2(2) by (intro exI [of _ R'] disjI1) (simp add: repeats_first_def)
    qed
  qed
qed

lemma unanswered_round:
  assumes "unanswered crc R s" and "no_answer crc (e_rx s)" and "may_read both s"
    and "transmit_round crc ev both s = Inr (ph, s')"
  shows "\<exists>R'. repeats_first crc R' s s' \<and> (\<forall>both'. ph = Tx_loop both' \<longrightarrow> unanswered crc R' s')"
proof -
  let ?round = "case ev of
        Poll_failed \<Rightarrow> Inr (False, both, s)
      | Poll_events file_ev sock_ev \<Rightarrow> transmit_ready crc (both \<and> file_ev) sock_ev s
      | Poll_expired \<Rightarrow> transmit_expired both s"
  obtain go_on both' where r: "?round = Inr (go_on, both', s')"
    "ph = (if \<not> go_on then Tx_end (-103) else if tx_goes_on s' then Tx_loop both' else Tx_end 0)"
    using assms(4) unfolding transmit_round_def by (cases ?round) auto
  show ?thesis
  proof (cases ev)
    case Poll_failed
    then have "s' = s" "ph = Tx_end (-103)"
      using r by simp_all
    then show ?thesis
      by (intro exI [of _ R]) simp
  next
    case Poll_expired
    then have e: "transmit_expired both s = Inr (go_on, both', s')"
      using r(1) by simp
    have "unanswered crc R s' \<and> repeats_first crc R s s'"
    proof (cases "used (tx_buf s) = 0")
      case True
      then have "s' = s"
        using e used_eq_0 [of "tx_buf s"] by (simp add: transmit_expired_def)
      then show ?thesis
        using assms(1) by simp
    next
      case False
      then have "rbind (handle_retransmission s) (\<lambda>(err, s). Inr (err = 0, both, s)) = Inr (go_on, both', s')"
        using e used_eq_0 [of "tx_buf s"] by (simp add: transmit_expired_def)
      then obtain err where "handle_retransmission s = Inr (err, s')"
        by (cases "handle_retransmission s") auto
      then show ?thesis
        by (rule unanswered_resend [OF assms(1) False])
    qed
    then show ?thesis
      by blast
  next
    case (Poll_events file_ev sock_ev)
    then have e: "transmit_ready crc (both \<and> file_ev) sock_ev s = Inr (go_on, both', s')"
      using r(1) by simp
    have "both \<and> file_ev \<longrightarrow> used (tx_buf s) < cap (tx_buf s)"
      using assms(3) by (simp add: may_read_def)
    from unanswered_ready [OF assms(1,2) this e] obtain R' where R':
      "unanswered crc (R @ R') s' \<and> repeats_first crc (R @ R') s s' \<or> \<not> go_on \<and> e_tx s' = e_tx s"
      by blast
    then show ?thesis
    proof
      assume "\<not> go_on \<and> e_tx s' = e_tx s"
      then have "repeats_first crc R s s'" "ph = Tx_end (-103)"
        using r(2) by simp_all
      then show ?thesis
        by (intro exI [of _ R]) simp
    qed blast
  qed
qed

end
