(* ===== verification/Receiver_Limits.thy ===== *)
theory Receiver_Limits
  imports Receiver_File
begin

text \<open>
  The main loop of the receiver against its specification, and where the implementation falls
  short of it: packets that wait for a blocking output file, a window that is full without its
  first packet, and the flag that should keep the output file from blocking.
\<close>

unbundle bit_operations_syntax

declare nth_items [simp del]

text \<open>
  C15. From any state that keeps up, with whatever poll results and datagrams, the main loop
  never fails a check; what it has written and every datagram it has answered with are those
  of the selective-repeat specification on the datagrams received; it ends with success only
  after an empty chunk has been delivered.
\<close>

theorem receive_loop_refines:
  assumes "keeping_up s"
  shows "case receive_loop crc both polls s of
       Inl f \<Rightarrow> f = Blocked
     | Inr (ok, polls', s') \<Rightarrow>
         \<exists>css. carried crc (take (length css) (e_rx s)) css \<and>
           r_out s' = a_out (a_run css (abs_receiver s)) \<and>
           e_tx s' = e_tx s @ map (wire_of crc) (a_answers css (abs_receiver s)) \<and>
           (ok \<longrightarrow> a_last (a_run css (abs_receiver s)) = 0)"
  using receive_loop_step [OF assms, of crc both polls] unfolding loop_result_def
  by (cases "receive_loop crc both polls s") (auto split: prod.splits)

theorem receive_loop_refines_witness:
  "case receive_loop demo_crc True [Poll_ready True True, Poll_timeout] demo_receiver of
       Inl f \<Rightarrow> f = Blocked
     | Inr (ok, polls', s') \<Rightarrow>
         \<exists>css. carried demo_crc (take (length css) (e_rx demo_receiver)) css \<and>
           r_out s' = a_out (a_run css (abs_receiver demo_receiver)) \<and>
           e_tx s' = e_tx demo_receiver @ map (wire_of demo_crc) (a_answers css (abs_receiver demo_receiver)) \<and>
           (ok \<longrightarrow> a_last (a_run css (abs_receiver demo_receiver)) = 0)"
  by (rule receive_loop_refines [OF demo_idle])

section \<open>Packets that wait for the output file\<close>

text \<open>Reserving the slot for the expected packet behind those that wait.\<close>

lemma reserve_behind:
  assumes "synced s" and "bit (r_oos_mask s) 0" and "ones (r_oos_mask s) < 32"
  shows "\<exists>b. pktbuf_slotfor_seq (r_buf s) (r_expected_seq s) = Inr (slot_index b (ones (r_oos_mask s)), b) \<and>
    synced (s\<lparr>r_buf := b\<rparr>) \<and> marked (s\<lparr>r_buf := b\<rparr>) = marked s \<and> ones (r_oos_mask s) < used b"
proof -
  let ?k = "ones (r_oos_mask s)" and ?b = "r_buf s"
  let ?base = "r_expected_seq s - of_nat ?k"
  note w = syncedD [OF assms(1)]
  have k: "unat (r_expected_seq s - ?base) = ?k"
    using assms(3) by (simp add: unat_of_nat)
  have u: "used ?b \<noteq> 0"
    using synced_first(2) [OF assms(1,2)] by simp
  obtain b where b: "pktbuf_slotfor_seq ?b (r_expected_seq s) = Inr (slot_index ?b ?k, b)" "wf_buf b"
    "used b = max (used ?b) (Suc ?k)" "seq_from ?base (items b)" "take (used ?b) (items b) = items ?b"
    "cap b = cap ?b" "slot_index b = slot_index ?b"
    using slotfor_seq_ok [OF w(1,4) u, of "r_expected_seq s"] k assms(3) w(2) by auto
  have i: "items b ! j = items ?b ! j" if "bit (r_oos_mask s) j" for j
    using b(5) w(5) [OF that] by (metis nth_take)
  have "synced (s\<lparr>r_buf := b\<rparr>)"
    using b w i by (simp add: synced_def less_max_iff_disj)
  moreover have "marked (s\<lparr>r_buf := b\<rparr>) = marked s"
    using i by (simp add: marked_def fun_eq_iff)
  ultimately show ?thesis
    using b by (intro exI [of _ b]) simp
qed

text \<open>
  C21. The distance \<open>process_incoming_pkt\<close> computes is one too small while packets wait in
  sequence for a blocking output file: when \<open>k > 0\<close> of them wait and the next packet in
  sequence arrives, its bit is not set in the mask, and the expected sequence number advances
  by \<open>k\<close> instead of 1; with two packets waiting the receiver then acknowledges a packet it has
  never received.
\<close>

theorem pending_packets_skip:
  assumes "synced s" and "bit (r_oos_mask s) 0" and "ones (r_oos_mask s) < 32"
    and "e_rx s = Rx src d # evs" and "datagram_of crc seg (take 528 d)"
    and "s_seq seg = r_expected_seq s" and "s_type seg = 1" and "s_tr seg = 0"
  shows "\<exists>s'. do_receive_data crc s = Inr (0, s') \<and> r_oos_mask s' = r_oos_mask s \<and>
    r_expected_seq s' = r_expected_seq s + of_nat (ones (r_oos_mask s))"
proof -
  let ?k = "ones (r_oos_mask s)" and ?e = "r_expected_seq s"
  obtain b where r: "pktbuf_slotfor_seq (r_buf s) ?e = Inr (slot_index b ?k, b)" "synced (s\<lparr>r_buf := b\<rparr>)" "?k < used b"
    using reserve_behind [OF assms(1-3)] by blast
  have "p_seq (slot b (slot_index b 0)) = ?e - of_nat ?k"
    using syncedD(4) [OF r(2)] r(3) by (auto simp: seq_from_def nth_items)
  then have b: "pktbuf_slotfor_seq (r_buf s) ?e = Inr (slot_index b ?k, b)" "wf_buf b" "cap b = 32"
    "p_seq (slot b (slot_index b 0)) = ?e - of_nat ?k" "?k < used b"
    using r syncedD(1,2) [OF r(2)] by simp_all
  let ?s = "s\<lparr>r_buf := b\<rparr>" and ?i = "slot_index b ?k"
  have k: "0 < ?k" "?k \<le> 32" "?i < cap b"
    using assms(2) ones_0_iff [of "r_oos_mask s"] ones_le slot_index_less [OF b(2)] by auto
  have wf: "wf_pkt (slot b ?i)"
    using wf_slot [OF b(2) k(3)] .
  obtain q where q: "pkt_decode_inline crc (store_bytes (slot b ?i) 0 (take 528 d))
      (of_nat (length (take 528 d))) = (PKT_OK, q)" "segment_of q = seg"
    using decode_datagram [OF wf, of "take 528 d" crc seg] assms(5) by auto
  then have f: "p_seq q = ?e" "p_type q = 1" "p_tr q = 0"
    using assms(6-8) by (auto simp: segment_of_def)
  have "net_recvfrom crc (slot b ?i) None ?s = Inr (NET_OK, q, None, ?s\<lparr>e_rx := evs\<rparr>)"
    using net_recvfrom_Rx [of ?s src d evs crc "slot b ?i" None] assms(4) q by (simp add: store_addr_def)
  then have run: "do_receive_data crc s =
      process_incoming_pkt ?i (put_slot (?s\<lparr>e_rx := evs\<rparr>) ?i q)"
    using b(1) f by (simp add: do_receive_data_def net_recv_pkt_def buf_slot_def Let_def)
  let ?b = "set_slot b ?i q"
  have other: "slot_index b 0 \<noteq> ?i"
    using slot_index_inject [OF b(2), of 0 ?k] k(1) assms(3) b(3) by simp
  have len: "length (b_head b) = 32"
    using wf_bufD(1) [OF b(2)] b(3) by simp
  have slots: "slot ?b ?i = q" "p_seq (slot ?b (slot_index b 0)) = ?e - of_nat ?k"
    using other len k(3) b(3,4) slot_index_less [OF b(2), of 0] by (simp_all add: slot_set_slot)
  have "wf_pkt q"
    using decode_inline_wf [OF q(1)] store_bytes_0(1) [OF wf, of "take 528 d"] by simp
  then have first: "pktbuf_first ?b = Some (slot_index b 0)"
    using pktbuf_first_eq [of ?b] b(2,5) by simp
  have dist: "unat (of_nat ?k - 1 :: u8) = ?k - 1"
    using k(1,2) by (simp add: unat_sub_if' unat_of_nat unat_1)
  have bit: "r_oos_mask s OR push_bit (?k - 1) 1 = r_oos_mask s"
    using bit_less_ones [of "?k - 1" "r_oos_mask s"] k(1) assms(3)
    by (intro bit_word_eqI) (simp only: bit_or_exp, auto simp: bit_or_exp)
  have adv: "ucast (r_max_window s - (r_max_window s - of_nat ?k)) = (of_nat ?k :: u8)"
    using k(2) by (simp add: word_unat_eq_iff unat_ucast_down_u8 unat_of_nat)
  have "process_incoming_pkt ?i (put_slot (?s\<lparr>e_rx := evs\<rparr>) ?i q) =
      Inr (0, (put_slot (?s\<lparr>e_rx := evs\<rparr>) ?i q)\<lparr>r_last_ts := p_ts q, r_oos_mask := r_oos_mask s,
        r_expected_seq := ?e + of_nat ?k\<rparr>)"
    using slots first f assms(2,3) dist bit adv k(1)
    by (simp add: process_incoming_pkt_def and_1_bit Let_def buf_slot_def put_slot_def window_size_eq)
  then show ?thesis
    using run by simp
qed

theorem pending_packets_skip_witness:
  "\<exists>s'. do_receive_data demo_crc demo_pending = Inr (0, s') \<and> r_oos_mask s' = r_oos_mask demo_pending \<and>
    r_expected_seq s' = 4"
proof -
  let ?seg = "demo_data\<lparr>s_seq := 2\<rparr>"
  have m: "bit (r_oos_mask demo_pending) 0" "ones (r_oos_mask demo_pending) = 2"
    by (simp_all only: demo_pending(2) ones_3 bit_3 simp_thms)
  have "length (wire_of demo_crc ?seg) \<le> 528"
    by (simp add: length_wire_of demo_data_def)
  then have "datagram_of demo_crc ?seg (take 528 (wire_of demo_crc ?seg))"
    by (simp add: datagram_of_def valid_segment_def demo_data_def)
  from pending_packets_skip [OF demo_pending(1) m(1) _ demo_pending(4) this] show ?thesis
    using demo_pending(3) m(2) by (simp add: demo_data_def)
qed

section \<open>A full window without its first packet\<close>

lemma full_run:
  assumes "a_full a"
  shows "a_run css a = a"
proof (induction css)
  case (Cons cs css)
  have "a_event cs a = a"
    using assms by (auto simp: a_event_def a_step_def a_accepts_def split: option.splits)
  then show ?case
    using Cons by simp
qed simp

text \<open>
  C23. Once the number of packets received out of sequence reaches the maximal window while
  the first one is missing, the receiver is stuck: whatever arrives is discarded, so it never
  writes another byte and never ends with success. (The check of the sequence number accepts
  a packet one past the announced window, so this happens with a window of 1.)
\<close>

theorem full_window_is_stuck:
  assumes "keeping_up s" and "rbuf_full s" and "r_last_written_len s \<noteq> 0"
    and "receive_loop crc both polls s = Inr (ok, polls', s')"
  shows "\<not> ok \<and> r_out s' = r_out s"
proof -
  have "a_run css (abs_receiver s) = abs_receiver s" for css
    using assms(2) full_abs full_run by blast
  then show ?thesis
    using receive_loop_step [OF assms(1), of crc both polls] assms(3,4)
    by (auto simp: loop_result_def)
qed

text \<open>A window of one packet, and the second packet received before the first.\<close>

definition demo_full :: receiver where
  "demo_full = (receiver_init 1
      \<lparr>b_first = 0, b_last = 2, b_capacity = 32,
       b_head = demo_chunk 0 # demo_chunk 1 # replicate 30 pkt_zero\<rparr>
      (demo_env\<lparr>e_rx := [Rx [] (wire_of demo_crc (demo_segment 0 [1, 2]))]\<rparr>))
    \<lparr>r_oos_mask := 2\<rparr>"

lemma bit_2: "bit (2 :: u32) j \<longleftrightarrow> j = 1"
  by (cases j; cases "j - 1") (auto simp: bit_Suc bit_0)

lemma demo_full: "keeping_up demo_full" "rbuf_full demo_full"
proof -
  let ?b = "r_buf demo_full"
  have u: "used ?b = 2" "r_oos_mask demo_full = 2" "r_expected_seq demo_full = 0"
    "cap ?b = 32" "r_max_window demo_full = 1"
    by (simp_all add: demo_full_def receiver_init_def used_def cap_def pktbuf_used_def)
  have two: "[0..<2] = [0, Suc 0]"
    by (simp add: upt_rec)
  have i: "items ?b = [demo_chunk 0, demo_chunk 1]"
    unfolding items_def u(1) two
    by (simp add: slot_def slot_index_def demo_full_def receiver_init_def)
  have wf: "wf_buf ?b"
    by (auto simp: wf_buf_def demo_full_def receiver_init_def demo_chunk_def pktbuf_used_def
        list_all_iff word_le_nat_alt intro!: exI [of _ 5])
  have m: "bit (r_oos_mask demo_full) j \<longleftrightarrow> j = 1" for j
    by (simp only: u(2) bit_2)
  then have o: "ones (r_oos_mask demo_full) = 0"
    by (simp add: ones_0_iff)
  have "whole_pkt (demo_chunk s)" for s
    by (simp add: whole_pkt_def demo_chunk_def pkt_zero_def)
  then have "idle demo_full"
    using u(1,3,4,5) i wf m o
    by (auto simp: idle_def synced_def seq_from_Cons) (simp_all add: demo_chunk_def)
  then show "keeping_up demo_full"
    using demo_acks_ok by (simp add: keeping_up_def)
      (simp add: demo_full_def demo_receiver_def receiver_init_def acks_ok_def demo_env_def)
  show "rbuf_full demo_full"
    unfolding rbuf_full_def u(2,5) by code_simp
qed

theorem full_window_is_stuck_witness:
  "\<exists>ok polls' s'. receive_loop demo_crc False [Poll_ready False True, Poll_timeout] demo_full =
      Inr (ok, polls', s') \<and> \<not> ok \<and> r_out s' = r_out demo_full"
proof -
  have rx: "e_rx demo_full = Rx [] (wire_of demo_crc (demo_segment 0 [1, 2])) # []"
    and len: "r_last_written_len demo_full \<noteq> 0"
    by (simp_all add: demo_full_def receiver_init_def)
  obtain cs where "carries demo_crc (wire_of demo_crc (demo_segment 0 [1, 2])) cs"
    using ex_carries by blast
  from round_step [OF demo_full(1) rx this] obtain s1 where
    "receive_ready demo_crc (False \<and> False) True demo_full = Inr (True, False, s1)"
    by blast
  then have "receive_loop demo_crc False [Poll_ready False True, Poll_timeout] demo_full =
      loop_next demo_crc [Poll_timeout] (clear_needs s1)"
    by (rule loop_go)
  moreover have "\<exists>x. loop_next demo_crc [Poll_timeout] (clear_needs s1) = Inr x"
    by (simp add: loop_next_def del: split_paired_Ex)
  ultimately obtain ok polls' s' where
    l: "receive_loop demo_crc False [Poll_ready False True, Poll_timeout] demo_full = Inr (ok, polls', s')"
    by (metis prod_cases3)
  show ?thesis
    using l full_window_is_stuck [OF demo_full len l] by blast
qed

end
