(* ===== verification/Receiver_Pending.thy ===== *)
theory Receiver_Pending
  imports Receiver_Limits
begin

text \<open>
  Datagrams that arrive while packets wait in sequence for the output file, as long as none of
  them brings a packet of the window: they leave the buffer as it is.
\<close>

unbundle bit_operations_syntax

declare nth_items [simp del]

section \<open>The slot behind the waiting packets\<close>

lemma restored_behind:
  assumes "synced s" and "ones (r_oos_mask s) < used (r_buf s)" and "wf_pkt q" and "p_seq q = r_expected_seq s"
  shows "synced (put_slot s (slot_index (r_buf s) (ones (r_oos_mask s))) q)"
    and "marked (put_slot s (slot_index (r_buf s) (ones (r_oos_mask s))) q) = marked s"
proof -
  let ?k = "ones (r_oos_mask s)"
  note w = syncedD [OF assms(1)]
  have i: "items (r_buf (put_slot s (slot_index (r_buf s) ?k) q)) = (items (r_buf s))[?k := q]"
    using items_set_slot [OF w(1) assms(2)] by (simp add: put_slot_def)
  have n: "(items (r_buf s))[?k := q] ! j = items (r_buf s) ! j" if "bit (r_oos_mask s) j" for j
    using that not_bit_ones [of "r_oos_mask s"] by (cases "j = ?k") auto
  have "seq_from (r_expected_seq s - of_nat ?k) ((items (r_buf s))[?k := q])"
    using w(4) assms(4) by (intro seq_from_update) simp_all
  moreover have "wf_buf (r_buf (put_slot s (slot_index (r_buf s) ?k) q))"
    using w(1) assms(3) by (simp add: put_slot_def)
  ultimately show "synced (put_slot s (slot_index (r_buf s) ?k) q)"
    using w n by (simp add: synced_def i)
  show "marked (put_slot s (slot_index (r_buf s) ?k) q) = marked s"
    using n by (simp add: marked_def i fun_eq_iff)
qed

section \<open>Receiving into it\<close>

text \<open>Truncated segments still ask for a negative acknowledgement.\<close>

lemma process_truncated_behind:
  assumes "bit (r_oos_mask s) 0" and "pktbuf_first (r_buf s) = Some f" and "p_tr (buf_slot s i) \<noteq> 0"
  shows "process_incoming_pkt i s =
    Inr (0, (put_slot s i ((buf_slot s i)\<lparr>p_seq := r_expected_seq s\<rparr>))
      \<lparr>r_last_ts := p_ts (buf_slot s i), r_need_nack := True, r_nack_seq := p_seq (buf_slot s i)\<rparr>)"
proof -
  let ?q = "buf_slot s i"
  have g: "0 < p_seq ?q - r_expected_seq s \<longleftrightarrow> p_seq ?q \<noteq> r_expected_seq s"
    by (simp add: word_gt_0)
  show ?thesis
  proof (cases "p_seq ?q = r_expected_seq s")
    case True
    then have "?q\<lparr>p_seq := r_expected_seq s\<rparr> = ?q"
      by simp
    then have "put_slot s i (?q\<lparr>p_seq := r_expected_seq s\<rparr>) = s"
      by (simp only:) (simp add: put_slot_def buf_slot_def set_slot_def slot_def)
    then show ?thesis
      using assms True g by (simp add: process_incoming_pkt_def and_1_bit Let_def buf_slot_def)
  next
    case False
    then show ?thesis
      using assms g by (simp add: process_incoming_pkt_def and_1_bit Let_def buf_slot_def put_slot_def)
  qed
qed

lemma pending_read:
  assumes "synced s" and "bit (r_oos_mask s) 0" and "ones (r_oos_mask s) < 32" and "e_rx s = Rx src d # evs"
    and none: "\<forall>seg. datagram_of crc seg (take 528 d) \<longrightarrow> s_tr seg = 0 \<longrightarrow>
      \<not> s_seq seg - r_expected_seq s \<le> ucast (window_size s) \<or> s_type seg \<noteq> 1"
  shows "\<exists>s'. do_receive_data crc s = Inr (0, s') \<and> synced s' \<and> in_frame s evs s' \<and> marked s' = marked s \<and>
    r_oos_mask s' = r_oos_mask s \<and> r_expected_seq s' = r_expected_seq s"
proof -
  let ?k = "ones (r_oos_mask s)"
  obtain b where b: "pktbuf_slotfor_seq (r_buf s) (r_expected_seq s) = Inr (slot_index b ?k, b)"
    "synced (s\<lparr>r_buf := b\<rparr>)" "marked (s\<lparr>r_buf := b\<rparr>) = marked s" "?k < used b"
    using reserve_behind [OF assms(1-3)] by blast
  let ?s = "s\<lparr>r_buf := b\<rparr>" and ?i = "slot_index b ?k"
  let ?s1 = "s\<lparr>r_buf := b, e_rx := evs\<rparr>"
  have wfb: "wf_buf b" "?i < cap b"
    using syncedD(1) [OF b(2)] slot_index_less by simp_all
  have wf: "wf_pkt (slot b ?i)"
    using wf_slot [OF wfb] .
  have rx: "e_rx ?s = Rx src d # evs"
    using assms(4) by simp
  have s1: "synced ?s1" "marked ?s1 = marked s"
    using b(2,3) by (simp_all add: synced_def marked_def fun_eq_iff)
  have rest: "synced (put_slot ?s1 ?i (q\<lparr>p_seq := r_expected_seq s\<rparr>))"
    "marked (put_slot ?s1 ?i (q\<lparr>p_seq := r_expected_seq s\<rparr>)) = marked s" if "wf_pkt q" for q
    using restored_behind [of ?s1 "q\<lparr>p_seq := r_expected_seq s\<rparr>"] s1 b(4) that by simp_all
  have done_case: "?thesis" if "wf_pkt q"
    "do_receive_data crc s = Inr (0, put_slot ?s1 ?i (q\<lparr>p_seq := r_expected_seq s\<rparr>))" for q
    using rest [OF that(1)] that(2)
    by (intro exI [of _ "put_slot ?s1 ?i (q\<lparr>p_seq := r_expected_seq s\<rparr>)"]) (simp add: in_frame_def put_slot_def)
  show ?thesis
  proof (cases rule: net_recv_pkt_cases [OF wf rx, of crc "r_expected_seq s" "ucast (window_size s)",
        case_names accepted dropped])
    case (dropped q)
    show ?thesis
      using net_recv_pkt_wf [OF dropped(1) wf] b(1) dropped(1)
      by (intro done_case [of q]) (simp_all add: do_receive_data_def Let_def buf_slot_def)
  next
    case (accepted q)
    have q: "wf_pkt q" "s_tr (segment_of q) = p_tr q" "s_type (segment_of q) = p_type q"
      using net_recv_pkt_wf [OF accepted(1) wf] by (simp_all add: segment_of_def)
    show ?thesis
    proof (cases "p_type q = 1")
      case False
      then show ?thesis
        using q(1) b(1) accepted(1)
        by (intro done_case [of q]) (simp_all add: do_receive_data_def Let_def buf_slot_def)
    next
      case True
      then have tr: "p_tr q \<noteq> 0"
        using none accepted(2,3) q(2,3) by auto
      let ?s2 = "put_slot ?s1 ?i q"
      have len: "?i < length (b_head b)"
        using wfb(2) wf_bufD(1) [OF wfb(1)] by simp
      then have bs: "buf_slot ?s2 ?i = q"
        by (simp add: buf_slot_def put_slot_def slot_set_slot)
      let ?s' = "(put_slot ?s1 ?i (q\<lparr>p_seq := r_expected_seq s\<rparr>))
        \<lparr>r_last_ts := p_ts q, r_need_nack := True, r_nack_seq := p_seq q\<rparr>"
      have "do_receive_data crc s = process_incoming_pkt ?i ?s2"
        using b(1) accepted(1) True by (simp add: do_receive_data_def Let_def buf_slot_def)
      also have "\<dots> = Inr (0, ?s')"
      proof -
        have "pktbuf_first (r_buf ?s2) = pktbuf_first b"
          by (simp add: pktbuf_first_def pktbuf_empty_def put_slot_def set_slot_def first_item_def buf_get_def mask_index_def)
        also have "\<dots> = Some (slot_index b 0)"
          using synced_first(1) [OF b(2)] assms(2) by simp
        finally have "pktbuf_first (r_buf ?s2) = Some (slot_index b 0)" .
        from process_truncated_behind [OF _ this, of ?i] show ?thesis
          using assms(2) bs tr by simp
      qed
      finally have run: "do_receive_data crc s = Inr (0, ?s')" .
      have "synced ?s' \<longleftrightarrow> synced (put_slot ?s1 ?i (q\<lparr>p_seq := r_expected_seq s\<rparr>))"
        "marked ?s' = marked (put_slot ?s1 ?i (q\<lparr>p_seq := r_expected_seq s\<rparr>))"
        by (simp_all add: synced_def marked_def fun_eq_iff)
      then have "synced ?s'" "marked ?s' = marked s"
        using rest [OF q(1)] by simp_all
      then show ?thesis
        using run by (intro exI [of _ ?s']) (simp add: in_frame_def put_slot_def)
    qed
  qed
qed

end
