(* ===== verification/Receiver_Open.thy ===== *)
theory Receiver_Open
  imports Receiver_Pending Phases
begin

text \<open>
  The receiver before its main loop: whatever arrives while it waits for its first packet, the
  state in which it goes on; and that a packet which is not data ends the file.
\<close>

unbundle bit_operations_syntax

declare nth_items [simp del]

section \<open>Waiting for the first packet\<close>

lemma wait_loop_accepts:
  assumes "wf_pkt rbuf"
  shows "case wait_loop n crc rbuf ex addr e of Inl f \<Rightarrow> f = Blocked
    | Inr (st, q, e') \<Rightarrow> (\<exists>evs p. e' = e\<lparr>e_rx := evs, e_peer := p\<rparr>) \<and>
        (st = NET_OK \<longrightarrow> wf_pkt q \<and> p_seq q = ex \<and>
          (\<exists>src d. Rx src d \<in> set (e_rx e) \<and> datagram_of crc (segment_of q) (take 528 d)))"
  using assms
proof (induction n arbitrary: rbuf addr e)
  case 0
  have "e = e\<lparr>e_rx := e_rx e, e_peer := e_peer e\<rparr>"
    by simp
  then show ?case
    by (simp only: wait_loop.simps sum.case prod.case) blast
next
  case (Suc n)
  show ?case
  proof (cases "e_rx e")
    case Nil
    then show ?thesis by (simp add: net_recvfrom_def sys_recv_def)
  next
    case (Cons ev evs)
    have e1: "\<exists>evs' p. e\<lparr>e_rx := evs\<rparr> = e\<lparr>e_rx := evs', e_peer := p\<rparr>"
      by (intro exI [of _ evs] exI [of _ "e_peer e"]) simp
    show ?thesis
    proof (cases ev)
      case Rx_error
      then show ?thesis using Cons e1 by (simp add: net_recvfrom_def sys_recv_def)
    next
      case (Rx src d)
      let ?addr = "the (store_addr src (Some addr))"
      obtain st q where d: "pkt_decode_inline crc (store_bytes rbuf 0 (take 528 d))
          (of_nat (length (take 528 d))) = (st, q)"
        by fastforce
      have wf: "wf_pkt q"
        using decode_inline_wf [OF d] store_bytes_0(1) [OF Suc.prems, of "take 528 d"] by simp
      have seg: "datagram_of crc (segment_of q) (take 528 d)" if "st = PKT_OK"
        using decode_datagram [OF Suc.prems, of "take 528 d" crc "segment_of q"] d that by simp
      have again: "case wait_loop n crc q ex ?addr (e\<lparr>e_rx := evs\<rparr>) of Inl f \<Rightarrow> f = Blocked
        | Inr (st, q, e') \<Rightarrow> (\<exists>evs p. e' = e\<lparr>e_rx := evs, e_peer := p\<rparr>) \<and>
            (st = NET_OK \<longrightarrow> wf_pkt q \<and> p_seq q = ex \<and>
              (\<exists>src d. Rx src d \<in> set (e_rx e) \<and> datagram_of crc (segment_of q) (take 528 d)))"
        using Suc.IH [OF wf, where addr = ?addr and e = "e\<lparr>e_rx := evs\<rparr>"] Cons
        by (cases "wait_loop n crc q ex ?addr (e\<lparr>e_rx := evs\<rparr>)") auto
      show ?thesis
      proof (cases "st = PKT_OK \<and> p_seq q = ex")
        case False
        then have "wait_loop (Suc n) crc rbuf ex addr e = wait_loop n crc q ex ?addr (e\<lparr>e_rx := evs\<rparr>)"
          using d by (auto simp: net_recvfrom_Rx [OF Cons [unfolded Rx]] Let_def)
        then show ?thesis
          using again by simp
      next
        case True
        let ?e = "e\<lparr>e_rx := evs, e_peer := Some (take (snd ?addr) (fst ?addr))\<rparr>"
        have "wait_loop (Suc n) crc rbuf ex addr e = Inr (if e_connect e \<noteq> 0 then NET_ERROR else NET_OK, q, ?e)"
          using d True by (simp add: net_recvfrom_Rx [OF Cons [unfolded Rx]] Let_def)
        moreover have "\<exists>evs p. ?e = e\<lparr>e_rx := evs, e_peer := p\<rparr>"
          by blast
        moreover have "Rx src d \<in> set (e_rx e)"
          using Cons Rx by simp
        ultimately show ?thesis
          using wf seg True by (simp only: sum.case prod.case) blast
      qed
    qed
  qed
qed

section \<open>Processing it\<close>

text \<open>What is in the first packet decides how the main loop starts.\<close>

definition opened_with :: "u32 \<Rightarrow> segment \<Rightarrow> receiver \<Rightarrow> bool" where
  "opened_with win seg r \<longleftrightarrow> synced r \<and> acks_ok r \<and> e_wr r = [] \<and> r_out_results r = [] \<and> r_out r = [] \<and>
     (if s_tr seg \<noteq> 0 then idle r \<and> abs_receiver r = (a_init win)\<lparr>a_ts := s_ts seg\<rparr>
      else ones (r_oos_mask r) = 1 \<and> r_expected_seq r = 1 \<and>
        received r = took_first win seg)"

lemma process_first:
  assumes "connected win s" and "wf_pkt q" and "p_seq q = 0" and "valid_segment (segment_of q)"
  shows "\<exists>s'. process_incoming_pkt (slot_index (r_buf s) 0) (put_slot s (slot_index (r_buf s) 0) q) = Inr (0, s') \<and>
    opened_with win (segment_of q) s' \<and> e_tx s' = e_tx s"
proof -
  note c = assms(1) [unfolded connected_def] and out = connectedD(11) [OF assms(1)]
  let ?i = "slot_index (r_buf s) 0"
  have seg: "s_tr (segment_of q) = p_tr q" "s_ts (segment_of q) = p_ts q"
    by (simp_all add: segment_of_def)
  show ?thesis
  proof (cases "p_tr q = 0")
    case False
    let ?s = "put_slot s ?i (q\<lparr>p_seq := r_expected_seq s\<rparr>)"
    let ?s' = "?s\<lparr>r_last_ts := p_ts q, r_need_nack := True, r_nack_seq := p_seq q\<rparr>"
    have run: "process_incoming_pkt ?i (put_slot s ?i q) = Inr (0, ?s')"
      using process_truncated [of s q] c False by simp
    have r: "waiting ?s" "marked ?s = marked s"
      using restored [of s "q\<lparr>p_seq := r_expected_seq s\<rparr>"] c assms(2) by simp_all
    have "marked ?s' = marked ?s"
      by (simp add: marked_def fun_eq_iff)
    then have m: "marked ?s' = marked s"
      using r(2) by simp
    have "idle ?s'"
      using r(1) by (simp add: idle_def waiting_def synced_def)
    moreover have "abs_receiver ?s' = (abs_receiver s)\<lparr>a_ts := p_ts q\<rparr>"
      using m by (simp add: abs_receiver_def) (simp add: put_slot_def)
    ultimately have "opened_with win (segment_of q) ?s'"
      using c False seg out by (simp add: opened_with_def idle_def acks_ok_def) (simp add: put_slot_def)
    then show ?thesis
      using run by (intro exI [of _ ?s']) (simp add: put_slot_def)
  next
    case True
    have "whole_pkt q"
      using True assms(4) by (simp add: whole_pkt_def valid_segment_def segment_of_def)
    then obtain s1 where s1: "process_incoming_pkt ?i (put_slot s ?i q) = Inr (0, s1)" "synced s1"
      "marked s1 = (marked s)(0 \<mapsto> segment_of q)"
      "r_expected_seq s1 = r_expected_seq s + of_nat (ones (r_oos_mask s1))"
      "r_last_ts s1 = p_ts q" "in_frame s (e_rx s) s1" "used (r_buf s1) = used (r_buf s)"
      using process_in_sequence [of s q] c assms(2,3) by auto
    note f1 = in_frameD [OF s1(6)]
    have o: "ones (r_oos_mask s1) = 1"
      using all_in_sequence [OF s1(2)] s1(3,7) c by simp
    have "(abs_receiver s1)\<lparr>a_next := r_expected_seq s1 - of_nat (ones (r_oos_mask s1))\<rparr> =
        (abs_receiver s)\<lparr>a_ts := p_ts q, a_store := [0 \<mapsto> segment_of q]\<rparr>"
      using s1(3-5) f1 c by (simp add: abs_receiver_def)
    then have "received s1 = took_first win (segment_of q)"
      unfolding received_def seg(2) [symmetric]
      using deliver_first [of "(a_init win)\<lparr>a_ts := p_ts q, a_store := [0 \<mapsto> segment_of q]\<rparr>" "segment_of q" win] c seg
      by (simp add: a_init_def)
    then have "opened_with win (segment_of q) s1"
      using c s1(2,4) o f1 True seg out by (simp add: opened_with_def acks_ok_def)
    then show ?thesis
      using s1(1) f1(2) by blast
  qed
qed

lemma opened_need: "opened_with win seg (r\<lparr>r_need_ack := b\<rparr>) = opened_with win seg r"
  by (simp add: opened_with_def acks_ok_def)

lemma unblock_flags:
  obtains err f where "unblock_out_file get_ok set_ok addr s = (err, s\<lparr>r_fd_flags := f\<rparr>)"
proof -
  have "unblock_out_file get_ok set_ok addr s = (fst (unblock_out_file get_ok set_ok addr s),
      s\<lparr>r_fd_flags := r_fd_flags (snd (unblock_out_file get_ok set_ok addr s))\<rparr>)"
    by (simp add: unblock_out_file_def sys_fcntl_def Let_def)
  then show thesis
    by (rule that)
qed

lemma open_step:
  assumes "pktbuf_new True 32 = Inr (Some buf)" and "win \<le> 31" and "e_wr e = []"
  shows "case receive_open crc unblock (receiver_init win buf e) of Inl f \<Rightarrow> f = Blocked
    | Inr (ph, r) \<Rightarrow> e_tx r = e_tx e \<and>
        (ph = Rx_end (- ECONNABORTED) \<and> r_out r = [] \<or>
         ph = Rx_loop True \<and> (\<exists>src d seg. Rx src d \<in> set (e_rx e) \<and> datagram_of crc seg (take 528 d) \<and>
           s_seq seg = 0 \<and> opened_with win seg r))"
proof -
  let ?s = "receiver_init win buf e"
  obtain b where b: "pktbuf_enqueue buf = (slot_index b 0, b)" "wf_buf b" "cap b = 32" "used b = 1" "items b = [pkt_zero]"
    "slot b (slot_index b 0) = pkt_zero"
    using first_slot [OF assms(1)] by blast
  obtain get_ok set_ok addr where u: "unblock = (get_ok, set_ok, addr)"
    by (metis prod_cases3)
  obtain err f where uf: "unblock_out_file get_ok set_ok addr ?s = (err, ?s\<lparr>r_fd_flags := f\<rparr>)"
    by (rule unblock_flags)
  let ?i = "slot_index b 0" and ?s1 = "?s\<lparr>r_fd_flags := f, r_buf := b\<rparr>"
  have buf: "r_buf (?s\<lparr>r_fd_flags := f\<rparr>) = buf" "e_rx ?s1 = e_rx e" "e_tx ?s1 = e_tx e" "r_out (?s\<lparr>r_fd_flags := f\<rparr>) = []"
    "e_tx (?s\<lparr>r_fd_flags := f\<rparr>) = e_tx e"
    by (simp_all add: receiver_init_def)
  show ?thesis
  proof (cases "err = 0")
    case False
    then show ?thesis
      using u uf buf by (simp add: receive_open_def Let_def)
  next
    case True
    have open_eq: "receive_open crc unblock ?s =
      rbind (net_wait_and_connect crc pkt_zero 0 ?s1) (\<lambda>(err, pkt, s).
      if err \<noteq> NET_OK then Inr (Rx_end (- ECONNABORTED), put_slot s ?i pkt)
      else rbind (process_incoming_pkt ?i (put_slot s ?i pkt)) (\<lambda>(_, s). Inr (Rx_loop True, s\<lparr>r_need_ack := True\<rparr>)))"
      using u uf buf(1) b(1,6) True by (simp add: receive_open_def Let_def buf_slot_def)
    have w: "case net_wait_and_connect crc pkt_zero 0 ?s1 of Inl f \<Rightarrow> f = Blocked
      | Inr (st, q, e') \<Rightarrow> (\<exists>evs p. e' = ?s1\<lparr>e_rx := evs, e_peer := p\<rparr>) \<and>
        (st = NET_OK \<longrightarrow> wf_pkt q \<and> p_seq q = 0 \<and>
          (\<exists>src d. Rx src d \<in> set (e_rx e) \<and> datagram_of crc (segment_of q) (take 528 d)))"
      using wait_loop_accepts [OF wf_pkt_zero, where e = ?s1] unfolding net_wait_and_connect_def Let_def buf(2) .
    show ?thesis
    proof (cases "net_wait_and_connect crc pkt_zero 0 ?s1")
      case (Inl f)
      then show ?thesis
        using w open_eq by simp
    next
      case (Inr x)
      obtain st q s2 where x: "x = (st, q, s2)"
        by (metis prod_cases3)
      then obtain evs p where s2: "s2 = ?s1\<lparr>e_rx := evs, e_peer := p\<rparr>"
        using w Inr by auto
      then have f2: "e_tx s2 = e_tx e" "r_out s2 = []" "r_buf s2 = b"
        "s2 = ?s\<lparr>e_rx := evs, e_peer := p, r_buf := b, r_fd_flags := f\<rparr>"
        by (simp_all add: receiver_init_def)
      show ?thesis
      proof (cases "st = NET_OK")
        case False
        then show ?thesis
          using open_eq Inr x f2 by (simp add: put_slot_def)
      next
        case True
        then obtain src d where q: "wf_pkt q" "p_seq q = 0" "Rx src d \<in> set (e_rx e)"
          "datagram_of crc (segment_of q) (take 528 d)"
          using w Inr x by auto
        have "connected win s2"
          unfolding f2(4) by (rule connected_init [OF b(2-5) assms(2,3)])
        moreover have "valid_segment (segment_of q)"
          using q(4) by (simp add: datagram_of_def)
        ultimately obtain s3 where s3: "process_incoming_pkt ?i (put_slot s2 ?i q) = Inr (0, s3)"
          "opened_with win (segment_of q) s3" "e_tx s3 = e_tx s2"
          using process_first [of win s2 q] q(1,2) f2(3) by auto
        have "receive_open crc unblock ?s = Inr (Rx_loop True, s3\<lparr>r_need_ack := True\<rparr>)"
          using open_eq Inr x True s3(1) by simp
        moreover have "s_seq (segment_of q) = 0"
          using q(2) by (simp add: segment_of_def)
        ultimately show ?thesis
          using s3(2,3) q(3,4) f2(1) opened_need by auto
      qed
    qed
  qed
qed

section \<open>Its type\<close>

lemma not_data: "valid_segment seg \<Longrightarrow> s_type seg \<noteq> 1 \<Longrightarrow> s_tr seg = 0 \<and> s_data seg = []"
  by (simp add: valid_segment_def)

text \<open>
  C22. The type of the first packet is not checked: when the first datagram is any well-formed
  acknowledgement or negative acknowledgement with sequence number 0 from anyone, it is stored
  as chunk 0 and, holding no data, taken for the end of the file. If nothing more comes,
  \<open>receive\<close> acknowledges it, writes nothing, and returns 0, as after a transfer that succeeded.
\<close>

theorem first_packet_unchecked:
  assumes "pktbuf_new True 32 = Inr (Some buf)" and "win \<le> 31"
    and "e_wr e = []" and "e_connect e = 0" and "e_rx e = Rx src d # evs"
    and "datagram_of crc seg (take 528 d)" and "s_type seg \<noteq> 1" and "s_seq seg = 0"
  shows "\<exists>r. receive crc (True, True, addr) [Poll_ready file_ev False, Poll_timeout] (receiver_init win buf e) = Inr (0, r) \<and>
    r_out r = [] \<and> e_tx r = e_tx e @ [wire_of crc (answer 2 1 (s_ts seg) win)]"
proof -
  let ?polls = "[Poll_ready file_ev False, Poll_timeout]"
  have seg: "s_tr seg = 0" "s_data seg = []"
    using not_data [of seg] assms(6,7) by (simp_all add: datagram_of_def)
  obtain s q where s: "receive crc (True, True, addr) ?polls (receiver_init win buf e) =
      rbind (process_incoming_pkt (slot_index (r_buf s) 0) (put_slot s (slot_index (r_buf s) 0) q)) (\<lambda>(_, s).
      rbind (receive_loop crc True ?polls (s\<lparr>r_need_ack := True\<rparr>)) (\<lambda>(ok, polls, s).
      if \<not> ok then Inr (- ECONNABORTED, s) else linger_loop crc 0 polls s))"
    "connected win s" "e_tx s = e_tx e" "wf_pkt q" "whole_pkt q" "p_seq q = 0" "segment_of q = seg"
    using receive_connected [OF assms(1-6) seg(1) assms(8), of addr ?polls] by blast
  obtain s1 s2 where s2: "process_incoming_pkt (slot_index (r_buf s) 0) (put_slot s (slot_index (r_buf s) 0) q) =
      Inr (0, s1)"
    "receive_ready crc file_ev False (s1\<lparr>r_need_ack := True\<rparr>) = Inr (True, False, s2)"
    "abs_receiver s2 = took_first win seg"
    "e_tx s2 = e_tx s @ [wire_of crc (answer 2 (a_next (took_first win seg)) (p_ts q) win)]" "used (r_buf s2) = 0"
    using receive_whole_first [OF s(2,4-6), of crc file_ev] unfolding s(7) by blast
  have "a_last (abs_receiver s2) = 0" "a_out (abs_receiver s2) = []" "a_next (took_first win seg) = 1"
    using s2(3) seg(2) by (simp_all add: took_first_def)
  then have f: "r_last_written_len s2 = 0" "r_out s2 = []" "e_tx s2 = e_tx e @ [wire_of crc (answer 2 1 (s_ts seg) win)]"
    using s2(4) s(3,7) by (auto simp: segment_of_def)
  have "receive_loop crc True ?polls (s1\<lparr>r_need_ack := True\<rparr>) = Inr (True, [Poll_timeout], clear_needs s2)"
    using loop_go [of crc True file_ev False _ s2 "[Poll_timeout]"] s2(2,5) f(1)
    by (simp add: loop_next_def clear_needs_def used_eq_0)
  then show ?thesis
    using s(1) s2(1) f(2,3) by (intro exI [of _ "clear_needs s2"]) (simp add: clear_needs_def)
qed

text \<open>An acknowledgement of another transfer.\<close>

definition stray_ack :: segment where
  "stray_ack = answer 2 0 7 31"

lemma stray_ack_datagram: "datagram_of crc stray_ack (take 528 (wire_of crc stray_ack))"
  by (simp add: datagram_of_def stray_ack_def valid_segment_def answer_def length_wire_of)

theorem first_packet_unchecked_witness:
  "\<exists>buf r. pktbuf_new True 32 = Inr (Some buf) \<and>
    receive demo_crc (True, True, 0) [Poll_ready True False, Poll_timeout]
      (receiver_init 31 buf (demo_env\<lparr>e_rx := [Rx [] (wire_of demo_crc stray_ack)]\<rparr>)) = Inr (0, r) \<and> r_out r = []"
proof -
  obtain buf where buf: "pktbuf_new True 32 = Inr (Some buf)"
    using new_buffers(2) by blast
  let ?e = "demo_env\<lparr>e_rx := [Rx [] (wire_of demo_crc stray_ack)]\<rparr>"
  have e: "e_wr ?e = []" "e_connect ?e = 0" "e_rx ?e = [Rx [] (wire_of demo_crc stray_ack)]"
    by (simp_all add: demo_env_def)
  have w: "(31 :: u32) \<le> 31" and seg: "s_type stray_ack \<noteq> 1" "s_seq stray_ack = 0"
    by (simp_all add: stray_ack_def answer_def)
  obtain r where "receive demo_crc (True, True, 0) [Poll_ready True False, Poll_timeout] (receiver_init 31 buf ?e) = Inr (0, r)"
    "r_out r = []"
    using first_packet_unchecked [OF buf w e stray_ack_datagram seg, of 0 True] by blast
  then show ?thesis
    using buf by blast
qed

end
