(* ===== verification/System_Receiver.thy ===== *)
theory System_Receiver
  imports System_Sender Receiver_Open
begin

text \<open>
  The receiver's side of the system: what a step of the receiver keeps, and what it adds to the
  network.
\<close>

unbundle bit_operations_syntax

declare nth_items [simp del]

section \<open>What arrives\<close>

text \<open>Two numbers less than 256 apart with the same sequence number are equal.\<close>

lemma no_alias:
  assumes "of_nat i = (of_nat j :: u8)" and "i < j + 256" and "j < i + 256"
  shows "i = j"
proof -
  have m: "i mod 256 = j mod 256"
    using arg_cong [OF assms(1), of unat] by (simp add: unat_of_nat)
  have "k \<le> l \<Longrightarrow> k mod 256 = l mod 256 \<Longrightarrow> l < k + 256 \<Longrightarrow> k = l" for k l :: nat
    using mod_eq_dvd_iff_nat [of k l 256] dvd_imp_le [of 256 "l - k"] by fastforce
  then show ?thesis
    using m assms(2,3) by (metis nat_le_linear)
qed

lemma data_arrival:
  assumes "data_log crc fs c now log" and "data_arrives crc K now log (Rx src d)"
    and "small fs" and "now \<le> Suc (length fs)" and "datagram_of crc seg (take 528 d)" and "s_tr seg = 0"
  shows "\<exists>i. seg = file_segment fs i \<and> i < now \<and> now \<le> i + c + K"
proof -
  obtain t where t: "(t, wire_of crc seg) \<in> set log" "now \<le> t + K"
    using assms(2,5,6) by (auto simp: data_arrives_def young_def)
  then obtain i where i: "wire_of crc seg = wire_of crc (file_segment fs i)" "i < now" "t \<le> i + c"
    using assms(1) unfolding data_log_def by blast
  have "list_all (\<lambda>b. length b \<le> 512) fs"
    using assms(3) by (auto simp: list_all_iff)
  then have "valid_segment (file_segment fs i)" "valid_segment seg"
    using i(2) assms(4,5) by (auto intro: file_segment_valid simp: datagram_of_def)
  then show ?thesis
    using i t(2) wire_of_inject [OF i(1)] by (intro exI [of _ i]) simp
qed

text \<open>Of the chunks that can still arrive, no two share a sequence number of the window.\<close>

lemma arrival_number:
  assumes "unat (of_nat i - of_nat n :: u8) \<le> 31" and "i < now" and "now \<le> i + 224"
    and "n \<le> now" and "now \<le> n + 224"
  shows "i = n + unat (of_nat i - of_nat n :: u8)"
  using assms by (intro no_alias) simp_all

text \<open>
  Sequence numbers are not mistaken for each other when no datagram is too old, or when the file
  is too short for them to come round.
\<close>

definition numbers_fit :: "nat \<Rightarrow> nat \<Rightarrow> byte list list \<Rightarrow> bool" where
  "numbers_fit c K fs \<longleftrightarrow> c + K \<le> 224 \<or> length fs \<le> 223"

lemma numbers_fitI: "c + K \<le> 224 \<Longrightarrow> numbers_fit c K fs"
  by (simp add: numbers_fit_def)

lemma numbers_fit_short: "length fs \<le> 223 \<Longrightarrow> numbers_fit c K fs"
  by (simp add: numbers_fit_def)

lemma numbers_fitD:
  assumes "numbers_fit c K fs" and "now \<le> Suc (length fs)"
  shows "now \<le> i + c + K \<Longrightarrow> now \<le> i + 224" and "now \<le> i + c \<Longrightarrow> now \<le> i + 224"
  using assms by (auto simp: numbers_fit_def)

lemma arrival_genuine:
  assumes "data_log crc fs c now log" and "data_arrives crc K now log (Rx src d)"
    and "small fs" and "now \<le> Suc (length fs)" and "numbers_fit c K fs" and "now \<le> n + c"
    and "delivering_below fs now n a" and "a_next a = of_nat n" and "carries crc d cs"
  shows "case cs of
      Some seg \<Rightarrow> a_accepts a seg \<and> s_tr seg = 0 \<longrightarrow>
        n + unat (s_seq seg - a_next a) < now \<and> s_data seg = chunk fs (n + unat (s_seq seg - a_next a))
    | None \<Rightarrow> True"
proof (cases cs)
  case (Some seg)
  have "n + unat (s_seq seg - a_next a) < now \<and> s_data seg = chunk fs (n + unat (s_seq seg - a_next a))"
    if seg: "a_accepts a seg" "s_tr seg = 0"
  proof -
    have "datagram_of crc seg (take 528 d)"
      using assms(9) Some by (simp add: carries_def)
    then obtain i where i: "seg = file_segment fs i" "i < now" "now \<le> i + c + K"
      using data_arrival [OF assms(1-4) _ seg(2)] by blast
    have sq: "s_seq seg - a_next a = of_nat i - of_nat n" "s_data seg = chunk fs i"
      using assms(8) i(1) by (simp_all add: file_segment_def chunk_segment_def)
    have w: "n \<le> now" "unat (ucast (a_window a) :: u8) \<le> 31"
      using assms(7) by (simp_all add: delivering_below_def word_le_nat_alt unat_ucast_down_u8)
    have "unat (of_nat i - of_nat n :: u8) \<le> 31"
      using seg(1) w(2) sq(1) by (simp add: a_accepts_def word_le_nat_alt)
    then have "i = n + unat (of_nat i - of_nat n :: u8)"
      using i(2) numbers_fitD(1) [OF assms(5,4) i(3)] w(1) numbers_fitD(2) [OF assms(5,4,6)] by (rule arrival_number)
    then show ?thesis
      using i(2) sq by simp
  qed
  then show ?thesis
    using Some by simp
qed simp

section \<open>Reading the socket\<close>

text \<open>\<open>n\<close> chunks are delivered, or will be when the buffer is emptied.\<close>

definition loop_ok :: "byte list list \<Rightarrow> nat \<Rightarrow> nat \<Rightarrow> receiver \<Rightarrow> bool" where
  "loop_ok fs now n r \<longleftrightarrow> synced r \<and> acks_ok r \<and> e_wr r = [] \<and> r_out_results r = [] \<and>
     delivering_below fs now n (received r) \<and> a_next (received r) = of_nat n"

text \<open>The first chunk, which came when the socket was connected, is not written yet.\<close>

definition first_waits :: "receiver \<Rightarrow> bool" where
  "first_waits r \<longleftrightarrow> synced r \<and> ones (r_oos_mask r) = 1 \<and> r_expected_seq r = 1 \<and> r_out r = []"

definition only_first :: "crc_fun \<Rightarrow> byte list list \<Rightarrow> log \<Rightarrow> bool" where
  "only_first crc fs log \<longleftrightarrow> (\<forall>t w. (t, w) \<in> set log \<longrightarrow> w = wire_of crc (file_segment fs 0))"

lemma deliver_ts: "a_deliver n (a\<lparr>a_ts := t\<rparr>) = (a_deliver n a)\<lparr>a_ts := t\<rparr>"
proof (induction n arbitrary: a)
  case (Suc n)
  show ?case
  proof (cases "a_store a 0")
    case (Some seg)
    let ?b = "a\<lparr>a_next := a_next a + 1, a_store := \<lambda>j. a_store a (Suc j),
      a_out := a_out a @ s_data seg, a_last := int (length (s_data seg))\<rparr>"
    have "a_deliver (Suc n) (a\<lparr>a_ts := t\<rparr>) = a_deliver n (?b\<lparr>a_ts := t\<rparr>)"
      using Some by (cases a) simp
    then show ?thesis
      using Suc.IH [of ?b] Some by simp
  qed simp
qed simp

lemma delivering_ts [simp]: "delivering_below fs N n (a\<lparr>a_ts := t\<rparr>) = delivering_below fs N n a"
  by (simp add: delivering_below_def)

lemma received_pending:
  assumes "marked r1 = marked r" and "r_oos_mask r1 = r_oos_mask r" and "r_expected_seq r1 = r_expected_seq r"
    and "in_frame r evs r1"
  shows "received r1 = (received r)\<lparr>a_ts := r_last_ts r1\<rparr>"
proof -
  have "(abs_receiver r1)\<lparr>a_next := r_expected_seq r1 - of_nat (ones (r_oos_mask r1))\<rparr> =
      ((abs_receiver r)\<lparr>a_next := r_expected_seq r - of_nat (ones (r_oos_mask r))\<rparr>)\<lparr>a_ts := r_last_ts r1\<rparr>"
    using assms(1-3) in_frameD [OF assms(4)] by (simp add: abs_receiver_def)
  then show ?thesis
    by (simp only: received_def deliver_ts)
qed

lemma failing_read:
  assumes "pktbuf_slotfor_seq (r_buf r) (r_expected_seq r) = Inr (i, b)"
  shows "e_rx r = [] \<Longrightarrow> do_read_sock crc r = Inl Blocked"
    and "e_rx r = Rx_error # evs \<Longrightarrow> \<exists>err r1. do_read_sock crc r = Inr (err, r1) \<and> err \<noteq> 0 \<and>
      r_out r1 = r_out r \<and> e_tx r1 = e_tx r"
  using assms
  by (auto simp: do_read_sock_def do_receive_data_def Let_def discard_incoming_data_def net_recv_pkt_def
      net_recvfrom_def sys_recv_def put_slot_def)

lemma read_ok:
  assumes "loop_ok fs now n r" and "idle r \<or> first_waits r \<and> only_first crc fs log"
    and "list_all (data_arrives crc K now log) (e_rx r)"
    and "data_log crc fs c now log" and "small fs" and "now \<le> Suc (length fs)" and "numbers_fit c K fs" and "now \<le> n + c"
  shows "case do_read_sock crc r of Inl f \<Rightarrow> f = Blocked
    | Inr (err, r1) \<Rightarrow> r_out r1 = r_out r \<and> e_tx r1 = e_tx r \<and> (err = 0 \<longrightarrow> (\<exists>n1 \<ge> n. loop_ok fs now n1 r1))"
proof -
  note l = assms(1) [unfolded loop_ok_def]
  have fw: "bit (r_oos_mask r) 0" "ones (r_oos_mask r) < 32" if "first_waits r"
    using that bit_less_ones [of 0 "r_oos_mask r"] by (simp_all add: first_waits_def)
  obtain i b where b: "pktbuf_slotfor_seq (r_buf r) (r_expected_seq r) = Inr (i, b)"
  proof (cases "idle r")
    case True
    then show ?thesis
      using reserve_expected [of r] that by (auto simp: idle_def)
  next
    case False
    then have "first_waits r"
      using assms(2) by blast
    then show ?thesis
      using reserve_behind [OF _ fw] l that by blast
  qed
  show ?thesis
  proof (cases "e_rx r")
    case Nil
    then show ?thesis
      using failing_read(1) [OF b] by simp
  next
    case (Cons ev evs)
    show ?thesis
    proof (cases ev)
      case Rx_error
      then show ?thesis
        using failing_read(2) [OF b, of evs crc] Cons by auto
    next
      case (Rx src d)
      note rx = Cons [unfolded Rx]
      have arr: "data_arrives crc K now log (Rx src d)"
        using assms(3) rx by simp
      from assms(2) show ?thesis
      proof
        assume idle: "idle r"
        then have rec: "received r = abs_receiver r"
          by (rule received_idle)
        obtain cs where cs: "carries crc d cs"
          using ex_carries by blast
        obtain r1 where r1: "do_read_sock crc r = Inr (0, r1)" "synced r1" "in_frame r evs r1"
          "received r1 = a_event cs (abs_receiver r)"
          using read_sock_step [OF idle rx cs] by blast
        let ?a = "abs_receiver r" and ?b = "a_event cs (abs_receiver r)"
        have a: "delivering_below fs now n ?a" "a_next ?a = of_nat n"
          using l rec by auto
        have "delivering_below fs now (n + unat (a_next ?b - a_next ?a)) ?b"
          using event_step [OF a(1) arrival_genuine [OF assms(4) arr assms(5-8) a cs]] .
        moreover have "a_next ?b = of_nat (n + unat (a_next ?b - a_next ?a))"
          using a(2) by simp
        ultimately have "loop_ok fs now (n + unat (a_next ?b - a_next ?a)) r1"
          using l r1(2,4) in_frameD [OF r1(3)] by (simp add: loop_ok_def acks_ok_def)
        then have "\<exists>n1 \<ge> n. loop_ok fs now n1 r1"
          by (intro exI [of _ "n + unat (a_next ?b - a_next ?a)"]) simp
        then show ?thesis
          using r1(1) in_frameD(2,6) [OF r1(3)] by simp
      next
        assume first: "first_waits r \<and> only_first crc fs log"
        show ?thesis
        proof (cases "rbuf_full r")
          case True
          then have "do_read_sock crc r = Inr (0, r\<lparr>e_rx := evs\<rparr>)"
            using rx by (simp add: do_read_sock_def discard_incoming_data_def sys_recv_def)
          moreover have "received (r\<lparr>e_rx := evs\<rparr>) = received r"
            by (simp add: received_def abs_receiver_def)
          ultimately show ?thesis
            using l by (auto simp: loop_ok_def acks_ok_def)
        next
          case False
          have mw: "0 < unat (r_max_window r)" "unat (r_max_window r) \<le> 31"
            using False syncedD(3) [of r] l by (auto simp: rbuf_full_def word_le_nat_alt unat_gt_0)
          have win: "window_size r = r_max_window r - 1"
            using first by (simp add: window_size_eq first_waits_def)
          have "unat (r_max_window r - 1) = unat (r_max_window r) - 1"
            using mw(1) by (simp add: unat_sub_if' unat_1)
          then have w: "unat (ucast (window_size r) :: u8) \<le> 30"
            using mw win by (simp add: unat_ucast_down_u8)
          have "\<not> s_seq seg - r_expected_seq r \<le> ucast (window_size r)"
            if seg: "datagram_of crc seg (take 528 d)" "s_tr seg = 0" for seg
          proof -
            obtain t where "(t, wire_of crc seg) \<in> set log"
              using arr seg by (auto simp: data_arrives_def young_def)
            then have "wire_of crc seg = wire_of crc (file_segment fs 0)"
              using first by (auto simp: only_first_def)
            then have "s_seq seg = 0"
              by (simp add: wire_of_def wire_header_def file_segment_def chunk_segment_def)
            moreover have "unat (- 1 :: u8) = 255"
              by (simp add: unsigned_minus_1_eq_mask mask_eq_exp_minus_1)
            ultimately show ?thesis
              using w first by (simp add: word_le_nat_alt first_waits_def)
          qed
          then obtain r1 where r1: "do_receive_data crc r = Inr (0, r1)" "synced r1" "in_frame r evs r1"
            "marked r1 = marked r" "r_oos_mask r1 = r_oos_mask r" "r_expected_seq r1 = r_expected_seq r"
            using pending_read [OF _ fw rx, of crc] first by (auto simp: first_waits_def)
          have "received r1 = (received r)\<lparr>a_ts := r_last_ts r1\<rparr>"
            using received_pending [OF r1(4-6,3)] .
          then have "loop_ok fs now n r1"
            using l r1(2) in_frameD [OF r1(3)] by (simp add: loop_ok_def acks_ok_def)
          then show ?thesis
            using r1(1) in_frameD [OF r1(3)] False by (auto simp: do_read_sock_def)
        qed
      qed
    qed
  qed
qed

section \<open>A round of the main loop\<close>

text \<open>What the network may hold of the receiver's: its acknowledgements never exceed what it has delivered.\<close>

definition ack_log :: "crc_fun \<Rightarrow> nat \<Rightarrow> nat \<Rightarrow> log \<Rightarrow> bool" where
  "ack_log crc c n log \<longleftrightarrow>
     (\<forall>t w. (t, w) \<in> set log \<longrightarrow> (\<exists>seg. w = wire_of crc seg \<and> valid_segment seg \<and>
        (s_type seg = ucast PTYPE_ACK \<longrightarrow> (\<exists>m. s_seq seg = of_nat m \<and> m \<le> n \<and> t \<le> m + c))))"

lemma ack_log_mono: "ack_log crc c n log \<Longrightarrow> n \<le> n' \<Longrightarrow> ack_log crc c n' log"
  unfolding ack_log_def by (meson order_trans)

lemma ack_log_append: "ack_log crc c n (log @ log') \<longleftrightarrow> ack_log crc c n log \<and> ack_log crc c n log'"
  unfolding ack_log_def set_append Un_iff by blast

lemma ack_log_Nil [simp]: "ack_log crc c n []"
  by (simp add: ack_log_def)

lemma ack_log_answers:
  assumes "a_next (received r) = of_nat n" and "now \<le> n + c"
  shows "ack_log crc c n (map (Pair now) (map (wire_of crc) (answers r)))"
  unfolding ack_log_def
proof (intro allI impI)
  fix t w
  assume "(t, w) \<in> set (map (Pair now) (map (wire_of crc) (answers r)))"
  then obtain seg where seg: "t = now" "w = wire_of crc seg" "seg \<in> set (answers r)"
    by auto
  then show "\<exists>seg. w = wire_of crc seg \<and> valid_segment seg \<and>
      (s_type seg = ucast PTYPE_ACK \<longrightarrow> (\<exists>m. s_seq seg = of_nat m \<and> m \<le> n \<and> t \<le> m + c))"
    using assms by (intro exI [of _ seg]) (auto simp: answers_def Let_def answer_def valid_segment_def split: if_splits)
qed

text \<open>Where the receiver is, with \<open>n\<close> chunks written.\<close>

definition rx_ok :: "receiver \<Rightarrow> byte list list \<Rightarrow> nat \<Rightarrow> nat \<Rightarrow> rx_phase \<Rightarrow> receiver \<Rightarrow> bool" where
  "rx_ok r0 fs now n ph r \<longleftrightarrow> n \<le> now \<and>
     (case ph of
        Rx_open \<Rightarrow> r = r0 \<and> n = 0
      | Rx_loop both \<Rightarrow> idle r \<and> loop_ok fs now n r \<or> n = 0 \<and> first_waits r \<and> loop_ok fs now 1 r
      | Rx_linger retry \<Rightarrow> acks_ok r \<and> e_wr r = [] \<and> r_expected_seq r = of_nat n \<and>
          r_out r = concat (take n fs) \<and> r_out r = concat fs
      | Rx_end ret \<Rightarrow> r_out r = concat (take n fs) \<and> (ret = 0 \<longrightarrow> r_out r = concat fs))"

lemma not_first: "idle r \<Longrightarrow> \<not> first_waits r"
  using ones_0_iff [of "r_oos_mask r"] by (simp add: first_waits_def idle_def)

lemma loop_ok_out:
  assumes "loop_ok fs now n r" and "idle r" and "now \<le> Suc (length fs)"
  shows "r_out r = concat (take n fs)" "r_last_written_len r = 0 \<Longrightarrow> [] \<notin> set fs \<Longrightarrow> r_out r = concat fs"
    "r_expected_seq r = of_nat n"
proof -
  have d: "delivering fs n (abs_receiver r)"
    using assms received_idle [OF assms(2)] by (auto simp: loop_ok_def intro: delivering_mono)
  show "r_out r = concat (take n fs)"
    using delivering_out [OF d] by simp
  show "r_out r = concat fs" if "r_last_written_len r = 0" "[] \<notin> set fs"
    using delivering_done [OF d that(2)] that(1) by simp
  show "r_expected_seq r = of_nat n"
    using assms(1) received_idle [OF assms(2)] by (simp add: loop_ok_def)
qed

lemma finish_ok:
  assumes "loop_ok fs now n1 r1"
  shows "\<exists>s'. rbind (if file_ev \<or> can_empty_rbuf r1 then do_empty_rbuf r1 else Inr (0, r1)) (\<lambda>(err, s).
      if err \<noteq> 0 then Inr (False, True, s) else
      rbind (if r_need_ack s then send_ack crc s else Inr (NET_OK, s)) (\<lambda>(err, s).
      if err \<noteq> NET_OK then Inr (False, True, s) else
      rbind (if r_need_nack s then send_nack crc (r_nack_seq s) s else Inr (NET_OK, s)) (\<lambda>(err, s).
      if err \<noteq> NET_OK then Inr (False, True, s) else Inr (True, can_empty_rbuf s, s)))) = Inr (True, False, s') \<and>
    idle (clear_needs s') \<and> loop_ok fs now n1 (clear_needs s') \<and>
    e_tx s' = e_tx r1 @ map (wire_of crc) (answers r1)"
proof -
  note l = assms [unfolded loop_ok_def]
  obtain s' where s': "rbind (if file_ev \<or> can_empty_rbuf r1 then do_empty_rbuf r1 else Inr (0, r1)) (\<lambda>(err, s).
      if err \<noteq> 0 then Inr (False, True, s) else
      rbind (if r_need_ack s then send_ack crc s else Inr (NET_OK, s)) (\<lambda>(err, s).
      if err \<noteq> NET_OK then Inr (False, True, s) else
      rbind (if r_need_nack s then send_nack crc (r_nack_seq s) s else Inr (NET_OK, s)) (\<lambda>(err, s).
      if err \<noteq> NET_OK then Inr (False, True, s) else Inr (True, can_empty_rbuf s, s)))) = Inr (True, False, s')"
    "keeping_up (clear_needs s')" "abs_receiver s' = received r1" "e_tx s' = e_tx r1 @ map (wire_of crc) (answers r1)"
    using finish_round [of r1 file_ev crc] l by blast
  have k: "idle (clear_needs s')" "acks_ok (clear_needs s')" "e_wr (clear_needs s') = []"
    "r_out_results (clear_needs s') = []"
    using s'(2) by (simp_all add: keeping_up_def)
  have "received (clear_needs s') = received r1"
    using received_idle [OF k(1)] s'(3) by (simp add: clear_needs_def)
  then have "loop_ok fs now n1 (clear_needs s')"
    using k l by (simp add: loop_ok_def idle_def)
  then show ?thesis
    using s'(1,4) k(1) by blast
qed

lemma loop_ok_need [simp]: "loop_ok fs now n (r\<lparr>r_need_ack := b\<rparr>) = loop_ok fs now n r"
  by (simp add: loop_ok_def acks_ok_def)

lemma round_ok:
  assumes "rx_ok r0 fs now n (Rx_loop both) r" and "first_waits r \<longrightarrow> only_first crc fs log"
    and "list_all (data_arrives crc K now log) (e_rx r)" and "data_log crc fs c now log"
    and "small fs" and "now \<le> Suc (length fs)" and "numbers_fit c K fs" and "now \<le> n + c"
  shows "case receive_round crc ev both r of Inl f \<Rightarrow> f = Blocked
    | Inr (ph', r') \<Rightarrow> \<exists>n' \<ge> n. rx_ok r0 fs now n' ph' r' \<and>
        ack_log crc c n' (map (Pair now) (written r r')) \<and> (\<forall>both. ph' = Rx_loop both \<longrightarrow> \<not> first_waits r') \<and> ph' \<noteq> Rx_open"
proof -
  have ne: "[] \<notin> set fs"
    using assms(5) by (auto simp: list_all_iff)
  obtain n1 where n1: "n \<le> n1" "loop_ok fs now n1 r" "idle r \<and> n1 = n \<or> n = 0 \<and> n1 = 1 \<and> first_waits r"
    using assms(1) by (auto simp: rx_ok_def)
  have nn: "n \<le> now"
    using assms(1) by (simp add: rx_ok_def)
  have out: "r_out r = concat (take n fs)"
    using n1(3) loop_ok_out(1) [OF n1(2) _ assms(6)] by (auto simp: first_waits_def)
  have stop: "\<exists>n' \<ge> n. rx_ok r0 fs now n' (Rx_end (- ECONNABORTED)) r' \<and>
      ack_log crc c n' (map (Pair now) (written r r')) \<and>
      (\<forall>both. Rx_end (- ECONNABORTED) = Rx_loop both \<longrightarrow> \<not> first_waits r') \<and> Rx_end (- ECONNABORTED) \<noteq> Rx_open" if "r_out r' = r_out r" "e_tx r' = e_tx r" for r'
    using that out nn by (intro exI [of _ n]) (simp add: rx_ok_def written_def ECONNABORTED_def)
  show ?thesis
  proof (cases ev)
    case (Poll_ready file_ev sock_ev)
    let ?read = "if sock_ev then rbind (do_read_sock crc r) (\<lambda>(err, s).
        Inr (err, if err = 0 \<and> \<not> r_need_nack s then s\<lparr>r_need_ack := True\<rparr> else s)) else Inr (0, r)"
    have ready: "case ?read of Inl f \<Rightarrow> f = Blocked
      | Inr (err, r1) \<Rightarrow> r_out r1 = r_out r \<and> e_tx r1 = e_tx r \<and> (err = 0 \<longrightarrow> (\<exists>n2 \<ge> n1. loop_ok fs now n2 r1))"
    proof (cases sock_ev)
      case False
      then show ?thesis
        using n1(2) by auto
    next
      case True
      have i: "idle r \<or> first_waits r \<and> only_first crc fs log" "now \<le> n1 + c"
        using n1 assms(2,8) by auto
      show ?thesis
        using read_ok [OF n1(2) i(1) assms(3-7) i(2)] True by (cases "do_read_sock crc r") auto
    qed
    show ?thesis
    proof (cases ?read)
      case (Inl f)
      then show ?thesis
        using ready Poll_ready by (simp add: receive_round_def receive_ready_def)
    next
      case (Inr x)
      obtain err r1 where x: "x = (err, r1)"
        by (cases x)
      show ?thesis
      proof (cases "err = 0")
        case False
        then have "receive_round crc ev both r = Inr (Rx_end (- ECONNABORTED), r1)"
          using Inr x Poll_ready by (simp add: receive_round_def receive_ready_def)
        then show ?thesis
          using ready Inr x stop [of r1] by simp
      next
        case True
        then obtain n2 where n2: "n1 \<le> n2" "loop_ok fs now n2 r1" "e_tx r1 = e_tx r"
          using ready Inr x by auto
        from finish_ok [OF n2(2), of "both \<and> file_ev" crc] obtain s' where
          s': "receive_ready crc (both \<and> file_ev) sock_ev r = Inr (True, False, s')"
          "idle (clear_needs s')" "loop_ok fs now n2 (clear_needs s')"
          "e_tx s' = e_tx r1 @ map (wire_of crc) (answers r1)"
          unfolding receive_ready_def Inr x True by (auto simp only: rbind_simps prod.case simp_thms if_False)
        let ?ph = "if r_last_written_len s' \<noteq> 0 \<or> \<not> pktbuf_empty (r_buf s') then Rx_loop False else Rx_linger 0"
        have run: "receive_round crc ev both r = Inr (?ph, clear_needs s')"
          using s'(1) Poll_ready by (simp add: receive_round_def clear_needs_def)
        have w: "written r (clear_needs s') = map (wire_of crc) (answers r1)"
          using s'(4) n2(3) by (simp add: written_def clear_needs_def)
        have "ack_log crc c n2 (map (Pair now) (written r (clear_needs s')))"
          unfolding w using n2 n1(1) assms(8) by (intro ack_log_answers) (simp_all add: loop_ok_def)
        moreover have "rx_ok r0 fs now n2 ?ph (clear_needs s')"
          using s'(2,3) loop_ok_out [OF s'(3,2) assms(6)] ne
          by (auto simp: rx_ok_def loop_ok_def clear_needs_def delivering_below_def)
        moreover have "n \<le> n2" "\<forall>both. ?ph = Rx_loop both \<longrightarrow> \<not> first_waits (clear_needs s')"
          "?ph \<noteq> Rx_open"
          using n1(1) n2(1) not_first [OF s'(2)] by simp_all
        ultimately show ?thesis
          unfolding run by (simp only: sum.case prod.case) blast
      qed
    qed
  qed (use stop in \<open>simp_all add: receive_round_def\<close>)
qed

section \<open>The last acknowledgement\<close>

lemma written_after: "written s ((after_write w s)\<lparr>r_ack_pkt := p\<rparr>) = [w]"
  by (simp add: written_def after_write_def)

lemma linger_ok:
  assumes "rx_ok r0 fs now n (Rx_linger retry) r" and "now \<le> n + c"
  shows "case linger_round crc ev retry r of Inl f \<Rightarrow> f = Blocked
    | Inr (ph', r') \<Rightarrow> rx_ok r0 fs now n ph' r' \<and>
        ack_log crc c n (map (Pair now) (written r r')) \<and> (\<forall>both. ph' \<noteq> Rx_loop both) \<and> ph' \<noteq> Rx_open"
proof -
  have l: "acks_ok r" "e_wr r = []" "r_expected_seq r = of_nat n" "r_out r = concat (take n fs)" "r_out r = concat fs"
    "n \<le> now"
    using assms(1) unfolding rx_ok_def rx_phase.case by blast+
  let ?w = "wire_of crc (answer 2 (r_expected_seq r) (r_last_ts r) (window_size r))"
  have "write_ok 12 r"
    using l(2) by (simp add: write_ok_def)
  then obtain r' where r': "send_ack crc r = Inr (NET_OK, r')" "acks_ok r'"
    "r' = (after_write ?w r)\<lparr>r_ack_pkt := r_ack_pkt r'\<rparr>"
    using send_ack_ok [OF l(1)] by blast
  have f: "e_wr r' = []" "r_expected_seq r' = r_expected_seq r" "r_out r' = r_out r"
    using l(2) by (subst r'(3); simp add: after_write_def)+
  have w: "written r r' = [?w]"
    by (subst r'(3)) (rule written_after)
  have "valid_segment (answer 2 (r_expected_seq r) (r_last_ts r) (window_size r))"
    by (simp add: valid_segment_def answer_def)
  then have "ack_log crc c n (map (Pair now) (written r r'))"
    unfolding ack_log_def w using assms(2) l(3)
    by (auto simp: answer_def intro!: exI [of _ "answer 2 (of_nat n) (r_last_ts r) (window_size r)"])
  moreover have "rx_ok r0 fs now n (Rx_linger (retry + 1)) r'"
    using l r'(2) f by (simp add: rx_ok_def)
  ultimately show ?thesis
    using r'(1) l by (auto simp: linger_round_def rx_ok_def written_def ECONNABORTED_def)
qed

section \<open>The opening\<close>

lemma open_ok:
  assumes "rx_ok (receiver_init win buf e) fs now n Rx_open r" and "pktbuf_new True 32 = Inr (Some buf)" and "win \<le> 31"
    and "e_wr e = []" and "list_all (data_arrives crc K now log) evs" and "data_log crc fs c now log"
    and "small fs" and "now \<le> Suc (length fs)" and "numbers_fit c K fs" and "now \<le> n + c"
  shows "case receive_open crc unblock (r\<lparr>e_rx := evs\<rparr>) of Inl f \<Rightarrow> f = Blocked
    | Inr (ph', r') \<Rightarrow> rx_ok (receiver_init win buf e) fs now 0 ph' r' \<and> written r r' = [] \<and> ph' \<noteq> Rx_open"
proof -
  have r: "r = receiver_init win buf e" "n = 0"
    using assms(1) by (simp_all add: rx_ok_def)
  have re: "r\<lparr>e_rx := evs\<rparr> = receiver_init win buf (e\<lparr>e_rx := evs\<rparr>)"
    by (simp add: r(1) receiver_init_def)
  have arr: "\<exists>i. seg = file_segment fs i \<and> i < now \<and> now \<le> i + c + K"
    if "Rx src d \<in> set evs" "datagram_of crc seg (take 528 d)" "s_tr seg = 0" for src d seg
    using that assms(5) data_arrival [OF assms(6) _ assms(7,8)] by (auto simp: list_all_iff)
  have wr: "e_wr (e\<lparr>e_rx := evs\<rparr>) = []" "e_tx (e\<lparr>e_rx := evs\<rparr>) = e_tx r"
    using assms(4) r(1) by (simp_all add: receiver_init_def)
  note o = open_step [OF assms(2,3) wr(1), of crc unblock]
  show ?thesis
  proof (cases "receive_open crc unblock (receiver_init win buf (e\<lparr>e_rx := evs\<rparr>))")
    case (Inl f)
    then show ?thesis
      using o re by simp
  next
    case (Inr x)
    obtain ph' r' where x: "x = (ph', r')"
      by (cases x)
    have w: "written r r' = []"
      using o Inr x wr(2) by (simp add: written_def)
    consider "ph' = Rx_end (- ECONNABORTED)" "r_out r' = []"
      | src d seg where "ph' = Rx_loop True" "Rx src d \<in> set evs" "datagram_of crc seg (take 528 d)"
        "s_seq seg = 0" "opened_with win seg r'"
      using o Inr x by auto
    then have "rx_ok (receiver_init win buf e) fs now 0 ph' r'"
    proof cases
      case 1
      then show ?thesis
        by (simp add: rx_ok_def ECONNABORTED_def)
    next
      case 2
      note ow = 2(5) [unfolded opened_with_def]
      show ?thesis
      proof (cases "s_tr seg = 0")
        case False
        then have "idle r'" "received r' = (a_init win)\<lparr>a_ts := s_ts seg\<rparr>"
          using ow received_idle [of r'] by simp_all
        then have "loop_ok fs now 0 r'"
          using ow assms(3) by (simp add: loop_ok_def) (simp add: delivering_below_def a_init_def)
        then show ?thesis
          using \<open>idle r'\<close> 2(1) by (simp add: rx_ok_def)
      next
        case True
        obtain i where i: "seg = file_segment fs i" "i < now"
          using arr [OF 2(2,3) True] by blast
        have "i = 0"
          using 2(4) i r(2) numbers_fitD(2) [OF assms(9,8,10)] no_alias [of i 0] by (simp add: file_segment_def chunk_segment_def)
        then have seg: "s_data seg = chunk fs 0" "1 \<le> now"
          using i by (simp_all add: file_segment_def chunk_segment_def)
        have rec: "received r' = took_first win seg"
          using ow True by simp
        have "delivering_below fs now 1 (took_first win seg)" "a_next (took_first win seg) = 1"
          using seg assms(3) by (simp_all add: delivering_below_def took_first_def)
        then have "loop_ok fs now 1 r'"
          using ow rec by (simp add: loop_ok_def)
        moreover have "first_waits r'"
          using ow True by (simp add: first_waits_def)
        ultimately show ?thesis
          using 2(1) by (simp add: rx_ok_def)
      qed
    qed
    then show ?thesis
      using o Inr x w re by auto
  qed
qed

section \<open>Any step\<close>

lemma rx_ok_rx:
  "ph \<noteq> Rx_open \<Longrightarrow> rx_ok r0 fs now n ph (r\<lparr>e_rx := evs\<rparr>) = rx_ok r0 fs now n ph r"
proof -
  have rec: "received (r\<lparr>e_rx := evs\<rparr>) = received r"
    by (simp add: received_def abs_receiver_def)
  then show "ph \<noteq> Rx_open \<Longrightarrow> rx_ok r0 fs now n ph (r\<lparr>e_rx := evs\<rparr>) = rx_ok r0 fs now n ph r"
    by (cases ph) (simp_all add: rx_ok_def loop_ok_def idle_def first_waits_def acks_ok_def rec)
qed

lemma written_rx: "written (r\<lparr>e_rx := evs\<rparr>) r' = written r r'"
  by (simp add: written_def)

lemma weaken_result:
  assumes "case m of Inl f \<Rightarrow> f = Blocked | Inr (ph, r) \<Rightarrow> P ph r" and "\<And>ph r. P ph r \<Longrightarrow> Q ph r"
  shows "case m of Inl f \<Rightarrow> f = Blocked | Inr (ph, r) \<Rightarrow> Q ph r"
  using assms by (auto split: sum.splits prod.splits)

lemma rx_step:
  assumes "rx_ok (receiver_init win buf e) fs now n ph r" and "pktbuf_new True 32 = Inr (Some buf)" and "win \<le> 31"
    and "e_wr e = []" and "first_waits r \<and> (\<exists>both. ph = Rx_loop both) \<longrightarrow> only_first crc fs log"
    and "list_all (data_arrives crc K now log) evs" and "data_log crc fs c now log"
    and "small fs" and "now \<le> Suc (length fs)" and "numbers_fit c K fs" and "now \<le> n + c"
  shows "case receive_next crc unblock ev ph (r\<lparr>e_rx := evs\<rparr>) of Inl f \<Rightarrow> f = Blocked
    | Inr (ph', r') \<Rightarrow> \<exists>n' \<ge> n. rx_ok (receiver_init win buf e) fs now n' ph' r' \<and>
        ack_log crc c n' (map (Pair now) (written r r')) \<and> ph' \<noteq> Rx_open \<and>
        (first_waits r' \<and> (\<exists>both. ph' = Rx_loop both) \<longrightarrow> ph = Rx_open \<and> written r r' = [])"
proof -
  have ok: "rx_ok (receiver_init win buf e) fs now n ph (r\<lparr>e_rx := evs\<rparr>)" if "ph \<noteq> Rx_open"
    using assms(1) rx_ok_rx [OF that] by simp
  show ?thesis
  proof (cases ph)
    case Rx_open
    have "n = 0"
      using assms(1) Rx_open by (simp add: rx_ok_def)
    have step: "receive_next crc unblock ev ph (r\<lparr>e_rx := evs\<rparr>) = receive_open crc unblock (r\<lparr>e_rx := evs\<rparr>)"
      by (simp add: receive_next_def Rx_open)
    show ?thesis
      unfolding step
      by (rule weaken_result [OF open_ok [OF assms(1) [unfolded Rx_open] assms(2-4,6-11), of unblock]])
        (use \<open>n = 0\<close> Rx_open in auto)
  next
    case (Rx_loop both)
    have f: "first_waits (r\<lparr>e_rx := evs\<rparr>) \<longrightarrow> only_first crc fs log"
      using assms(5) Rx_loop by (simp add: first_waits_def)
    have a: "list_all (data_arrives crc K now log) (e_rx (r\<lparr>e_rx := evs\<rparr>))"
      using assms(6) by simp
    have step: "receive_next crc unblock ev ph (r\<lparr>e_rx := evs\<rparr>) = receive_round crc ev both (r\<lparr>e_rx := evs\<rparr>)"
      by (simp add: receive_next_def Rx_loop)
    have "rx_ok (receiver_init win buf e) fs now n (Rx_loop both) (r\<lparr>e_rx := evs\<rparr>)"
      using ok Rx_loop by simp
    from round_ok [OF this f a assms(7-11), of ev] show ?thesis
      unfolding step written_rx by (rule weaken_result) blast
  next
    case (Rx_linger retry)
    have step: "receive_next crc unblock ev ph (r\<lparr>e_rx := evs\<rparr>) = linger_round crc ev retry (r\<lparr>e_rx := evs\<rparr>)"
      by (simp add: receive_next_def Rx_linger)
    have "rx_ok (receiver_init win buf e) fs now n (Rx_linger retry) (r\<lparr>e_rx := evs\<rparr>)"
      using ok Rx_linger by simp
    from linger_ok [OF this assms(11), of crc ev] show ?thesis
      unfolding step written_rx by (rule weaken_result) blast
  next
    case (Rx_end ret)
    then show ?thesis
      by (simp add: receive_next_def)
  qed
qed

end
