(* ===== verification/Sender_Faults.thy ===== *)
theory Sender_Faults
  imports System_Sender
begin

text \<open>
  When exactly a round of \<open>transmit\<close> stops the process: the two errors of the code, and a read from
  a socket on which nothing arrives. Nothing else in a round can fail.
\<close>

section \<open>Reading the socket\<close>

text \<open>The third acknowledgement in a row that repeats the last one, when nothing is in the buffer.\<close>

definition third_repeat :: "crc_fun \<Rightarrow> sender \<Rightarrow> bool" where
  "third_repeat crc s \<longleftrightarrow> tx_dup_ack s = 2 \<and> pktbuf_empty (tx_buf s) \<and>
     (\<exists>src d evs seg. e_rx s = Rx src d # evs \<and> datagram_of crc seg (take 528 d) \<and>
        s_type seg = ucast PTYPE_ACK \<and> s_seq seg = tx_last_ack s)"

lemma u8_succ_3: "k + 1 = (3 :: u8) \<longleftrightarrow> k = 2"
  by (metis add_right_cancel numeral_plus_one semiring_norm(5))

lemma dup_ack_fault:
  assumes "sender_inv crc A R s" and "e_wr s = []"
  shows "process_dup_ack ack s = Inl f \<longleftrightarrow> f = Null_deref \<and> tx_dup_ack s = 2 \<and> pktbuf_empty (tx_buf s)"
proof (cases "tx_dup_ack s = 2 \<and> pktbuf_empty (tx_buf s)")
  case True
  then show ?thesis
    by (auto simp: process_dup_ack_def pktbuf_first_def)
next
  case False
  have "process_dup_ack ack s \<noteq> Inl f"
  proof (cases "tx_dup_ack s = 2")
    case True
    then have u: "used (tx_buf s) \<noteq> 0"
      using False used_eq_0 by blast
    then have "A < length R"
      using sender_invD(4) [OF assms(1)] by simp
    let ?s = "s\<lparr>tx_dup_ack := 0\<rparr>"
    have "net_send (slot (tx_buf s) (slot_index (tx_buf s) 0)) ?s =
        Inr (NET_OK, ?s\<lparr>e_tx := e_tx s @ [wire_of crc (chunk_segment A (R ! A))]\<rparr>)"
      using holds_send [of crc A "R ! A" _ ?s] holds_item [OF assms(1), of 0] u assms(2) by simp
    then show ?thesis
      using True pktbuf_first_eq [OF sender_invD(1) [OF assms(1)]] u
      by (simp add: process_dup_ack_def Let_def tx_slot_def)
  next
    case False
    then show ?thesis
      by (simp add: process_dup_ack_def Let_def u8_succ_3)
  qed
  then show ?thesis
    using False by blast
qed

lemma socket_fault:
  assumes "progress crc e input A0 n0 k0 A R s"
  shows "handle_socket_read crc s = Inl f \<longleftrightarrow>
    e_rx s = [] \<and> f = Blocked \<or> third_repeat crc s \<and> f = Null_deref"
proof (cases "e_rx s")
  case Nil
  then show ?thesis
    by (auto simp: third_repeat_def handle_socket_read_def net_recv_pkt_def net_recvfrom_def sys_recv_def)
next
  case (Cons ev evs)
  let ?s = "s\<lparr>tx_retry_count := 0\<rparr>" and ?win = "tx_last_sent s - tx_last_ack s + 1"
  have rx: "e_rx ?s = ev # evs"
    using Cons by simp
  show ?thesis
  proof (cases ev)
    case Rx_error
    then show ?thesis
      using net_recv_pkt_error [of ?s evs crc pkt_zero "tx_last_ack s" ?win] rx Cons
      by (simp add: handle_socket_read_def Let_def third_repeat_def)
  next
    case (Rx src d)
    note rx' = rx [unfolded Rx]
    have third: "third_repeat crc s \<longleftrightarrow> tx_dup_ack s = 2 \<and> pktbuf_empty (tx_buf s) \<and>
        (\<exists>seg. datagram_of crc seg (take 528 d) \<and> s_type seg = ucast PTYPE_ACK \<and> s_seq seg = tx_last_ack s)"
      unfolding third_repeat_def Cons Rx by simp
    show ?thesis
    proof (cases rule: net_recv_pkt_cases [OF wf_pkt_zero rx', of crc "tx_last_ack s" ?win,
          case_names accepted dropped])
      case (dropped q)
      then have "\<not> third_repeat crc s"
        unfolding third by fastforce
      then show ?thesis
        using dropped(1) Cons by (simp add: handle_socket_read_def Let_def)
    next
      case (accepted q)
      let ?s2 = "?s\<lparr>e_rx := evs, tx_last_win := ucast (p_window q)\<rparr>"
      have q: "s_type (segment_of q) = p_type q" "s_seq (segment_of q) = p_seq q"
        by (simp_all add: segment_of_def)
      have run: "handle_socket_read crc s =
          (if p_type q \<noteq> ucast PTYPE_ACK \<and> p_type q \<noteq> ucast PTYPE_NACK then Inr (0, ?s\<lparr>e_rx := evs\<rparr>)
           else if p_type q = ucast PTYPE_NACK then process_nack (p_seq q) ?s2
           else if tx_last_ack ?s2 = p_seq q then process_dup_ack (p_seq q) ?s2
           else Inr (process_ack (p_seq q) ?s2))"
        unfolding handle_socket_read_def Let_def if_last_win using accepted(1) by simp
      have t: "third_repeat crc s \<longleftrightarrow> tx_dup_ack s = 2 \<and> pktbuf_empty (tx_buf s) \<and>
          p_type q = ucast PTYPE_ACK \<and> p_seq q = tx_last_ack s"
        unfolding third using accepted(2) datagram_of_unique q by metis
      have "progress crc e input A0 n0 k0 A R (?s\<lparr>e_rx := evs\<rparr>)"
        using progress_rx [of crc e input A0 n0 k0 A R ?s ev evs] progress_retry [OF assms, of 0] Cons by simp
      moreover have "unat (ucast (p_window q) :: u8) \<le> 31"
        using unsigned_less [of "p_window q", where ?'a = nat] by (simp add: unat_ucast_up)
      ultimately have s2: "progress crc e input A0 n0 k0 A R ?s2"
        by (rule progress_win)
      have n: "process_nack (p_seq q) ?s2 \<noteq> Inl f"
        using nack_progress [OF s2, of "p_seq q"] by auto
      have d: "process_dup_ack (p_seq q) ?s2 = Inl f \<longleftrightarrow> f = Null_deref \<and> tx_dup_ack s = 2 \<and> pktbuf_empty (tx_buf s)"
        using dup_ack_fault [OF progressD(1,2) [OF s2]] by simp
      have types: "ucast PTYPE_ACK \<noteq> (ucast PTYPE_NACK :: 2 word)"
        by simp
      show ?thesis
        unfolding run t using n d types Cons by auto
    qed
  qed
qed

text \<open>This one stops the process in any state.\<close>

lemma third_repeat_crashes:
  assumes "third_repeat crc s"
  shows "transmit_round crc (Poll_events file_ev True) both s = Inl Null_deref"
proof -
  obtain src d evs seg where s: "tx_dup_ack s = 2" "pktbuf_empty (tx_buf s)" "e_rx s = Rx src d # evs"
    "datagram_of crc seg (take 528 d)" "s_type seg = ucast PTYPE_ACK" "s_seq seg = tx_last_ack s"
    using assms unfolding third_repeat_def by blast
  have "handle_socket_read crc s = Inl Null_deref"
    using ack_round [OF s(3-5)] s(1,2,6) by (simp add: process_dup_ack_def pktbuf_first_def)
  then show ?thesis
    by (simp add: transmit_round_def transmit_ready_def)
qed

section \<open>A round\<close>

lemma input_fault:
  assumes "sender_inv crc A R s" and "used (tx_buf s) < cap (tx_buf s)" and "tx_input s \<noteq> []"
  shows "handle_input_read crc s \<noteq> Inl f"
proof (cases "tx_input s")
  case (Cons ev evs)
  then show ?thesis
    using input_step [OF assms(1,2), of _ evs]
    by (cases ev) (auto simp: handle_input_read_def Let_def sys_read_def case_prod_unfold)
qed (use assms(3) in simp)

text \<open>While the sender still polls the file, there is something to read, if only its end.\<close>

lemma file_not_read:
  assumes "progress crc e (file_input fs) A0 n0 k0 A R s" and "small fs" and "may_read True s"
  shows "tx_input s \<noteq> []"
proof
  assume empty: "tx_input s = []"
  note r = progressD(4) [OF assms(1)]
  have "length R = Suc (length fs)"
    using read_chunks(2) [OF r assms(2)] empty by (simp add: chunks_in_def file_input_def)
  then have "R = fs @ [[]]"
    using read_chunks(1) [OF r assms(2)] by simp
  then have "tx_last_in_read s = 0"
    using r by (simp add: read_so_far_def)
  then show False
    using assms(3) by (simp add: may_read_def)
qed

lemma ready_fault:
  assumes "progress crc e (file_input fs) A0 n0 k0 A R s" and "small fs" and "may_read both s"
  shows "transmit_ready crc (both \<and> file_ev) sock_ev s = Inl f \<longleftrightarrow>
    sock_ev \<and> (e_rx s = [] \<and> f = Blocked \<or> third_repeat crc s \<and> f = Null_deref)"
proof (cases "if sock_ev then handle_socket_read crc s else Inr (0, s)")
  case (Inl g)
  then have "sock_ev" "handle_socket_read crc s = Inl g"
    by (simp_all split: if_splits)
  then show ?thesis
    using socket_fault [OF assms(1), of f] by (auto simp: transmit_ready_def)
next
  case (Inr x)
  obtain err s1 where x: "x = (err, s1)"
    by (cases x)
  obtain B where s1: "progress crc e (file_input fs) A0 n0 k0 B R s1" "calmer s s1"
    using Inr x socket_progress [OF assms(1)] assms(1) by (auto split: if_splits)
  have m: "may_read both s1"
    using assms(3) s1(2) by (auto simp: may_read_def calmer_def)
  have "\<not> (sock_ev \<and> (e_rx s = [] \<and> f = Blocked \<or> third_repeat crc s \<and> f = Null_deref))"
    using Inr socket_fault [OF assms(1), of f] by auto
  moreover have "transmit_ready crc (both \<and> file_ev) sock_ev s \<noteq> Inl f"
  proof (cases "both \<and> file_ev")
    case False
    obtain s2 where "do_send_sbuf s1 = Inr (0, s2)"
      using send_progress [OF s1(1)] by blast
    then show ?thesis
      using Inr x unfolding transmit_ready_def if_not_P [OF False] by simp
  next
    case True
    then have r: "may_read True s1" "used (tx_buf s1) < cap (tx_buf s1)" "tx_last_in_read s1 \<noteq> 0"
      using m by (simp_all add: may_read_def)
    obtain err' s2 where s2: "handle_input_read crc s1 = Inr (err', s2)"
      using input_fault [OF progressD(1) [OF s1(1)] r(2) file_not_read [OF s1(1) assms(2) r(1)]]
      by (cases "handle_input_read crc s1") auto
    have "do_send_sbuf s2 \<noteq> Inl f" if ok: "err' = 0"
    proof -
      obtain R' where "progress crc e (file_input fs) A0 n0 k0 B (R @ R') s2"
        using input_progress [OF s1(1) r(2,3)] s2 ok by auto
      then show ?thesis
        using send_progress by fastforce
    qed
    then show ?thesis
      using Inr x s2 unfolding transmit_ready_def if_P [OF True] by (auto simp: rbind_Inl_iff split: if_splits)
  qed
  ultimately show ?thesis
    by blast
qed

lemma expired_fault:
  assumes "progress crc e input A0 n0 k0 A R s"
  shows "transmit_expired both s = Inl f \<longleftrightarrow>
    f = Exit_failure \<and> tx_last_sent s = 255 \<and> tx_retry_count s < 5 \<and> \<not> pktbuf_empty (tx_buf s)"
proof (cases "pktbuf_empty (tx_buf s)")
  case False
  then have u: "used (tx_buf s) \<noteq> 0"
    using used_eq_0 by blast
  show ?thesis
  proof (cases "tx_last_sent s = 255 \<and> tx_retry_count s < 5")
    case True
    then show ?thesis
      using retransmission_at_255 [OF progressD(1,2) [OF assms] _ u] False by (auto simp: transmit_expired_def)
  next
    case no: False
    have "handle_retransmission s \<noteq> Inl f"
    proof (cases "tx_retry_count s < 5")
      case True
      then show ?thesis
        using no resends_outstanding [OF progressD(1,2) [OF assms]] by simp
    qed (simp add: handle_retransmission_def Let_def)
    then show ?thesis
      using no False by (auto simp: transmit_expired_def rbind_Inl_iff)
  qed
qed (simp add: transmit_expired_def)

text \<open>When a round with one event stops the process, and how.\<close>

definition round_stops :: "crc_fun \<Rightarrow> poll_event \<Rightarrow> sender \<Rightarrow> fault \<Rightarrow> bool" where
  "round_stops crc ev s f \<longleftrightarrow>
     (case ev of
        Poll_failed \<Rightarrow> False
      | Poll_events file_ev sock_ev \<Rightarrow>
          sock_ev \<and> (e_rx s = [] \<and> f = Blocked \<or> third_repeat crc s \<and> f = Null_deref)
      | Poll_expired \<Rightarrow>
          f = Exit_failure \<and> tx_last_sent s = 255 \<and> tx_retry_count s < 5 \<and> \<not> pktbuf_empty (tx_buf s))"

lemma round_fault:
  assumes "progress crc e (file_input fs) A0 n0 k0 A R s" and "small fs" and "may_read both s"
  shows "transmit_round crc ev both s = Inl f \<longleftrightarrow> round_stops crc ev s f"
  using ready_fault [OF assms] expired_fault [OF assms(1), of both]
  by (cases ev) (auto simp: transmit_round_def round_stops_def rbind_Inl_iff)

end
