(* ===== verification/System_Inv.thy ===== *)
theory System_Inv
  imports System_Receiver Sender_Faults
begin

text \<open>
  What holds of the two programs and the network in every state they can reach: the sender's
  acknowledged chunks have been written by the receiver, and what is on the way is not too old.
\<close>

unbundle bit_operations_syntax

section \<open>Steps of the sender\<close>

lemma sender_at_now:
  assumes "sender_at crc fs c A s" and "small fs"
  shows "A \<le> chunks_in (file_input fs) s" "chunks_in (file_input fs) s \<le> A + c"
    "chunks_in (file_input fs) s \<le> Suc (length fs)" "c \<le> 128"
proof -
  obtain e :: env and A0 n0 R where p: "progress crc e (file_input fs) A0 n0 c A R s"
    using assms(1) by (auto simp: sender_at_def)
  note d = progressD [OF p] and i = sender_invD [OF progressD(1) [OF p]]
  have "used (tx_buf s) \<le> cap (tx_buf s)"
    using wf_bufD(3) [OF i(1)] by simp
  then show "A \<le> chunks_in (file_input fs) s" "chunks_in (file_input fs) s \<le> A + c"
    "chunks_in (file_input fs) s \<le> Suc (length fs)" "c \<le> 128"
    using read_chunks [OF d(4) assms(2)] i(2-4) d(8) by simp_all
qed

text \<open>An acknowledgement that arrives never exceeds what the receiver has written.\<close>

lemma ack_arrival:
  assumes "ack_received crc evs A'" and "list_all (ack_arrives crc K now acks) evs" and "ack_log crc c n acks"
  shows "\<exists>m. of_nat A' = (of_nat m :: u8) \<and> m \<le> n \<and> now \<le> m + c + K"
proof -
  obtain src d seg where s: "Rx src d \<in> set evs" "datagram_of crc seg (take 528 d)" "s_type seg = ucast PTYPE_ACK"
    "s_seq seg = of_nat A'"
    using assms(1) unfolding ack_received_def by blast
  then have "ack_arrives crc K now acks (Rx src d)"
    using assms(2) by (auto simp: list_all_iff)
  then obtain t where t: "(t, wire_of crc seg) \<in> set acks" "now \<le> t + K"
    using s(2,3) by (auto simp: ack_arrives_def young_def)
  then obtain seg' where seg': "wire_of crc seg = wire_of crc seg'" "valid_segment seg'"
    "s_type seg' = ucast PTYPE_ACK \<longrightarrow> (\<exists>m. s_seq seg' = of_nat m \<and> m \<le> n \<and> t \<le> m + c)"
    using assms(3) unfolding ack_log_def by blast
  have "seg = seg'"
    using wire_of_inject [OF seg'(1) _ seg'(2)] s(2) by (simp add: datagram_of_def)
  then obtain m where "s_seq seg = of_nat m" "m \<le> n" "t \<le> m + c"
    using seg'(3) s(3) by auto
  then show ?thesis
    using s(4) t(2) by (intro exI [of _ m]) simp
qed

lemma acked_delivered:
  assumes "A' = A \<or> ack_received crc evs A'" and "list_all (ack_arrives crc K now acks) evs"
    and "ack_log crc c n acks" and "A \<le> n" and "n \<le> now" and "now \<le> A + c" and "A \<le> A'" and "A' \<le> A + 31"
    and "numbers_fit c K fs" and "now \<le> Suc (length fs)"
  shows "A' \<le> n"
  using assms(1)
proof
  assume "ack_received crc evs A'"
  then obtain m where m: "of_nat A' = (of_nat m :: u8)" "m \<le> n" "now \<le> m + c + K"
    using ack_arrival [OF _ assms(2,3)] by blast
  have "A' = m"
    using m(1,2) numbers_fitD [OF assms(9,10)] m(3) assms(4-8) by (intro no_alias) fastforce+
  then show ?thesis
    using m(2) by simp
qed (use assms(4) in simp)

text \<open>While nothing has been answered, only the first chunk is on the way.\<close>

lemma quiet_arrivals: "list_all (ack_arrives crc K now []) evs \<Longrightarrow> no_answer crc evs"
  unfolding no_answer_def ack_arrives_def young_def list_all_iff by fastforce

lemma wire_seq: "wire_of crc s ! 1 = s_seq s"
  by (simp add: wire_of_def wire_header_def)

lemma only_first_step:
  assumes "repeats_first crc R s s'" and "data_log crc fs c now' (map (Pair now) (written s s'))" and "now' \<le> 255"
  shows "only_first crc fs (map (Pair now) (written s s'))"
  unfolding only_first_def
proof (intro allI impI)
  fix t w
  assume w: "(t, w) \<in> set (map (Pair now) (written s s'))"
  then obtain i where i: "w = wire_of crc (file_segment fs i)" "i < now'"
    using assms(2) unfolding data_log_def by blast
  have "w = wire_of crc (chunk_segment 0 (R ! 0))"
    using w assms(1) by (auto simp: repeats_first_def written_def)
  then have "of_nat i = (of_nat 0 :: u8)"
    using i(1) wire_seq [of crc "chunk_segment 0 (R ! 0)"] wire_seq [of crc "file_segment fs i"]
    by (simp add: chunk_segment_def file_segment_def)
  then have "i = 0"
    using i(2) assms(3) by (intro no_alias) simp_all
  then show "w = wire_of crc (file_segment fs 0)"
    using i(1) by simp
qed

lemma only_first_append:
  "only_first crc fs (log @ log') \<longleftrightarrow> only_first crc fs log \<and> only_first crc fs log'"
  unfolding only_first_def set_append Un_iff by blast

section \<open>The invariant\<close>

definition system_inv ::
  "crc_fun \<Rightarrow> nat \<Rightarrow> byte list list \<Rightarrow> receiver \<Rightarrow> system \<Rightarrow> bool" where
  "system_inv crc c fs r0 y \<longleftrightarrow>
     (\<exists>A n. let now = chunks_in (file_input fs) (y_s y) in
        sender_at crc fs c A (y_s y) \<and> (\<forall>both. y_tx y = Tx_loop both \<longrightarrow> may_read both (y_s y)) \<and>
        (y_tx y = Tx_end 0 \<longrightarrow> A = Suc (length fs)) \<and>
        rx_ok r0 fs now n (y_rx y) (y_r y) \<and> A \<le> n \<and>
        data_log crc fs c now (y_data y) \<and> ack_log crc c n (y_acks y) \<and>
        (y_acks y = [] \<longrightarrow> A = 0 \<and> only_first crc fs (y_data y) \<and>
           (\<forall>both. y_tx y = Tx_loop both \<longrightarrow> (\<exists>R. unanswered crc R (y_s y)))) \<and>
        (y_rx y = Rx_open \<longrightarrow> y_acks y = []) \<and>
        (first_waits (y_r y) \<and> (\<exists>both. y_rx y = Rx_loop both) \<longrightarrow> y_acks y = []))"

lemma rx_ok_mono: "rx_ok r0 fs now n ph r \<Longrightarrow> now \<le> now' \<Longrightarrow> rx_ok r0 fs now' n ph r"
  by (auto simp: rx_ok_def loop_ok_def intro: delivering_mono split: rx_phase.splits)

lemma tx_moves_inv:
  assumes "system_inv crc c fs r0 y" and "small fs" and "numbers_fit c K fs" and "y_tx y = Tx_loop both" and "length evs \<le> 1"
    and "list_all (ack_arrives crc K (chunks_in (file_input fs) (y_s y)) (y_acks y)) evs"
    and "transmit_round crc ev both ((y_s y)\<lparr>e_rx := evs\<rparr>) = Inr (ph, s')"
  shows "system_inv crc c fs r0 (y\<lparr>y_tx := ph, y_s := s',
      y_data := y_data y @ map (Pair (chunks_in (file_input fs) (y_s y))) (written (y_s y) s')\<rparr>)"
proof -
  let ?now = "chunks_in (file_input fs) (y_s y)" and ?now' = "chunks_in (file_input fs) s'"
  let ?new = "map (Pair ?now) (written (y_s y) s')"
  obtain A n where y: "sender_at crc fs c A (y_s y)" "may_read both (y_s y)"
    "rx_ok r0 fs ?now n (y_rx y) (y_r y)" "A \<le> n" "data_log crc fs c ?now (y_data y)" "ack_log crc c n (y_acks y)"
    "y_acks y = [] \<longrightarrow> A = 0 \<and> only_first crc fs (y_data y) \<and> (\<exists>R. unanswered crc R (y_s y))"
    "y_rx y = Rx_open \<longrightarrow> y_acks y = []"
    "first_waits (y_r y) \<and> (\<exists>both. y_rx y = Rx_loop both) \<longrightarrow> y_acks y = []"
    using assms(1,4) unfolding system_inv_def Let_def by blast
  note at = sender_at_now [OF y(1) assms(2)]
  obtain A' where A': "sender_at crc fs c A' s'" "\<forall>both'. ph = Tx_loop both' \<longrightarrow> may_read both' s'"
    "ph = Tx_end 0 \<longrightarrow> A' = Suc (length fs)" "?now \<le> ?now'" "A \<le> A'" "A' \<le> A + 31"
    "A' = A \<or> ack_received crc evs A'" "data_log crc fs c ?now' ?new"
    using tx_step [OF y(1,2) assms(2,5,7)] by blast
  have n: "n \<le> ?now"
    using y(3) by (simp add: rx_ok_def)
  have An: "A' \<le> n"
    using acked_delivered [OF A'(7) assms(6) y(6,4) n at(2) A'(5,6) assms(3) at(3)] .
  have quiet: "A' = 0 \<and> only_first crc fs (y_data y @ ?new) \<and> (\<forall>both. ph = Tx_loop both \<longrightarrow> (\<exists>R. unanswered crc R s'))"
    if none: "y_acks y = []"
  proof -
    obtain R where R: "unanswered crc R (y_s y)"
      using y(7) none by blast
    have q: "no_answer crc evs"
      using quiet_arrivals assms(6) none by simp
    have u: "unanswered crc R ((y_s y)\<lparr>e_rx := evs\<rparr>)" "may_read both ((y_s y)\<lparr>e_rx := evs\<rparr>)"
      "no_answer crc (e_rx ((y_s y)\<lparr>e_rx := evs\<rparr>))"
      using R y(2) q by (simp_all add: unanswered_def outstanding_def may_read_def)
    obtain R' where R': "repeats_first crc R' ((y_s y)\<lparr>e_rx := evs\<rparr>) s'"
      "\<forall>both'. ph = Tx_loop both' \<longrightarrow> unanswered crc R' s'"
      using unanswered_round [OF u(1,3,2) assms(7)] by blast
    have "A' = A"
    proof (rule ccontr)
      assume "A' \<noteq> A"
      then obtain src d seg where "Rx src d \<in> set evs" "datagram_of crc seg (take 528 d)" "s_type seg = ucast PTYPE_ACK"
        using A'(7) unfolding ack_received_def by blast
      then show False
        using q unfolding no_answer_def by fastforce
    qed
    then have A0: "A' = 0"
      using y(7) none by simp
    then have "?now' \<le> 255"
      using sender_at_now(2,4) [OF A'(1) assms(2)] by simp
    then have "only_first crc fs ?new"
      using R'(1) A'(8) by (intro only_first_step) (simp_all add: repeats_first_def)
    then show ?thesis
      using y(7) none R'(2) A0 only_first_append by blast
  qed
  have "rx_ok r0 fs ?now' n (y_rx y) (y_r y)" "data_log crc fs c ?now' (y_data y @ ?new)"
    using rx_ok_mono [OF y(3) A'(4)] data_log_mono [OF y(5) A'(4)] A'(8) by (simp_all add: data_log_append)
  then show ?thesis
    using A'(1-3) An y(6,8,9) quiet unfolding system_inv_def Let_def
    by (intro exI [of _ A'] exI [of _ n]) simp
qed

lemma rx_moves_inv:
  assumes "system_inv crc c fs (receiver_init win buf e) y" and "small fs" and "numbers_fit c K fs"
    and "pktbuf_new True 32 = Inr (Some buf)" and "win \<le> 31" and "e_wr e = []"
    and "list_all (data_arrives crc K (chunks_in (file_input fs) (y_s y)) (y_data y)) evs"
    and "receive_next crc unblock ev (y_rx y) ((y_r y)\<lparr>e_rx := evs\<rparr>) = Inr (ph, r')"
  shows "system_inv crc c fs (receiver_init win buf e) (y\<lparr>y_rx := ph, y_r := r',
      y_acks := y_acks y @ map (Pair (chunks_in (file_input fs) (y_s y))) (written (y_r y) r')\<rparr>)"
proof -
  let ?now = "chunks_in (file_input fs) (y_s y)" and ?r0 = "receiver_init win buf e"
  let ?new = "map (Pair ?now) (written (y_r y) r')"
  obtain A n where y: "sender_at crc fs c A (y_s y)" "\<forall>both. y_tx y = Tx_loop both \<longrightarrow> may_read both (y_s y)"
    "y_tx y = Tx_end 0 \<longrightarrow> A = Suc (length fs)"
    "rx_ok ?r0 fs ?now n (y_rx y) (y_r y)" "A \<le> n" "data_log crc fs c ?now (y_data y)" "ack_log crc c n (y_acks y)"
    "y_acks y = [] \<longrightarrow> A = 0 \<and> only_first crc fs (y_data y) \<and>
       (\<forall>both. y_tx y = Tx_loop both \<longrightarrow> (\<exists>R. unanswered crc R (y_s y)))"
    "y_rx y = Rx_open \<longrightarrow> y_acks y = []"
    "first_waits (y_r y) \<and> (\<exists>both. y_rx y = Rx_loop both) \<longrightarrow> y_acks y = []"
    using assms(1) unfolding system_inv_def Let_def by blast
  note at = sender_at_now [OF y(1) assms(2)]
  have f: "first_waits (y_r y) \<and> (\<exists>both. y_rx y = Rx_loop both) \<longrightarrow> only_first crc fs (y_data y)"
    using y(8,10) by blast
  have n: "?now \<le> n + c"
    using at(2) y(5) by simp
  obtain n' where n': "n \<le> n'" "rx_ok ?r0 fs ?now n' ph r'" "ack_log crc c n' ?new" "ph \<noteq> Rx_open"
    "first_waits r' \<and> (\<exists>both. ph = Rx_loop both) \<longrightarrow> y_rx y = Rx_open \<and> written (y_r y) r' = []"
    using rx_step [OF y(4) assms(4-6) f assms(7) y(6) assms(2) at(3) assms(3) n, of unblock ev] assms(8) by auto
  have "ack_log crc c n' (y_acks y @ ?new)"
    using ack_log_mono [OF y(7) n'(1)] n'(3) by (simp add: ack_log_append)
  then show ?thesis
    using y(1-3,5,6,8,9) n' unfolding system_inv_def Let_def
    by (intro exI [of _ A] exI [of _ n']) auto
qed

lemma system_init_inv:
  assumes "pktbuf_new True c = Inr (Some sbuf)" and "unat c \<le> 128" and "e_wr es = []"
  shows "system_inv crc (unat c) fs (receiver_init win rbuf er) (system_init sbuf es fs win rbuf er)"
proof -
  note s = sender_init_inv(1) [OF assms(1,2), of crc "file_input fs" es] sender_init_inv(2) [OF assms(1,2)]
    and p = sender_init_progress(1) [OF assms, of crc "file_input fs"]
      sender_init_progress(2) [OF assms, of "file_input fs"]
  let ?s = "sender_init sbuf (file_input fs) es"
  have "sender_at crc fs (unat c) 0 ?s"
    using p(1) s(2) unfolding sender_at_def by metis
  moreover have "unanswered crc [] ?s"
    using s(1) assms(3) by (simp add: unanswered_def) (simp add: sender_init_def outstanding_def)
  ultimately show ?thesis
    using p(2) unfolding system_inv_def Let_def
    by (intro exI [of _ 0]) (auto simp: system_init_def rx_ok_def data_log_def only_first_def)
qed

lemma system_step_inv:
  assumes "system_inv crc c fs (receiver_init win buf e) y" and "small fs" and "numbers_fit c K fs"
    and "pktbuf_new True 32 = Inr (Some buf)" and "win \<le> 31" and "e_wr e = []"
    and "system_step crc K (file_input fs) unblock y y'"
  shows "system_inv crc c fs (receiver_init win buf e) y'"
  using assms(7)
proof (cases rule: system_step.cases)
  case (tx_moves both evs ev ph s')
  then show ?thesis
    using tx_moves_inv [OF assms(1-3)] by simp
next
  case (rx_moves evs ev ph r')
  then show ?thesis
    using rx_moves_inv [OF assms(1-6)] by simp
qed

text \<open>
  The sender's ring has \<open>c\<close> slots, and the network forgets a datagram before its sequence number
  comes round again, unless the file is too short for that.
\<close>

definition system_setting :: "nat \<Rightarrow> nat \<Rightarrow> byte list list \<Rightarrow> u32 \<Rightarrow> pktbuf \<Rightarrow> env \<Rightarrow> bool" where
  "system_setting c K fs win rbuf er \<longleftrightarrow> numbers_fit c K fs \<and> small fs \<and> pktbuf_new True 32 = Inr (Some rbuf) \<and>
     win \<le> 31 \<and> e_wr er = []"

definition system_start :: "nat \<Rightarrow> nat \<Rightarrow> byte list list \<Rightarrow> u32 \<Rightarrow> pktbuf \<Rightarrow> env \<Rightarrow> system \<Rightarrow> bool" where
  "system_start c K fs win rbuf er y \<longleftrightarrow> system_setting c K fs win rbuf er \<and>
     (\<exists>w sbuf es. pktbuf_new True w = Inr (Some sbuf) \<and> unat w = c \<and> c \<le> 128 \<and> e_wr es = [] \<and>
        y = system_init sbuf es fs win rbuf er)"

definition system_good ::
  "crc_fun \<Rightarrow> nat \<Rightarrow> nat \<Rightarrow> byte list list \<Rightarrow> u32 \<Rightarrow> pktbuf \<Rightarrow> env \<Rightarrow> system \<Rightarrow> bool" where
  "system_good crc c K fs win rbuf er y \<longleftrightarrow>
     system_setting c K fs win rbuf er \<and> system_inv crc c fs (receiver_init win rbuf er) y"

interpretation system_runs: rounds "system_start c K fs win rbuf er" "system_step crc K (file_input fs) unblock"
  "system_good crc c K fs win rbuf er"
  for c K :: nat and fs :: "byte list list" and win :: u32 and rbuf :: pktbuf and er :: env and crc :: crc_fun
    and unblock :: "bool \<times> bool \<times> u32"
proof unfold_locales
  show "system_good crc c K fs win rbuf er y" if "system_start c K fs win rbuf er y" for y
    using that system_init_inv unfolding system_start_def system_good_def by blast
  show "system_good crc c K fs win rbuf er y'"
    if "system_good crc c K fs win rbuf er y" "system_step crc K (file_input fs) unblock y y'" for y y'
    using that system_step_inv [where c = c and K = K] unfolding system_good_def system_setting_def by blast
qed

section \<open>What follows from it\<close>

lemma system_inv_out:
  assumes "system_inv crc c fs (receiver_init win rbuf er) y" and "small fs"
  shows "(\<exists>n. r_out (y_r y) = concat (take n fs)) \<and>
    (y_tx y = Tx_end 0 \<or> (\<exists>retry. y_rx y = Rx_linger retry) \<or> y_rx y = Rx_end 0 \<longrightarrow> r_out (y_r y) = concat fs)"
proof -
  let ?now = "chunks_in (file_input fs) (y_s y)"
  obtain A n where y: "sender_at crc fs c A (y_s y)" "y_tx y = Tx_end 0 \<longrightarrow> A = Suc (length fs)"
    "rx_ok (receiver_init win rbuf er) fs ?now n (y_rx y) (y_r y)" "A \<le> n"
    using assms(1) unfolding system_inv_def Let_def by blast
  note now = sender_at_now(3) [OF y(1) assms(2)]
  have out: "r_out (y_r y) = concat (take n fs)"
    using y(3) loop_ok_out(1) [OF _ _ now] by (auto simp: rx_ok_def first_waits_def receiver_init_def split: rx_phase.splits)
  have "r_out (y_r y) = concat fs" if "y_tx y = Tx_end 0"
    using out y(2,4) that by simp
  moreover have "r_out (y_r y) = concat fs" if "(\<exists>retry. y_rx y = Rx_linger retry) \<or> y_rx y = Rx_end 0"
    using y(3) that by (auto simp only: rx_ok_def rx_phase.case)
  ultimately show ?thesis
    using out by blast
qed

text \<open>The invariant of every state that the system reaches from its start.\<close>

lemma system_reachable:
  assumes "numbers_fit (unat c) K fs" and "small fs"
    and "pktbuf_new True c = Inr (Some sbuf)" and "unat c \<le> 128" and "e_wr es = []"
    and "pktbuf_new True 32 = Inr (Some rbuf)" and "win \<le> 31" and "e_wr er = []"
    and "(system_step crc K (file_input fs) unblock)\<^sup>*\<^sup>* (system_init sbuf es fs win rbuf er) y"
  shows "system_inv crc (unat c) fs (receiver_init win rbuf er) y"
proof -
  have "system_start (unat c) K fs win rbuf er (system_init sbuf es fs win rbuf er)"
    using assms(1-8) unfolding system_start_def system_setting_def by blast
  from system_runs.reachable_inv [OF this assms(9)] show ?thesis
    by (simp add: system_good_def)
qed

lemma receiver_fault:
  assumes "system_inv crc c fs (receiver_init win rbuf er) y" and "small fs" and "numbers_fit c K fs"
    and "pktbuf_new True 32 = Inr (Some rbuf)" and "win \<le> 31" and "e_wr er = []"
    and "list_all (data_arrives crc K (chunks_in (file_input fs) (y_s y)) (y_data y)) evs"
    and "receive_next crc unblock ev (y_rx y) ((y_r y)\<lparr>e_rx := evs\<rparr>) = Inl f"
  shows "f = Blocked"
proof -
  let ?now = "chunks_in (file_input fs) (y_s y)"
  obtain A n where y: "sender_at crc fs c A (y_s y)" "rx_ok (receiver_init win rbuf er) fs ?now n (y_rx y) (y_r y)"
    "A \<le> n" "data_log crc fs c ?now (y_data y)" "y_acks y = [] \<longrightarrow> only_first crc fs (y_data y)"
    "first_waits (y_r y) \<and> (\<exists>both. y_rx y = Rx_loop both) \<longrightarrow> y_acks y = []"
    using assms(1) unfolding system_inv_def Let_def by blast
  note at = sender_at_now [OF y(1) assms(2)]
  have f: "first_waits (y_r y) \<and> (\<exists>both. y_rx y = Rx_loop both) \<longrightarrow> only_first crc fs (y_data y)"
    using y(5,6) by blast
  have n: "?now \<le> n + c"
    using at(2) y(3) by simp
  show ?thesis
    using rx_step [OF y(2) assms(4-6) f assms(7) y(4) assms(2) at(3) assms(3) n, of unblock ev] assms(8) by simp
qed

lemma sender_fault:
  assumes "system_inv crc c fs r0 y" and "small fs" and "y_tx y = Tx_loop both"
  shows "transmit_round crc ev both ((y_s y)\<lparr>e_rx := evs\<rparr>) = Inl f \<longleftrightarrow> round_stops crc ev ((y_s y)\<lparr>e_rx := evs\<rparr>) f"
proof -
  obtain A where y: "sender_at crc fs c A (y_s y)" "may_read both (y_s y)"
    using assms(1,3) unfolding system_inv_def Let_def by blast
  obtain e :: env and A0 n0 R where p0: "progress crc e (file_input fs) A0 n0 c A R (y_s y)"
    using y(1) by (auto simp: sender_at_def)
  obtain e' :: env where p: "progress crc e' (file_input fs) A (length R) c A R ((y_s y)\<lparr>e_rx := evs\<rparr>)"
    using rebase [OF p0] by blast
  have "may_read both ((y_s y)\<lparr>e_rx := evs\<rparr>)"
    using y(2) by (simp add: may_read_def)
  then show ?thesis
    by (rule round_fault [OF p assms(2)])
qed

end
