(* ===== verification/System_Run.thy ===== *)
theory System_Run
  imports System_Inv
begin

text \<open>
  Runs of both programs together. A run to the end, in which every chunk is lost a few times before
  it arrives; and one in which a datagram that the network kept too long takes the place of another.
\<close>

unbundle bit_operations_syntax

declare nth_items [simp del]

section \<open>Sending, and sending again\<close>

text \<open>Chunk \<open>b\<close> has been sent, \<open>j\<close> times again after the first, and nothing else is unacknowledged.\<close>

definition in_flight ::
  "crc_fun \<Rightarrow> byte list list \<Rightarrow> byte list \<Rightarrow> in_event list \<Rightarrow> nat \<Rightarrow> system \<Rightarrow> bool" where
  "in_flight crc R b ins j y \<longleftrightarrow> (\<exists>both. y_tx y = Tx_loop both) \<and> sender_inv crc (length R) (R @ [b]) (y_s y) \<and>
     outstanding (y_s y) = 1 \<and> e_wr (y_s y) = [] \<and> tx_input (y_s y) = ins \<and>
     tx_last_in_read (y_s y) = int (length b) \<and> tx_retry_count (y_s y) = int j"

definition same_receiver :: "system \<Rightarrow> system \<Rightarrow> bool" where
  "same_receiver y y' \<longleftrightarrow> y_rx y' = y_rx y \<and> y_r y' = y_r y \<and> y_acks y' = y_acks y"

definition same_sender :: "system \<Rightarrow> system \<Rightarrow> bool" where
  "same_sender y y' \<longleftrightarrow> y_tx y' = y_tx y \<and> y_s y' = y_s y \<and> y_data y' = y_data y"

lemma at_rest_rx: "at_rest crc R (s\<lparr>e_rx := evs\<rparr>) = at_rest crc R s"
  by (simp add: at_rest_def)

lemma send_step:
  assumes "y_tx y = Tx_loop True" and "at_rest crc R (y_s y)" and "tx_input (y_s y) = In_data b # ins"
    and "length b \<le> 512" and "tx_retry_count (y_s y) = 0"
  shows "\<exists>y'. system_step crc K input unblock y y' \<and> same_receiver y y' \<and> in_flight crc R b ins 0 y' \<and>
    (chunks_in input (y_s y), wire_of crc (chunk_segment (length R) b)) \<in> set (y_data y') \<and>
    e_tx (y_s y') = e_tx (y_s y) @ [wire_of crc (chunk_segment (length R) b)]"
proof -
  let ?s = "(y_s y)\<lparr>e_rx := []\<rparr>" and ?w = "wire_of crc (chunk_segment (length R) b)"
  have s: "at_rest crc R ?s" "tx_input ?s = In_data b # ins"
    using assms(2,3) at_rest_rx by simp_all
  obtain s2 both where s2: "transmit_ready crc True False ?s = Inr (True, both, s2)" "\<not> pktbuf_empty (tx_buf s2)"
    "sender_inv crc (length R) (R @ [b]) s2" "outstanding s2 = 1" "e_wr s2 = []" "tx_input s2 = ins"
    "tx_last_in_read s2 = int (length b)" "tx_retry_count s2 = tx_retry_count ?s" "e_tx s2 = e_tx ?s @ [?w]"
    using read_round [OF s assms(4)] by blast
  have run: "transmit_round crc (Poll_events True False) True ?s = Inr (Tx_loop both, s2)"
    using s2(1,2) by (simp add: transmit_round_def tx_goes_on_def)
  have w: "written (y_s y) s2 = [?w]"
    using s2(9) by (simp add: written_def)
  let ?y = "y\<lparr>y_tx := Tx_loop both, y_s := s2,
    y_data := y_data y @ map (Pair (chunks_in input (y_s y))) (written (y_s y) s2)\<rparr>"
  have "system_step crc K input unblock y ?y"
    using assms(1) run by (intro tx_moves [where evs = "[]"]) simp_all
  then show ?thesis
    using s2 assms(5) w by (intro exI [of _ ?y]) (simp add: same_receiver_def in_flight_def)
qed

lemma lost_step:
  assumes "in_flight crc R b ins j y" and "j < 5" and "length R mod 256 \<noteq> 255"
  shows "\<exists>y'. system_step crc K input unblock y y' \<and> same_receiver y y' \<and> in_flight crc R b ins (Suc j) y' \<and>
    set (y_data y) \<subseteq> set (y_data y') \<and>
    e_tx (y_s y') = e_tx (y_s y) @ [wire_of crc (chunk_segment (length R) b)]"
proof -
  let ?s = "(y_s y)\<lparr>e_rx := []\<rparr>" and ?w = "wire_of crc (chunk_segment (length R) b)"
  obtain both where f: "y_tx y = Tx_loop both" "sender_inv crc (length R) (R @ [b]) ?s" "outstanding ?s = 1"
    "e_wr ?s = []" "tx_input ?s = ins" "tx_last_in_read ?s = int (length b)" "tx_retry_count ?s = int j"
    using assms(1) by (auto simp: in_flight_def outstanding_def)
  have "tx_last_sent ?s + 1 - tx_last_ack ?s = 1"
    using f(3) by (simp add: outstanding_def word_unat_eq_iff)
  then have "tx_last_sent ?s = of_nat (length R)"
    using sender_invD(6) [OF f(2)] by (simp add: algebra_simps)
  then have n: "tx_last_sent ?s \<noteq> 255"
    using assms(3) by (simp add: word_unat_eq_iff unat_of_nat)
  let ?s2 = "?s\<lparr>tx_retry_count := tx_retry_count ?s + 1, tx_dup_ack := 0,
    e_tx := e_tx ?s @ sends crc (R @ [b]) (length R) (length R + outstanding ?s)\<rparr>"
  have r: "handle_retransmission ?s = Inr (0, ?s2)"
    using f(7) assms(2) by (intro resends_outstanding [OF f(2,4) n]) simp
  have "used (tx_buf ?s) = 1"
    using sender_invD(4) [OF f(2)] by simp
  then have e: "\<not> pktbuf_empty (tx_buf ?s)" "\<not> pktbuf_empty (tx_buf ?s2)"
    by (simp_all add: used_eq_0)
  have run: "transmit_round crc Poll_expired both ?s = Inr (Tx_loop both, ?s2)"
    using r e by (simp add: transmit_round_def transmit_expired_def tx_goes_on_def)
  let ?y = "y\<lparr>y_tx := Tx_loop both, y_s := ?s2,
    y_data := y_data y @ map (Pair (chunks_in input (y_s y))) (written (y_s y) ?s2)\<rparr>"
  have "system_step crc K input unblock y ?y"
    using f(1) run by (intro tx_moves [where evs = "[]"]) simp_all
  moreover have "in_flight crc R b ins (Suc j) ?y"
    using f by (simp add: in_flight_def outstanding_def)
  moreover have "e_tx ?s2 = e_tx (y_s y) @ [?w]"
    using f(3) by (simp add: sends_def)
  ultimately show ?thesis
    by (intro exI [of _ ?y]) (simp add: same_receiver_def)
qed

lemma same_receiver_trans: "same_receiver x y \<Longrightarrow> same_receiver y z \<Longrightarrow> same_receiver x z"
  by (simp add: same_receiver_def)

lemma lost_steps:
  assumes "in_flight crc R b ins j y" and "j + k \<le> 5" and "length R mod 256 = 255 \<longrightarrow> k = 0"
  shows "\<exists>y'. (system_step crc K input unblock)\<^sup>*\<^sup>* y y' \<and> same_receiver y y' \<and> in_flight crc R b ins (j + k) y' \<and>
    set (y_data y) \<subseteq> set (y_data y') \<and>
    e_tx (y_s y') = e_tx (y_s y) @ replicate k (wire_of crc (chunk_segment (length R) b))"
  using assms
proof (induction k arbitrary: j y)
  case 0
  then show ?case
    by (intro exI [of _ y]) (simp add: same_receiver_def)
next
  case (Suc k)
  have j: "j < 5" "length R mod 256 \<noteq> 255"
    using Suc.prems(2,3) by auto
  obtain y1 where y1: "system_step crc K input unblock y y1" "same_receiver y y1" "in_flight crc R b ins (Suc j) y1"
    "set (y_data y) \<subseteq> set (y_data y1)"
    "e_tx (y_s y1) = e_tx (y_s y) @ [wire_of crc (chunk_segment (length R) b)]"
    using lost_step [OF Suc.prems(1) j] by blast
  obtain y' where y': "(system_step crc K input unblock)\<^sup>*\<^sup>* y1 y'" "same_receiver y1 y'" "in_flight crc R b ins (Suc j + k) y'"
    "set (y_data y1) \<subseteq> set (y_data y')"
    "e_tx (y_s y') = e_tx (y_s y1) @ replicate k (wire_of crc (chunk_segment (length R) b))"
    using Suc.IH [OF y1(3)] Suc.prems(2) j(2) by auto
  have "(system_step crc K input unblock)\<^sup>*\<^sup>* y y'"
    by (rule converse_rtranclp_into_rtranclp [of "system_step crc K input unblock", OF y1(1) y'(1)])
  then show ?case
    using y1(4,5) y'(3-5) same_receiver_trans [OF y1(2) y'(2)] by (intro exI [of _ y']) simp
qed

section \<open>Receiving and acknowledging\<close>

lemma datagram_arrives:
  assumes "(t, wire_of crc (chunk_segment n b)) \<in> set log" and "now \<le> t + K" and "length b \<le> 512"
  shows "data_arrives crc K now log (Rx src (wire_of crc (chunk_segment n b)))"
  using assms datagram_of_unique [OF _ chunk_datagram [OF assms(3), of crc n]]
  by (auto simp: data_arrives_def young_def)

lemma took_rx: "took crc n b (r\<lparr>e_rx := evs\<rparr>) r' = took crc n b r r'"
  by (simp add: took_def)

lemma in_step_rx: "in_step n (r\<lparr>e_rx := evs\<rparr>) = in_step n r"
  by (simp add: in_step_def keeping_up_def idle_def acks_ok_def)

lemma took_written: "took crc n b r r' \<Longrightarrow> written r r' = [wire_of crc (ack_for (r_max_window r) n)]"
  by (simp add: took_def written_def)

lemma round_phase:
  assumes "receive_ready crc (both \<and> file_ev) sock_ev r = Inr (True, False, s')" and "took crc n b r0 (clear_needs s')"
  shows "receive_round crc (Poll_ready file_ev sock_ev) both r =
    Inr (if b = [] then Rx_linger 0 else Rx_loop False, clear_needs s')"
proof -
  have "used (r_buf s') = 0" "r_last_written_len s' = int (length b)"
    using assms(2) by (simp_all add: took_def in_step_def clear_needs_def)
  then show ?thesis
    using assms(1) by (simp add: receive_round_def clear_needs_def used_eq_0)
qed

lemma take_step:
  assumes "y_rx y = Rx_loop both" and "in_step n (y_r y)" and "length b \<le> 512"
    and "(t, wire_of crc (chunk_segment n b)) \<in> set (y_data y)" and "chunks_in input (y_s y) \<le> t + K"
  shows "\<exists>y'. system_step crc K input unblock y y' \<and> same_sender y y' \<and>
    y_rx y' = (if b = [] then Rx_linger 0 else Rx_loop False) \<and> took crc n b (y_r y) (y_r y') \<and>
    (chunks_in input (y_s y), wire_of crc (ack_for (r_max_window (y_r y)) n)) \<in> set (y_acks y')"
proof -
  let ?w = "wire_of crc (chunk_segment n b)"
  let ?r = "(y_r y)\<lparr>e_rx := [Rx [] ?w]\<rparr>"
  have r: "in_step n ?r" "e_rx ?r = Rx [] ?w # []"
    using assms(2) in_step_rx by simp_all
  obtain s' where s': "receive_ready crc (both \<and> False) True ?r = Inr (True, False, s')"
    "took crc n b ?r (clear_needs s')"
    using chunk_ready [OF r assms(3)] by blast
  let ?ph = "if b = [] then Rx_linger 0 else Rx_loop False"
  have run: "receive_next crc unblock (Poll_ready False True) (y_rx y) ?r = Inr (?ph, clear_needs s')"
    using round_phase [OF s'] assms(1) by (simp add: receive_next_def)
  have t: "took crc n b (y_r y) (clear_needs s')"
    using s'(2) took_rx by blast
  let ?y = "y\<lparr>y_rx := ?ph, y_r := clear_needs s',
    y_acks := y_acks y @ map (Pair (chunks_in input (y_s y))) (written (y_r y) (clear_needs s'))\<rparr>"
  have "system_step crc K input unblock y ?y"
    using run datagram_arrives [OF assms(4,5,3)] by (intro rx_moves [where evs = "[Rx [] ?w]"]) simp_all
  then show ?thesis
    using t took_written [OF t] by (intro exI [of _ ?y]) (simp add: same_sender_def)
qed

lemma ack_comes:
  assumes "acks_chunk n seg" and "(t, wire_of crc seg) \<in> set log" and "now \<le> t + K"
  shows "ack_arrives crc K now log (Rx src (wire_of crc seg))"
  using assms(2,3) datagram_of_unique [OF _ acks_chunk_datagram [OF assms(1)]] by (auto simp: ack_arrives_def young_def)

lemma ack_step:
  assumes "in_flight crc R b ins j y" and "0 < win" and "win \<le> 31"
    and "(t, wire_of crc (ack_for win (length R))) \<in> set (y_acks y)" and "chunks_in input (y_s y) \<le> t + K"
  shows "\<exists>y'. system_step crc K input unblock y y' \<and> same_receiver y y' \<and>
    y_tx y' = (if b = [] then Tx_end 0 else Tx_loop True) \<and> at_rest crc (R @ [b]) (y_s y') \<and>
    tx_retry_count (y_s y') = 0 \<and> tx_input (y_s y') = ins \<and> e_tx (y_s y') = e_tx (y_s y) \<and> tx_dup_ack (y_s y') = 0 \<and>
    tx_last_in_read (y_s y') = int (length b)"
proof -
  let ?seg = "ack_for win (length R)"
  let ?w = "wire_of crc ?seg"
  let ?s = "(y_s y)\<lparr>e_rx := [Rx [] ?w]\<rparr>"
  note a = ack_for_acks [OF assms(2,3), of "length R"]
  obtain both where f: "y_tx y = Tx_loop both" "sender_inv crc (length R) (R @ [b]) ?s" "outstanding ?s = 1"
    "e_wr ?s = []" "e_rx ?s = Rx [] ?w # []" "tx_last_in_read ?s = int (length b)" "tx_input ?s = ins"
    using assms(1) by (auto simp: in_flight_def outstanding_def)
  obtain s' where s': "transmit_ready crc False True ?s = Inr (True, b \<noteq> [], s')" "pktbuf_empty (tx_buf s')"
    "tx_last_in_read s' = int (length b)" "tx_retry_count s' = 0"
    "at_rest crc (R @ [b]) s'" "e_tx s' = e_tx ?s" "tx_input s' = tx_input ?s" "tx_dup_ack s' = 0"
    using ack_ready [OF f(2-5) a f(6)] by blast
  let ?ph = "if b = [] then Tx_end 0 else Tx_loop True"
  have run: "transmit_round crc (Poll_events False True) both ?s = Inr (?ph, s')"
    using s'(1-3) by (simp add: transmit_round_def tx_goes_on_def)
  have "ack_arrives crc K (chunks_in input (y_s y)) (y_acks y) (Rx [] ?w)"
    by (rule ack_comes [OF a assms(4,5)])
  then have "system_step crc K input unblock y (y\<lparr>y_tx := ?ph, y_s := s',
      y_data := y_data y @ map (Pair (chunks_in input (y_s y))) (written (y_s y) s')\<rparr>)"
    using f(1) run by (intro tx_moves [where evs = "[Rx [] ?w]"]) simp_all
  then show ?thesis
    using s' f(7) by (intro exI [of _ "y\<lparr>y_tx := ?ph, y_s := s',
      y_data := y_data y @ map (Pair (chunks_in input (y_s y))) (written (y_s y) s')\<rparr>"]) (simp add: same_receiver_def)
qed

section \<open>The first packet\<close>

lemma process_env:
  "process_incoming_pkt i s = Inr (x, s') \<Longrightarrow> e_rx s' = e_rx s \<and> e_tx s' = e_tx s"
  by (auto simp: process_incoming_pkt_def Let_def put_slot_def rbind_Inr_iff split: if_splits option.splits)

lemma open_steps:
  assumes "pktbuf_new True 32 = Inr (Some rbuf)" and "0 < win" and "win \<le> 31" and "e_wr er = []" and "e_connect er = 0"
    and "y_rx y = Rx_open" and "y_r y = receiver_init win rbuf er" and "length b \<le> 512"
    and "(t, wire_of crc (chunk_segment 0 b)) \<in> set (y_data y)" and "chunks_in input (y_s y) \<le> t + K"
  shows "\<exists>y'. (system_step crc K input (True, True, addr))\<^sup>*\<^sup>* y y' \<and> same_sender y y' \<and>
    (y_rx y' = (if b = [] then Rx_linger 0 else Rx_loop False) \<and> in_step 1 (y_r y') \<and> r_max_window (y_r y') = win \<and>
      r_out (y_r y') = b) \<and>
    (chunks_in input (y_s y), wire_of crc (ack_for win 0)) \<in> set (y_acks y')"
proof -
  let ?w = "wire_of crc (chunk_segment 0 b)" and ?seg = "chunk_segment 0 b"
  let ?e = "er\<lparr>e_rx := [Rx [] ?w]\<rparr>" and ?now = "chunks_in input (y_s y)"
  have e: "e_wr ?e = []" "e_connect ?e = 0" "e_rx ?e = Rx [] ?w # []" "s_type ?seg = 1" "s_tr ?seg = 0" "s_seq ?seg = 0"
    using assms(4,5) by (simp_all add: chunk_segment_def)
  obtain b0 s q where c: "pktbuf_enqueue rbuf = (slot_index b0 0, b0)"
    "net_wait_and_connect crc (slot b0 (slot_index b0 0)) 0
      ((receiver_init win rbuf ?e)\<lparr>r_fd_flags := addr AND 1, r_buf := b0\<rparr>) = Inr (NET_OK, q, s)"
    "connected win s" "r_buf s = b0" "e_rx s = []" "e_tx s = e_tx ?e"
    "wf_pkt q" "whole_pkt q" "p_seq q = 0" "segment_of q = ?seg"
    using connects [OF assms(1,3) e(1-3) chunk_datagram [OF assms(8)] e(5,6), of "addr AND 1"] by blast
  obtain s1 s2 where s: "process_incoming_pkt (slot_index (r_buf s) 0) (put_slot s (slot_index (r_buf s) 0) q) = Inr (0, s1)"
    "receive_ready crc (True \<and> True) False (s1\<lparr>r_need_ack := True\<rparr>) = Inr (True, False, s2)"
    "took crc 0 b s (clear_needs s2)"
    using first_round [OF c(3) assms(2) c(7-10), of crc "True \<and> True"] by blast
  have env: "e_rx s1 = []" "e_tx s1 = e_tx s"
    using process_env [OF s(1)] c(5) by (simp_all add: put_slot_def)
  let ?r1 = "s1\<lparr>r_need_ack := True\<rparr>"
  have re: "(y_r y)\<lparr>e_rx := [Rx [] ?w]\<rparr> = receiver_init win rbuf ?e"
    by (simp add: assms(7) receiver_init_def)
  have "unblock_out_file True True addr (receiver_init win rbuf ?e) =
      (0, (receiver_init win rbuf ?e)\<lparr>r_fd_flags := addr AND 1\<rparr>)"
    by (simp add: unblock_out_file_def sys_fcntl_def receiver_init_def)
  moreover have "r_buf ((receiver_init win rbuf ?e)\<lparr>r_fd_flags := addr AND 1\<rparr>) = rbuf"
    by (simp add: receiver_init_def)
  ultimately have "receive_next crc (True, True, addr) Poll_error (y_rx y) ((y_r y)\<lparr>e_rx := [Rx [] ?w]\<rparr>) =
      Inr (Rx_loop True, ?r1)"
    using c(1,2,4) s(1) unfolding re by (simp add: assms(6) receive_next_def receive_open_def Let_def buf_slot_def)
  moreover have "e_tx (y_r y) = e_tx ?e"
    by (simp add: assms(7) receiver_init_def)
  then have w: "written (y_r y) ?r1 = []"
    using env(2) c(6) by (simp add: written_def)
  ultimately have step1: "system_step crc K input (True, True, addr) y (y\<lparr>y_rx := Rx_loop True, y_r := ?r1\<rparr>)"
    using rx_moves [where evs = "[Rx [] ?w]" and y = y and crc = crc and K = K and input = input]
      datagram_arrives [OF assms(9,10,8)] by fastforce
  let ?y1 = "y\<lparr>y_rx := Rx_loop True, y_r := ?r1\<rparr>" and ?ph = "if b = [] then Rx_linger 0 else Rx_loop False"
  let ?y2 = "?y1\<lparr>y_rx := ?ph, y_r := clear_needs s2,
    y_acks := y_acks ?y1 @ map (Pair (chunks_in input (y_s ?y1))) (written (y_r ?y1) (clear_needs s2))\<rparr>"
  have "?r1\<lparr>e_rx := []\<rparr> = ?r1"
    using env(1) by (cases s1) simp
  then have "receive_next crc (True, True, addr) (Poll_ready True False) (y_rx ?y1) ((y_r ?y1)\<lparr>e_rx := []\<rparr>) =
      Inr (?ph, clear_needs s2)"
    using round_phase [OF s(2,3)] by (simp add: receive_next_def)
  then have step2: "system_step crc K input (True, True, addr) ?y1 ?y2"
    by (intro rx_moves [where evs = "[]"]) simp_all
  have "written ?r1 (clear_needs s2) = [wire_of crc (ack_for win 0)]"
    using s(3) env(2) connectedD(10) [OF c(3)] by (simp add: took_def written_def)
  then have "(?now, wire_of crc (ack_for win 0)) \<in> set (y_acks ?y2)"
    by simp
  moreover have "in_step 1 (clear_needs s2) \<and> r_max_window (clear_needs s2) = win \<and> r_out (clear_needs s2) = b"
    using s(3) connectedD(10,11) [OF c(3)] by (simp add: took_def)
  moreover have "(system_step crc K input (True, True, addr))\<^sup>*\<^sup>* y ?y2"
    using r_into_rtranclp [of "system_step crc K input (True, True, addr)", OF step1]
      r_into_rtranclp [of "system_step crc K input (True, True, addr)", OF step2] by (rule rtranclp_trans)
  ultimately show ?thesis
    by (intro exI [of _ ?y2]) (simp add: same_sender_def)
qed

section \<open>From chunk to chunk\<close>

lemma step_keeps_data: "system_step crc K input unblock y y' \<Longrightarrow> set (y_data y) \<subseteq> set (y_data y')"
  by (erule system_stepE) auto

lemma steps_keep_data: "(system_step crc K input unblock)\<^sup>*\<^sup>* y y' \<Longrightarrow> set (y_data y) \<subseteq> set (y_data y')"
  by (induction rule: rtranclp_induct) (use step_keeps_data in blast)+

text \<open>
  A chunk is sent, sent again \<open>k\<close> times, taken and acknowledged; how it is taken is a parameter, as
  the first one is taken while the receiver opens its socket, and what is taken need not be it.
\<close>

lemma chunk_steps:
  assumes "y_tx y = Tx_loop True" and "at_rest crc R (y_s y)" and "tx_input (y_s y) = In_data b # ins"
    and "length b \<le> 512" and "tx_retry_count (y_s y) = 0" and "k \<le> 5" and "length R mod 256 = 255 \<longrightarrow> k = 0"
    and "0 < K" and "0 < win" and "win \<le> 31"
    and take: "\<And>y1. same_receiver y y1 \<Longrightarrow> set (y_data y) \<subseteq> set (y_data y1) \<Longrightarrow>
      (chunks_in input (y_s y), wire_of crc (chunk_segment (length R) b)) \<in> set (y_data y1) \<Longrightarrow>
      chunks_in input (y_s y1) \<le> Suc (chunks_in input (y_s y)) \<Longrightarrow>
      \<exists>y2. (system_step crc K input unblock)\<^sup>*\<^sup>* y1 y2 \<and> same_sender y1 y2 \<and> P (y_rx y2) (y_r y2) \<and>
        (chunks_in input (y_s y1), wire_of crc (ack_for win (length R))) \<in> set (y_acks y2)"
  shows "\<exists>y'. (system_step crc K input unblock)\<^sup>*\<^sup>* y y' \<and> P (y_rx y') (y_r y') \<and>
    y_tx y' = (if b = [] then Tx_end 0 else Tx_loop True) \<and> at_rest crc (R @ [b]) (y_s y') \<and>
    tx_retry_count (y_s y') = 0 \<and> tx_input (y_s y') = ins \<and>
    e_tx (y_s y') = e_tx (y_s y) @ replicate (Suc k) (wire_of crc (chunk_segment (length R) b)) \<and>
    (chunks_in input (y_s y), wire_of crc (chunk_segment (length R) b)) \<in> set (y_data y') \<and>
    tx_dup_ack (y_s y') = 0 \<and> (chunks_in input (y_s y'), wire_of crc (ack_for win (length R))) \<in> set (y_acks y') \<and>
    tx_last_in_read (y_s y') = int (length b)"
proof -
  let ?w = "wire_of crc (chunk_segment (length R) b)" and ?t = "chunks_in input (y_s y)"
  obtain y1 where y1: "system_step crc K input unblock y y1" "same_receiver y y1" "in_flight crc R b ins 0 y1"
    "(?t, ?w) \<in> set (y_data y1)" "e_tx (y_s y1) = e_tx (y_s y) @ [?w]"
    using send_step [OF assms(1-5)] by blast
  obtain y2 where y2: "(system_step crc K input unblock)\<^sup>*\<^sup>* y1 y2" "same_receiver y1 y2" "in_flight crc R b ins (0 + k) y2"
    "set (y_data y1) \<subseteq> set (y_data y2)" "e_tx (y_s y2) = e_tx (y_s y1) @ replicate k ?w"
    using lost_steps [OF y1(3) _ assms(7), where K = K and input = input and unblock = unblock] assms(6) by auto
  have now: "chunks_in input (y_s y2) \<le> Suc ?t"
    using y2(3) assms(3) by (simp add: chunks_in_def in_flight_def)
  have grown: "set (y_data y) \<subseteq> set (y_data y2)" "(?t, ?w) \<in> set (y_data y2)"
    using step_keeps_data [OF y1(1)] y1(4) y2(4) by blast+
  obtain y3 where y3: "(system_step crc K input unblock)\<^sup>*\<^sup>* y2 y3" "same_sender y2 y3" "P (y_rx y3) (y_r y3)"
    "(chunks_in input (y_s y2), wire_of crc (ack_for win (length R))) \<in> set (y_acks y3)"
    using take [OF same_receiver_trans [OF y1(2) y2(2)] grown now] by blast
  have f3: "in_flight crc R b ins (0 + k) y3" "chunks_in input (y_s y3) \<le> chunks_in input (y_s y2) + K"
    "e_tx (y_s y3) = e_tx (y_s y2)"
    using y2(3) y3(2) by (simp_all add: same_sender_def in_flight_def)
  obtain y4 where y4: "system_step crc K input unblock y3 y4" "same_receiver y3 y4"
    "y_tx y4 = (if b = [] then Tx_end 0 else Tx_loop True)" "at_rest crc (R @ [b]) (y_s y4)"
    "tx_retry_count (y_s y4) = 0" "tx_input (y_s y4) = ins" "e_tx (y_s y4) = e_tx (y_s y3)" "tx_dup_ack (y_s y4) = 0"
    "tx_last_in_read (y_s y4) = int (length b)"
    using ack_step [OF f3(1) assms(9,10) y3(4) f3(2)] by blast
  have "chunks_in input (y_s y4) = chunks_in input (y_s y2)"
    using y2(3) y4(6) by (simp add: chunks_in_def in_flight_def)
  then have acked: "(chunks_in input (y_s y4), wire_of crc (ack_for win (length R))) \<in> set (y_acks y4)"
    using y3(4) y4(2) by (simp add: same_receiver_def)
  have s: "(system_step crc K input unblock)\<^sup>*\<^sup>* y2 y4"
    using y3(1) y4(1) by (rule rtranclp.rtrancl_into_rtrancl)
  have "(?t, ?w) \<in> set (y_data y4)"
    using steps_keep_data [OF s] grown(2) by blast
  moreover have "(system_step crc K input unblock)\<^sup>*\<^sup>* y y4"
    using converse_rtranclp_into_rtranclp [of "system_step crc K input unblock", OF y1(1) y2(1)] s
    by (rule rtranclp_trans)
  ultimately show ?thesis
    using y1(5) y2(5) f3(3) y3(3) y4(2-9) acked by (intro exI [of _ y4]) (simp add: same_receiver_def)
qed

lemma take_next:
  assumes "y_rx y = Rx_loop both" and "in_step n (y_r y)" and "length b \<le> 512" and "same_receiver y y1"
    and "(t, wire_of crc (chunk_segment n b)) \<in> set (y_data y1)" and "chunks_in input (y_s y1) \<le> t + K"
  shows "\<exists>y2. (system_step crc K input unblock)\<^sup>*\<^sup>* y1 y2 \<and> same_sender y1 y2 \<and>
    (y_rx y2 = (if b = [] then Rx_linger 0 else Rx_loop False) \<and> took crc n b (y_r y) (y_r y2)) \<and>
    (chunks_in input (y_s y1), wire_of crc (ack_for (r_max_window (y_r y)) n)) \<in> set (y_acks y2)"
proof -
  have r: "y_rx y1 = Rx_loop both" "in_step n (y_r y1)" "y_r y1 = y_r y"
    using assms(1,2,4) by (simp_all add: same_receiver_def)
  obtain y2 where y2: "system_step crc K input unblock y1 y2" "same_sender y1 y2"
    "y_rx y2 = (if b = [] then Rx_linger 0 else Rx_loop False)" "took crc n b (y_r y1) (y_r y2)"
    "(chunks_in input (y_s y1), wire_of crc (ack_for (r_max_window (y_r y1)) n)) \<in> set (y_acks y2)"
    using take_step [OF r(1,2) assms(3,5,6)] by blast
  then show ?thesis
    unfolding r(3) by (intro exI [of _ y2] conjI r_into_rtranclp) simp_all
qed

text \<open>
  The chunks \<open>R\<close> have been sent, taken and acknowledged; the network remembers when they were sent,
  and the last acknowledgement.
\<close>

definition level :: "crc_fun \<Rightarrow> in_event list \<Rightarrow> byte list list \<Rightarrow> in_event list \<Rightarrow> u32 \<Rightarrow> system \<Rightarrow> bool" where
  "level crc input R ins win y \<longleftrightarrow> input = map In_data R @ ins \<and>
     y_tx y = Tx_loop True \<and> at_rest crc R (y_s y) \<and> tx_retry_count (y_s y) = 0 \<and> tx_input (y_s y) = ins \<and>
     (\<exists>both. y_rx y = Rx_loop both) \<and> in_step (length R) (y_r y) \<and> r_max_window (y_r y) = win \<and>
     (\<forall>i<length R. (i, wire_of crc (chunk_segment i (R ! i))) \<in> set (y_data y)) \<and>
     tx_last_in_read (y_s y) \<noteq> 0 \<and> tx_dup_ack (y_s y) = 0 \<and> (length R, wire_of crc (ack_for win (length R - 1))) \<in> set (y_acks y)"

lemma levelD:
  assumes "level crc input R ins win y"
  shows "chunks_in input (y_s y) = length R"
    and "i < length R \<Longrightarrow> (i, wire_of crc (chunk_segment i (R ! i))) \<in> set (y_data y)"
  using assms by (simp_all add: level_def chunks_in_def)

text \<open>The next one; what arrives in its place may be an earlier one, of the same number modulo 256.\<close>

definition arrives_as :: "crc_fun \<Rightarrow> nat \<Rightarrow> byte list list \<Rightarrow> byte list \<Rightarrow> byte list \<Rightarrow> bool" where
  "arrives_as crc K R b b' \<longleftrightarrow> b' = b \<or>
     (\<exists>i<length R. b' = R ! i \<and> chunk_segment i b' = chunk_segment (length R) b' \<and> Suc (length R) \<le> i + K)"

lemma level_step:
  assumes "level crc input R (In_data b # ins) win y" and "length b \<le> 512"
    and "k \<le> 5" and "length R mod 256 = 255 \<longrightarrow> k = 0" and "0 < K" and "0 < win" and "win \<le> 31"
    and "length b' \<le> 512" and "arrives_as crc K R b b'"
  shows "\<exists>y'. (system_step crc K input unblock)\<^sup>*\<^sup>* y y' \<and>
    (y_rx y' = (if b' = [] then Rx_linger 0 else Rx_loop False) \<and> took crc (length R) b' (y_r y) (y_r y')) \<and>
    y_tx y' = (if b = [] then Tx_end 0 else Tx_loop True) \<and>
    e_tx (y_s y') = e_tx (y_s y) @ replicate (Suc k) (wire_of crc (chunk_segment (length R) b)) \<and>
    (b \<noteq> [] \<longrightarrow> b' \<noteq> [] \<longrightarrow> level crc input (R @ [b]) ins win y')"
proof -
  obtain both where l: "input = map In_data R @ In_data b # ins" "y_tx y = Tx_loop True" "at_rest crc R (y_s y)"
    "tx_input (y_s y) = In_data b # ins" "tx_retry_count (y_s y) = 0" "y_rx y = Rx_loop both"
    "in_step (length R) (y_r y)" "r_max_window (y_r y) = win"
    using assms(1) unfolding level_def by blast
  note d = levelD [OF assms(1)]
  let ?w = "wire_of crc (chunk_segment (length R) b)"
  have "\<exists>t. (t, wire_of crc (chunk_segment (length R) b')) \<in> set (y_data y1) \<and> chunks_in input (y_s y1) \<le> t + K"
    if y1: "set (y_data y) \<subseteq> set (y_data y1)" "(chunks_in input (y_s y), ?w) \<in> set (y_data y1)"
      "chunks_in input (y_s y1) \<le> Suc (chunks_in input (y_s y))" for y1
  proof (cases "b' = b")
    case True
    then show ?thesis
      using y1(2,3) assms(5) by (intro exI [of _ "chunks_in input (y_s y)"]) simp
  next
    case False
    then obtain i where i: "i < length R" "b' = R ! i" "chunk_segment i b' = chunk_segment (length R) b'" "Suc (length R) \<le> i + K"
      using assms(9) unfolding arrives_as_def by blast
    then have "(i, wire_of crc (chunk_segment (length R) b')) \<in> set (y_data y1)"
      using d(2) [OF i(1)] y1(1) by auto
    then show ?thesis
      using i(4) y1(3) d(1) by (intro exI [of _ i]) simp
  qed
  note arrived = this
  have take: "\<exists>y2. (system_step crc K input unblock)\<^sup>*\<^sup>* y1 y2 \<and> same_sender y1 y2 \<and>
      (y_rx y2 = (if b' = [] then Rx_linger 0 else Rx_loop False) \<and> took crc (length R) b' (y_r y) (y_r y2)) \<and>
      (chunks_in input (y_s y1), wire_of crc (ack_for win (length R))) \<in> set (y_acks y2)"
    if y1: "same_receiver y y1" "set (y_data y) \<subseteq> set (y_data y1)" "(chunks_in input (y_s y), ?w) \<in> set (y_data y1)"
      "chunks_in input (y_s y1) \<le> Suc (chunks_in input (y_s y))" for y1
  proof -
    obtain t where "(t, wire_of crc (chunk_segment (length R) b')) \<in> set (y_data y1)" "chunks_in input (y_s y1) \<le> t + K"
      using arrived [OF y1(2-4)] by blast
    from take_next [OF l(6,7) assms(8) y1(1) this] show ?thesis
      unfolding l(8) .
  qed
  obtain y' where y': "(system_step crc K input unblock)\<^sup>*\<^sup>* y y'"
    "y_rx y' = (if b' = [] then Rx_linger 0 else Rx_loop False) \<and> took crc (length R) b' (y_r y) (y_r y')"
    "y_tx y' = (if b = [] then Tx_end 0 else Tx_loop True)" "at_rest crc (R @ [b]) (y_s y')"
    "tx_retry_count (y_s y') = 0" "tx_input (y_s y') = ins"
    "e_tx (y_s y') = e_tx (y_s y) @ replicate (Suc k) ?w" "(length R, ?w) \<in> set (y_data y')"
    "tx_dup_ack (y_s y') = 0" "(chunks_in input (y_s y'), wire_of crc (ack_for win (length R))) \<in> set (y_acks y')"
    "tx_last_in_read (y_s y') = int (length b)"
    using chunk_steps [OF l(2-4) assms(2) l(5) assms(3-7) take] d(1) by auto
  have "chunks_in input (y_s y') = Suc (length R)"
    using l(1) y'(6) by (simp add: chunks_in_def)
  then have "level crc input (R @ [b]) ins win y'" if "b \<noteq> []" "b' \<noteq> []"
    unfolding level_def using y' l(1,8) that d(2) steps_keep_data [OF y'(1)]
    by (auto simp: took_def nth_append less_Suc_eq)
  then show ?thesis
    using y'(1-3,7) by blast
qed

text \<open>The datagrams of the chunks \<open>bs\<close>, chunk \<open>i\<close> sent again \<open>lost i\<close> times; \<open>n\<close> is the number of the first.\<close>

definition copies :: "crc_fun \<Rightarrow> (nat \<Rightarrow> nat) \<Rightarrow> nat \<Rightarrow> byte list list \<Rightarrow> byte list list" where
  "copies crc lost n bs =
    concat (map (\<lambda>i. replicate (Suc (lost (n + i))) (wire_of crc (chunk_segment (n + i) (bs ! i)))) [0..<length bs])"

lemma copies_Nil: "copies crc lost n [] = []"
  by (simp add: copies_def)

lemma copies_Cons:
  "copies crc lost n (b # bs) = replicate (Suc (lost n)) (wire_of crc (chunk_segment n b)) @ copies crc lost (Suc n) bs"
  by (simp add: copies_def map_upt_Suc del: upt_Suc replicate_Suc)

definition tolerable :: "(nat \<Rightarrow> nat) \<Rightarrow> bool" where
  "tolerable lost \<longleftrightarrow> (\<forall>i. lost i \<le> 5 \<and> (i mod 256 = 255 \<longrightarrow> lost i = 0))"

lemma tolerableD: "tolerable lost \<Longrightarrow> lost n \<le> 5" "tolerable lost \<Longrightarrow> n mod 256 = 255 \<longrightarrow> lost n = 0"
  by (simp_all add: tolerable_def)

lemma copies_append: "copies crc lost n (bs @ cs) = copies crc lost n bs @ copies crc lost (n + length bs) cs"
  by (induction bs arbitrary: n) (simp_all add: copies_Nil copies_Cons)

lemma level_run:
  assumes "level crc input R (map In_data bs @ ins) win y" and "list_all (\<lambda>b. b \<noteq> [] \<and> length b \<le> 512) bs"
    and "tolerable lost" and "0 < K" and "0 < win" and "win \<le> 31"
  shows "\<exists>y'. (system_step crc K input unblock)\<^sup>*\<^sup>* y y' \<and> level crc input (R @ bs) ins win y' \<and>
    r_out (y_r y') = r_out (y_r y) @ concat bs \<and> e_tx (y_s y') = e_tx (y_s y) @ copies crc lost (length R) bs"
  using assms(1,2)
proof (induction bs arbitrary: R y)
  case Nil
  then show ?case
    by (intro exI [of _ y]) (simp add: copies_Nil)
next
  case (Cons b bs)
  have b: "level crc input R (In_data b # (map In_data bs @ ins)) win y" "b \<noteq> []" "length b \<le> 512" "arrives_as crc K R b b"
    using Cons.prems by (simp_all add: arrives_as_def)
  obtain y1 where y1: "(system_step crc K input unblock)\<^sup>*\<^sup>* y y1" "took crc (length R) b (y_r y) (y_r y1)"
    "e_tx (y_s y1) = e_tx (y_s y) @ replicate (Suc (lost (length R))) (wire_of crc (chunk_segment (length R) b))"
    "level crc input (R @ [b]) (map In_data bs @ ins) win y1"
    using level_step [OF b(1,3) tolerableD [OF assms(3)] assms(4-6) b(3,4), where unblock = unblock] b(2) by blast
  obtain y' where y': "(system_step crc K input unblock)\<^sup>*\<^sup>* y1 y'" "level crc input ((R @ [b]) @ bs) ins win y'"
    "r_out (y_r y') = r_out (y_r y1) @ concat bs" "e_tx (y_s y') = e_tx (y_s y1) @ copies crc lost (length (R @ [b])) bs"
    using Cons.IH [OF y1(4)] Cons.prems(2) by auto
  have "(system_step crc K input unblock)\<^sup>*\<^sup>* y y'"
    using y1(1) y'(1) by (rule rtranclp_trans)
  then show ?case
    using y'(2-4) y1(2,3) by (intro exI [of _ y']) (simp add: copies_Cons took_def)
qed

section \<open>The start and the end\<close>

lemma level_start:
  assumes "pktbuf_new True c = Inr (Some sbuf)" and "unat c \<le> 128" and "e_wr es = []" and "0 < K"
    and "pktbuf_new True 32 = Inr (Some rbuf)" and "0 < win" and "win \<le> 31" and "e_wr er = []" and "e_connect er = 0"
    and "file_input fs = In_data b # ins" and "length b \<le> 512" and "k \<le> 5"
  shows "\<exists>y. (system_step crc K (file_input fs) (True, True, addr))\<^sup>*\<^sup>* (system_init sbuf es fs win rbuf er) y \<and>
    y_rx y = (if b = [] then Rx_linger 0 else Rx_loop False) \<and> y_tx y = (if b = [] then Tx_end 0 else Tx_loop True) \<and>
    r_out (y_r y) = b \<and> e_tx (y_s y) = e_tx es @ replicate (Suc k) (wire_of crc (chunk_segment 0 b)) \<and>
    (b \<noteq> [] \<longrightarrow> level crc (file_input fs) [b] ins win y)"
proof -
  let ?y = "system_init sbuf es fs win rbuf er" and ?step = "system_step crc K (file_input fs) (True, True, addr)"
  have s: "y_tx ?y = Tx_loop True" "at_rest crc [] (y_s ?y)" "tx_retry_count (y_s ?y) = 0" "e_tx (y_s ?y) = e_tx es"
    using sender_init_inv(1) [OF assms(1,2)] assms(3) by (simp_all add: system_init_def at_rest_def)
      (simp_all add: sender_init_def)
  have i: "tx_input (y_s ?y) = In_data b # ins" "chunks_in (file_input fs) (y_s ?y) = 0"
    using assms(10) by (simp_all add: system_init_def sender_init_def chunks_in_def)
  have take: "\<exists>y2. ?step\<^sup>*\<^sup>* y1 y2 \<and> same_sender y1 y2 \<and>
      (y_rx y2 = (if b = [] then Rx_linger 0 else Rx_loop False) \<and> in_step 1 (y_r y2) \<and>
        r_max_window (y_r y2) = win \<and> r_out (y_r y2) = b) \<and>
      (chunks_in (file_input fs) (y_s y1), wire_of crc (ack_for win (length []))) \<in> set (y_acks y2)"
    if y1: "same_receiver ?y y1" "set (y_data ?y) \<subseteq> set (y_data y1)"
      "(chunks_in (file_input fs) (y_s ?y), wire_of crc (chunk_segment (length []) b)) \<in> set (y_data y1)"
      "chunks_in (file_input fs) (y_s y1) \<le> Suc (chunks_in (file_input fs) (y_s ?y))" for y1
  proof -
    have r: "y_rx y1 = Rx_open" "y_r y1 = receiver_init win rbuf er"
      using y1(1) by (simp_all add: same_receiver_def system_init_def)
    have "chunks_in (file_input fs) (y_s y1) \<le> 0 + K"
      using y1(4) i(2) assms(4) by simp
    from open_steps [OF assms(5-9) r assms(11) y1(3) [unfolded list.size i(2)] this, of addr] show ?thesis
      by simp
  qed
  obtain y where y: "?step\<^sup>*\<^sup>* ?y y" "y_rx y = (if b = [] then Rx_linger 0 else Rx_loop False)"
    "in_step 1 (y_r y)" "r_max_window (y_r y) = win" "r_out (y_r y) = b"
    "y_tx y = (if b = [] then Tx_end 0 else Tx_loop True)" "at_rest crc [b] (y_s y)"
    "tx_retry_count (y_s y) = 0" "tx_input (y_s y) = ins"
    "e_tx (y_s y) = e_tx es @ replicate (Suc k) (wire_of crc (chunk_segment 0 b))"
    "(0, wire_of crc (chunk_segment 0 b)) \<in> set (y_data y)" "tx_dup_ack (y_s y) = 0"
    "(chunks_in (file_input fs) (y_s y), wire_of crc (ack_for win 0)) \<in> set (y_acks y)"
    "tx_last_in_read (y_s y) = int (length b)"
    using chunk_steps [OF s(1,2) i(1) assms(11) s(3) assms(12) _ assms(4,6,7) take] s(4) i(2) by auto
  have "level crc (file_input fs) [b] ins win y" if "b \<noteq> []"
  proof -
    have "\<exists>both. y_rx y = Rx_loop both"
      by (rule exI [of _ False]) (simp add: y(2) that)
    then show ?thesis
      unfolding level_def using y(3-14) that assms(10) by (simp add: chunks_in_def)
  qed
  then show ?thesis
    using y(1,2,5,6,10) by blast
qed

lemma end_step:
  assumes "y_rx y = Rx_linger retry"
  shows "\<exists>y'. system_step crc K input unblock y y' \<and> same_sender y y' \<and> y_rx y' = Rx_end 0 \<and> r_out (y_r y') = r_out (y_r y)"
proof -
  let ?r = "(y_r y)\<lparr>e_rx := []\<rparr>"
  have run: "receive_next crc unblock Poll_timeout (y_rx y) ?r = Inr (Rx_end 0, ?r)"
    using assms by (simp add: receive_next_def linger_round_def)
  let ?y = "y\<lparr>y_rx := Rx_end 0, y_r := ?r,
    y_acks := y_acks y @ map (Pair (chunks_in input (y_s y))) (written (y_r y) ?r)\<rparr>"
  have "system_step crc K input unblock y ?y"
    using run by (intro rx_moves [where evs = "[]"]) simp_all
  then show ?thesis
    by (intro exI [of _ ?y]) (simp add: same_sender_def)
qed

lemma level_end:
  assumes "level crc input R (map In_data (bs @ [[]])) win y" and "list_all (\<lambda>b. b \<noteq> [] \<and> length b \<le> 512) bs"
    and "tolerable lost" and "0 < K" and "0 < win" and "win \<le> 31"
  shows "\<exists>y'. (system_step crc K input unblock)\<^sup>*\<^sup>* y y' \<and> y_tx y' = Tx_end 0 \<and> y_rx y' = Rx_end 0 \<and>
    r_out (y_r y') = r_out (y_r y) @ concat bs \<and> e_tx (y_s y') = e_tx (y_s y) @ copies crc lost (length R) (bs @ [[]])"
proof -
  have "level crc input R (map In_data bs @ [In_data []]) win y"
    using assms(1) by simp
  from level_run [OF this assms(2-6)] obtain y1 where y1: "(system_step crc K input unblock)\<^sup>*\<^sup>* y y1"
    "level crc input (R @ bs) [In_data []] win y1" "r_out (y_r y1) = r_out (y_r y) @ concat bs"
    "e_tx (y_s y1) = e_tx (y_s y) @ copies crc lost (length R) bs"
    by blast
  let ?n = "length (R @ bs)"
  have e: "length ([] :: byte list) \<le> 512" "arrives_as crc K (R @ bs) [] []"
    by (simp_all add: arrives_as_def)
  obtain y2 where y2: "(system_step crc K input unblock)\<^sup>*\<^sup>* y1 y2" "y_rx y2 = Rx_linger 0" "took crc ?n [] (y_r y1) (y_r y2)"
    "y_tx y2 = Tx_end 0" "e_tx (y_s y2) = e_tx (y_s y1) @ replicate (Suc (lost ?n)) (wire_of crc (chunk_segment ?n []))"
    using level_step [OF y1(2) e(1) tolerableD [OF assms(3)] assms(4-6) e, where unblock = unblock] by auto
  obtain y3 where y3: "system_step crc K input unblock y2 y3" "same_sender y2 y3" "y_rx y3 = Rx_end 0" "r_out (y_r y3) = r_out (y_r y2)"
    using end_step [OF y2(2)] by blast
  have "(system_step crc K input unblock)\<^sup>*\<^sup>* y y3"
    using rtranclp_trans [of "system_step crc K input unblock", OF y1(1) y2(1)] y3(1) by (rule rtranclp.rtrancl_into_rtrancl)
  then show ?thesis
    using y1(3,4) y2(3-5) y3(2-4)
    by (intro exI [of _ y3]) (simp add: same_sender_def took_def copies_append copies_Cons copies_Nil)
qed

lemma run_to_end:
  assumes "pktbuf_new True c = Inr (Some sbuf)" and "unat c \<le> 128" and "e_wr es = []" and "0 < K"
    and "pktbuf_new True 32 = Inr (Some rbuf)" and "0 < win" and "win \<le> 31" and "e_wr er = []" and "e_connect er = 0"
    and "list_all (\<lambda>b. b \<noteq> [] \<and> length b \<le> 512) fs" and "tolerable lost"
  shows "\<exists>y. (system_step crc K (file_input fs) (True, True, addr))\<^sup>*\<^sup>* (system_init sbuf es fs win rbuf er) y \<and>
    y_tx y = Tx_end 0 \<and> y_rx y = Rx_end 0 \<and> r_out (y_r y) = concat fs \<and>
    e_tx (y_s y) = e_tx es @ copies crc lost 0 (fs @ [[]])"
proof (cases fs)
  case Nil
  let ?step = "system_step crc K (file_input fs) (True, True, addr)"
  have i: "file_input fs = In_data [] # []" "length ([] :: byte list) \<le> 512"
    using Nil by (simp_all add: file_input_def)
  obtain y1 where y1: "?step\<^sup>*\<^sup>* (system_init sbuf es fs win rbuf er) y1" "y_rx y1 = Rx_linger 0" "y_tx y1 = Tx_end 0"
    "r_out (y_r y1) = []" "e_tx (y_s y1) = e_tx es @ replicate (Suc (lost 0)) (wire_of crc (chunk_segment 0 []))"
    using level_start [OF assms(1-9) i tolerableD(1) [OF assms(11), of 0]] by auto
  obtain y where y: "?step y1 y" "same_sender y1 y" "y_rx y = Rx_end 0" "r_out (y_r y) = r_out (y_r y1)"
    using end_step [OF y1(2)] by blast
  have "?step\<^sup>*\<^sup>* (system_init sbuf es fs win rbuf er) y"
    using y1(1) y(1) by (rule rtranclp.rtrancl_into_rtrancl)
  then show ?thesis
    using y1(3-5) y(2-4) Nil by (intro exI [of _ y]) (simp add: same_sender_def copies_Nil copies_Cons)
next
  case (Cons b bs)
  let ?step = "system_step crc K (file_input fs) (True, True, addr)"
  have i: "file_input fs = In_data b # map In_data (bs @ [[]])" "length b \<le> 512"
    and bs: "b \<noteq> []" "list_all (\<lambda>b. b \<noteq> [] \<and> length b \<le> 512) bs"
    using Cons assms(10) by (simp_all add: file_input_def)
  obtain y1 where y1: "?step\<^sup>*\<^sup>* (system_init sbuf es fs win rbuf er) y1"
    "r_out (y_r y1) = b" "e_tx (y_s y1) = e_tx es @ replicate (Suc (lost 0)) (wire_of crc (chunk_segment 0 b))"
    "level crc (file_input fs) [b] (map In_data (bs @ [[]])) win y1"
    using level_start [OF assms(1-9) i tolerableD(1) [OF assms(11), of 0]] bs(1) by blast
  obtain y where y: "?step\<^sup>*\<^sup>* y1 y" "y_tx y = Tx_end 0" "y_rx y = Rx_end 0" "r_out (y_r y) = r_out (y_r y1) @ concat bs"
    "e_tx (y_s y) = e_tx (y_s y1) @ copies crc lost (length [b]) (bs @ [[]])"
    using level_end [OF y1(4) bs(2) assms(11,4,6,7)] by blast
  have "?step\<^sup>*\<^sup>* (system_init sbuf es fs win rbuf er) y"
    using y1(1) y(1) by (rule rtranclp_trans)
  then show ?thesis
    using y1(2,3) y(2-5) Cons by (intro exI [of _ y]) (simp add: copies_Cons)
qed

section \<open>A datagram kept too long\<close>

text \<open>Both reach any chunk of the file.\<close>

lemma level_reached:
  assumes "pktbuf_new True c = Inr (Some sbuf)" and "unat c \<le> 128" and "e_wr es = []" and "0 < K"
    and "pktbuf_new True 32 = Inr (Some rbuf)" and "0 < win" and "win \<le> 31" and "e_wr er = []" and "e_connect er = 0"
    and "list_all (\<lambda>b. b \<noteq> [] \<and> length b \<le> 512) fs" and "0 < n" and "n \<le> length fs"
  shows "\<exists>y. (system_step crc K (file_input fs) (True, True, addr))\<^sup>*\<^sup>* (system_init sbuf es fs win rbuf er) y \<and>
    level crc (file_input fs) (take n fs) (map In_data (drop n fs @ [[]])) win y \<and> r_out (y_r y) = concat (take n fs)"
proof -
  let ?step = "system_step crc K (file_input fs) (True, True, addr)"
  obtain b bs where fs: "take n fs = b # bs"
    using assms(11,12) by (cases "take n fs") auto
  then have whole: "fs = (b # bs) @ drop n fs"
    by (metis append_take_drop_id)
  then have "list_all (\<lambda>b. b \<noteq> [] \<and> length b \<le> 512) ((b # bs) @ drop n fs)"
    using assms(10) by metis
  then have b: "length b \<le> 512" "b \<noteq> []" and bs: "list_all (\<lambda>b. b \<noteq> [] \<and> length b \<le> 512) bs"
    by simp_all
  have "file_input fs = map In_data ((b # bs) @ drop n fs @ [[]])"
    using whole by (metis append.assoc file_input_def)
  then have i: "file_input fs = In_data b # (map In_data bs @ map In_data (drop n fs @ [[]]))"
    by simp
  have t: "tolerable (\<lambda>_. 0)"
    by (simp add: tolerable_def)
  obtain y1 where y1: "?step\<^sup>*\<^sup>* (system_init sbuf es fs win rbuf er) y1" "r_out (y_r y1) = b"
    "level crc (file_input fs) [b] (map In_data bs @ map In_data (drop n fs @ [[]])) win y1"
    using level_start [OF assms(1-9) i b(1), of 0] b(2) by blast
  obtain y where y: "?step\<^sup>*\<^sup>* y1 y" "level crc (file_input fs) ([b] @ bs) (map In_data (drop n fs @ [[]])) win y"
    "r_out (y_r y) = r_out (y_r y1) @ concat bs"
    using level_run [OF y1(3) bs t assms(4,6,7)] by blast
  have "?step\<^sup>*\<^sup>* (system_init sbuf es fs win rbuf er) y"
    using y1(1) y(1) by (rule rtranclp_trans)
  then show ?thesis
    using y(2,3) y1(2) fs by (intro exI [of _ y]) simp
qed

lemma stale_run:
  assumes "pktbuf_new True c = Inr (Some sbuf)" and "unat c \<le> 128" and "e_wr es = []" and "257 \<le> K"
    and "pktbuf_new True 32 = Inr (Some rbuf)" and "0 < win" and "win \<le> 31" and "e_wr er = []" and "e_connect er = 0"
    and "list_all (\<lambda>b. b \<noteq> [] \<and> length b \<le> 512) fs" and "i + 256 < length fs"
  shows "\<exists>y. (system_step crc K (file_input fs) (True, True, addr))\<^sup>*\<^sup>* (system_init sbuf es fs win rbuf er) y \<and>
    y_tx y = Tx_end 0 \<and> y_rx y = Rx_end 0 \<and> r_out (y_r y) = concat (fs[i + 256 := fs ! i])"
proof -
  let ?step = "system_step crc K (file_input fs) (True, True, addr)" and ?n = "i + 256"
  have K: "0 < K" and n: "0 < ?n" "?n \<le> length fs"
    using assms(4,11) by simp_all
  obtain y1 where y1: "?step\<^sup>*\<^sup>* (system_init sbuf es fs win rbuf er) y1"
    "level crc (file_input fs) (take ?n fs) (map In_data (drop ?n fs @ [[]])) win y1" "r_out (y_r y1) = concat (take ?n fs)"
    using level_reached [OF assms(1-3) K assms(5-10) n] by blast
  have l: "level crc (file_input fs) (take ?n fs) (In_data (fs ! ?n) # map In_data (drop (Suc ?n) fs @ [[]])) win y1"
    using y1(2) unfolding Cons_nth_drop_Suc [OF assms(11), symmetric] append_Cons list.map .
  have b: "fs ! ?n \<noteq> []" "length (fs ! ?n) \<le> 512" "fs ! i \<noteq> []" "length (fs ! i) \<le> 512"
    and rest: "list_all (\<lambda>b. b \<noteq> [] \<and> length b \<le> 512) (drop (Suc ?n) fs)"
    using assms(10,11) by (auto simp: list_all_length)
  have len: "length (take ?n fs) = ?n"
    using assms(11) by simp
  have seg: "chunk_segment i (fs ! i) = chunk_segment ?n (fs ! i)"
    by (simp add: chunk_segment_def)
  have a: "arrives_as crc K (take ?n fs) (fs ! ?n) (fs ! i)"
    unfolding arrives_as_def len using assms(4) seg by (intro disjI2 exI [of _ i]) simp
  have z: "(0 :: nat) \<le> 5" "length (take ?n fs) mod 256 = 255 \<longrightarrow> (0 :: nat) = 0"
    by simp_all
  have t: "tolerable (\<lambda>_. 0)"
    by (simp add: tolerable_def)
  obtain y2 where y2: "?step\<^sup>*\<^sup>* y1 y2" "took crc (length (take ?n fs)) (fs ! i) (y_r y1) (y_r y2)"
    "level crc (file_input fs) (take ?n fs @ [fs ! ?n]) (map In_data (drop (Suc ?n) fs @ [[]])) win y2"
    using level_step [OF l b(2) z K assms(6,7) b(4) a, where unblock = "(True, True, addr)"] b(1,3) by blast
  obtain y where y: "?step\<^sup>*\<^sup>* y2 y" "y_tx y = Tx_end 0" "y_rx y = Rx_end 0"
    "r_out (y_r y) = r_out (y_r y2) @ concat (drop (Suc ?n) fs)"
    using level_end [OF y2(3) rest t K assms(6,7)] by blast
  have "?step\<^sup>*\<^sup>* (system_init sbuf es fs win rbuf er) y"
    using rtranclp_trans [of ?step, OF y1(1) y2(1)] y(1) by (rule rtranclp_trans)
  then show ?thesis
    using y(2-4) y1(3) y2(2) upd_conv_take_nth_drop [OF assms(11), of "fs ! i"]
    by (intro exI [of _ y]) (simp add: took_def)
qed

end
