(* ===== verification/System_Crash.thy ===== *)
theory System_Crash
  imports System_Run
begin

text \<open>
  A run in which the network repeats one acknowledgement, and the sender follows a null pointer.
\<close>

unbundle bit_operations_syntax

declare nth_items [simp del]

text \<open>The sender has nothing to send and has seen the last acknowledgement \<open>k\<close> more times.\<close>

definition repeated :: "crc_fun \<Rightarrow> byte list list \<Rightarrow> nat \<Rightarrow> system \<Rightarrow> bool" where
  "repeated crc R k y \<longleftrightarrow> (\<exists>both. y_tx y = Tx_loop both) \<and> at_rest crc R (y_s y) \<and>
     tx_last_in_read (y_s y) \<noteq> 0 \<and> tx_dup_ack (y_s y) = of_nat k"

lemma at_rest_empty:
  assumes "at_rest crc R s"
  shows "pktbuf_empty (tx_buf s)" "outstanding s = 0" "tx_last_sent s = tx_last_chunk_read s"
    "tx_last_ack s = of_nat (length R)"
proof -
  have inv: "sender_inv crc (length R) R s"
    using assms by (simp add: at_rest_def)
  note i = sender_invD [OF inv]
  show "pktbuf_empty (tx_buf s)" "outstanding s = 0" "tx_last_ack s = of_nat (length R)"
    using i(4,6,8) by (simp_all add: used_eq_0)
  then show "tx_last_sent s = tx_last_chunk_read s"
    using outstanding_chunks(1) [OF inv] by simp
qed

lemma repeat_round:
  assumes "repeated crc R k y" and "k < 2" and "acks_chunk n seg" and "Suc n = length R"
  shows "\<exists>both s'. transmit_round crc (Poll_events False True) b ((y_s y)\<lparr>e_rx := [Rx src (wire_of crc seg)]\<rparr>) = Inr (Tx_loop both, s') \<and>
    at_rest crc R s' \<and> tx_last_in_read s' \<noteq> 0 \<and> tx_dup_ack s' = of_nat (Suc k) \<and> e_tx s' = e_tx (y_s y) \<and>
    tx_input s' = tx_input (y_s y)"
proof -
  let ?s = "(y_s y)\<lparr>e_rx := [Rx src (wire_of crc seg)]\<rparr>"
  let ?t = "?s\<lparr>tx_retry_count := 0, e_rx := [], tx_last_win := ucast (s_window seg)\<rparr>"
  let ?s' = "?t\<lparr>tx_dup_ack := of_nat (Suc k)\<rparr>"
  have y: "at_rest crc R (y_s y)" "tx_last_in_read (y_s y) \<noteq> 0" "tx_dup_ack (y_s y) = of_nat k"
    using assms(1) by (simp_all add: repeated_def)
  note e = at_rest_empty [OF y(1)]
  have seg: "s_type seg = ucast PTYPE_ACK" "s_seq seg = tx_last_ack ?s" "s_window seg \<noteq> 0"
    using assms(3,4) e(4) by (auto simp: acks_chunk_def simp del: of_nat_Suc)
  have three: "(of_nat k + 1 :: u8) \<noteq> 3"
    using assms(2) by (auto simp: less_2_cases_iff)
  have "handle_socket_read crc ?s = process_dup_ack (s_seq seg) ?t"
    using ack_round [OF _ acks_chunk_datagram [OF assms(3)] seg(1), where s = ?s and src = src and evs = "[]"] seg(2) by simp
  also have "\<dots> = Inr (0, ?s')"
    using y(3) three by (simp add: process_dup_ack_def add.commute)
  finally have read: "handle_socket_read crc ?s = Inr (0, ?s')" .
  have "do_send_sbuf ?s' = Inr (0, ?s')"
    using e(3) by (subst do_send_sbuf.simps) simp
  then have "transmit_round crc (Poll_events False True) b ?s = Inr (Tx_loop (\<not> pktbuf_full (tx_buf ?s')), ?s')"
    using read y(2) by (simp add: transmit_round_def transmit_ready_def tx_goes_on_def)
  moreover have "ucast (s_window seg) \<noteq> (0 :: u8)"
    using seg(3) by (simp add: word_unat_eq_iff unat_ucast_up)
  then have "at_rest crc R ?s'"
    using y(1) by (simp add: at_rest_def)
  ultimately show ?thesis
    using y(2) by (intro exI [of _ "\<not> pktbuf_full (tx_buf ?s')"] exI [of _ ?s']) simp
qed

lemma repeat_step:
  assumes "repeated crc R k y" and "k < 2" and "acks_chunk n seg" and "Suc n = length R"
    and "(t, wire_of crc seg) \<in> set (y_acks y)" and "chunks_in input (y_s y) \<le> t + K"
  shows "\<exists>y'. system_step crc K input unblock y y' \<and> repeated crc R (Suc k) y' \<and> y_acks y' = y_acks y \<and>
    chunks_in input (y_s y') = chunks_in input (y_s y) \<and> e_tx (y_s y') = e_tx (y_s y)"
proof -
  obtain b where b: "y_tx y = Tx_loop b"
    using assms(1) by (auto simp: repeated_def)
  obtain both s' where r: "transmit_round crc (Poll_events False True) b ((y_s y)\<lparr>e_rx := [Rx [] (wire_of crc seg)]\<rparr>) = Inr (Tx_loop both, s')"
    "at_rest crc R s'" "tx_last_in_read s' \<noteq> 0" "tx_dup_ack s' = of_nat (Suc k)" "e_tx s' = e_tx (y_s y)"
    "tx_input s' = tx_input (y_s y)"
    using repeat_round [OF assms(1-4)] by blast
  have "ack_arrives crc K (chunks_in input (y_s y)) (y_acks y) (Rx [] (wire_of crc seg))"
    by (rule ack_comes [OF assms(3,5,6)])
  then have "system_step crc K input unblock y (y\<lparr>y_tx := Tx_loop both, y_s := s',
      y_data := y_data y @ map (Pair (chunks_in input (y_s y))) (written (y_s y) s')\<rparr>)"
    using b r(1) by (intro tx_moves [where evs = "[Rx [] (wire_of crc seg)]"]) simp_all
  then show ?thesis
    using r(2-6) by (intro exI [of _ "y\<lparr>y_tx := Tx_loop both, y_s := s',
      y_data := y_data y @ map (Pair (chunks_in input (y_s y))) (written (y_s y) s')\<rparr>"])
      (simp add: repeated_def chunks_in_def del: of_nat_Suc)
qed

lemma repeated_crashes:
  assumes "repeated crc R 2 y" and "acks_chunk n seg" and "Suc n = length R"
  shows "third_repeat crc ((y_s y)\<lparr>e_rx := [Rx src (wire_of crc seg)]\<rparr>)"
proof -
  have y: "at_rest crc R (y_s y)" "tx_dup_ack (y_s y) = 2"
    using assms(1) by (simp_all add: repeated_def)
  note e = at_rest_empty [OF y(1)]
  have "s_type seg = ucast PTYPE_ACK" "s_seq seg = tx_last_ack (y_s y)"
    using assms(2,3) e(4) by (auto simp: acks_chunk_def simp del: of_nat_Suc)
  then show ?thesis
    using y(2) e(1) acks_chunk_datagram [OF assms(2)] by (auto simp: third_repeat_def)
qed

text \<open>One chunk goes over, and its acknowledgement comes back four times.\<close>

lemma crash_reached:
  assumes "pktbuf_new True c = Inr (Some sbuf)" and "unat c \<le> 128" and "e_wr es = []" and "0 < K"
    and "pktbuf_new True 32 = Inr (Some rbuf)" and "0 < win" and "win \<le> 31" and "e_wr er = []" and "e_connect er = 0"
    and "list_all (\<lambda>b. b \<noteq> [] \<and> length b \<le> 512) (b # fs)"
  shows "\<exists>y both. (system_step crc K (file_input (b # fs)) (True, True, addr))\<^sup>*\<^sup>* (system_init sbuf es (b # fs) win rbuf er) y \<and>
    y_tx y = Tx_loop both \<and> third_repeat crc ((y_s y)\<lparr>e_rx := [Rx src (wire_of crc (ack_for win 0))]\<rparr>) \<and>
    (Suc 0, wire_of crc (ack_for win 0)) \<in> set (y_acks y) \<and> chunks_in (file_input (b # fs)) (y_s y) = Suc 0"
proof -
  let ?in = "file_input (b # fs)" and ?seg = "ack_for win 0"
  let ?step = "system_step crc K ?in (True, True, addr)" and ?y0 = "system_init sbuf es (b # fs) win rbuf er"
  have one: "(0 :: nat) < 1" "1 \<le> length (b # fs)"
    by simp_all
  obtain y1 where y1: "?step\<^sup>*\<^sup>* ?y0 y1" "level crc ?in [b] (map In_data (fs @ [[]])) win y1"
    using level_reached [OF assms one, of crc addr] by auto
  note l = y1(2) [unfolded level_def]
  have r: "repeated crc [b] 0 y1" "(Suc 0, wire_of crc ?seg) \<in> set (y_acks y1)" "chunks_in ?in (y_s y1) = Suc 0"
    using l levelD(1) [OF y1(2)] by (auto simp: repeated_def)
  have a: "acks_chunk 0 ?seg" "Suc 0 = length [b]"
    using ack_for_acks [OF assms(6,7), of 0] by simp_all
  have now: "chunks_in ?in (y_s y1) \<le> Suc 0 + K"
    using r(3) by simp
  obtain y2 where y2: "?step y1 y2" "repeated crc [b] (Suc 0) y2" "y_acks y2 = y_acks y1" "chunks_in ?in (y_s y2) = Suc 0"
    using repeat_step [OF r(1) _ a r(2) now] r(3) by fastforce
  have r2: "(Suc 0, wire_of crc ?seg) \<in> set (y_acks y2)" "chunks_in ?in (y_s y2) \<le> Suc 0 + K"
    using r(2) y2(3,4) by simp_all
  obtain y3 where y3: "?step y2 y3" "repeated crc [b] (Suc (Suc 0)) y3" "y_acks y3 = y_acks y2" "chunks_in ?in (y_s y3) = Suc 0"
    using repeat_step [OF y2(2) _ a r2] y2(4) by fastforce
  have "?step\<^sup>*\<^sup>* ?y0 y3"
    using y1(1) y2(1) y3(1) by (meson rtranclp.rtrancl_into_rtrancl)
  moreover have "third_repeat crc ((y_s y3)\<lparr>e_rx := [Rx src (wire_of crc ?seg)]\<rparr>)"
    using y3(2) by (intro repeated_crashes [OF _ a]) (simp add: numeral_2_eq_2)
  moreover obtain both where "y_tx y3 = Tx_loop both"
    using y3(2) by (auto simp: repeated_def)
  ultimately show ?thesis
    using r2(1) y3(3,4) by auto
qed

end
