(* ===== verification/System_Props.thy ===== *)
theory System_Props
  imports System_Crash
begin

text \<open>What the two programs and the network promise together.\<close>

unbundle bit_operations_syntax

section \<open>The properties\<close>

lemma demo_env_quiet: "e_wr demo_env = []" "e_connect demo_env = 0"
  by (simp_all add: demo_env_def)

lemma demo_small: "list_all (\<lambda>b. b \<noteq> [] \<and> length b \<le> 512) demo_chunks"
  by (simp add: demo_chunks_def)

text \<open>
  C1. A file of any length goes from \<open>transmit\<close> to \<open>receive\<close>, in whatever order their steps and the
  network's take place, as long as no datagram survives the reading of \<open>K\<close> more chunks, where
  \<open>K\<close> and the number of slots of the sender's buffer are 224 at most together: in every state
  the receiver has written the first chunks of the file, in order; and the whole file when
  \<open>transmit\<close> has returned 0, when \<open>receive\<close> sends its last acknowledgement, and when it has returned 0.
\<close>

theorem system_delivers:
  assumes "unat c + K \<le> 224" and "list_all (\<lambda>b. b \<noteq> [] \<and> length b \<le> 512) fs"
    and "pktbuf_new True c = Inr (Some sbuf)" and "unat c \<le> 128" and "e_wr es = []"
    and "pktbuf_new True 32 = Inr (Some rbuf)" and "win \<le> 31" and "e_wr er = []"
    and "(system_step crc K (file_input fs) unblock)\<^sup>*\<^sup>* (system_init sbuf es fs win rbuf er) y"
  shows "(\<exists>n. r_out (y_r y) = concat (take n fs)) \<and>
    (y_tx y = Tx_end 0 \<or> (\<exists>retry. y_rx y = Rx_linger retry) \<or> y_rx y = Rx_end 0 \<longrightarrow> r_out (y_r y) = concat fs)"
  by (rule system_inv_out [OF system_reachable [OF numbers_fitI [OF assms(1)] assms(2-9)] assms(2)])

theorem system_delivers_witness:
  "\<exists>sbuf rbuf y. pktbuf_new True 4 = Inr (Some sbuf) \<and> pktbuf_new True 32 = Inr (Some rbuf) \<and>
    (system_step demo_crc 220 (file_input demo_chunks) (True, True, 0))\<^sup>*\<^sup>* (system_init sbuf demo_env demo_chunks 31 rbuf demo_env) y \<and>
    y_tx y = Tx_end 0 \<and> (\<exists>n. r_out (y_r y) = concat (take n demo_chunks)) \<and>
    (y_tx y = Tx_end 0 \<or> (\<exists>retry. y_rx y = Rx_linger retry) \<or> y_rx y = Rx_end 0 \<longrightarrow> r_out (y_r y) = concat demo_chunks)"
proof -
  obtain sbuf rbuf where b: "pktbuf_new True 4 = Inr (Some sbuf)" "pktbuf_new True 32 = Inr (Some rbuf)"
    using new_buffers by blast
  have t: "tolerable (\<lambda>i. if i = 0 then 2 else 0)"
    by (simp add: tolerable_def)
  obtain y where y: "(system_step demo_crc 220 (file_input demo_chunks) (True, True, 0))\<^sup>*\<^sup>*
      (system_init sbuf demo_env demo_chunks 31 rbuf demo_env) y" "y_tx y = Tx_end 0"
    using run_to_end [OF b(1) _ demo_env_quiet(1) _ b(2) _ _ demo_env_quiet demo_small t, of 220 31 demo_crc 0] by auto
  have "unat (4 :: u32) + 220 \<le> 224" "unat (4 :: u32) \<le> 128" "(31 :: u32) \<le> 31"
    by simp_all
  from system_delivers [OF this(1) demo_small b(1) this(2) demo_env_quiet(1) b(2) this(3) demo_env_quiet(1) y(1)]
  show ?thesis
    using b y by blast
qed

text \<open>
  C2. The system can always come to its end, with both programs returning 0 and the whole file
  written, even if the network loses the first copies of every chunk: up to five of each, which
  are sent again after a timeout, but none of a chunk whose number is 255 modulo 256. (A sixth
  loss ends the transfer, and a timeout after number 255 ends the process.)
\<close>

theorem system_completes:
  assumes "pktbuf_new True c = Inr (Some sbuf)" and "unat c \<le> 128" and "e_wr es = []" and "0 < K"
    and "pktbuf_new True 32 = Inr (Some rbuf)" and "0 < win" and "win \<le> 31" and "e_wr er = []" and "e_connect er = 0"
    and "list_all (\<lambda>b. b \<noteq> [] \<and> length b \<le> 512) fs" and "tolerable lost"
  shows "\<exists>y. (system_step crc K (file_input fs) (True, True, addr))\<^sup>*\<^sup>* (system_init sbuf es fs win rbuf er) y \<and>
    y_tx y = Tx_end 0 \<and> y_rx y = Rx_end 0 \<and> r_out (y_r y) = concat fs \<and>
    e_tx (y_s y) = e_tx es @ copies crc lost 0 (fs @ [[]])"
  by (rule run_to_end [OF assms])

theorem system_completes_witness:
  "\<exists>sbuf rbuf y. (system_step demo_crc 1 (file_input demo_chunks) (True, True, 0))\<^sup>*\<^sup>*
      (system_init sbuf demo_env demo_chunks 31 rbuf demo_env) y \<and>
    y_tx y = Tx_end 0 \<and> y_rx y = Rx_end 0 \<and> r_out (y_r y) = [1, 2, 3] \<and>
    e_tx (y_s y) = e_tx demo_env @ copies demo_crc (\<lambda>i. if i = 1 then 5 else 0) 0 (demo_chunks @ [[]])"
proof -
  obtain sbuf rbuf where b: "pktbuf_new True 4 = Inr (Some sbuf)" "pktbuf_new True 32 = Inr (Some rbuf)"
    using new_buffers by blast
  have t: "tolerable (\<lambda>i. if i = 1 then 5 else 0)"
    by (simp add: tolerable_def)
  have out: "concat demo_chunks = [1, 2, 3]"
    by (simp add: demo_chunks_def)
  show ?thesis
    using system_completes [OF b(1) _ demo_env_quiet(1) _ b(2) _ _ demo_env_quiet demo_small t, of 1 31 demo_crc 0]
    unfolding out by auto
qed

text \<open>
  C7. The bound on the age of a datagram is needed: a network that can still deliver a datagram
  when the sender has read 257 more chunks can put chunk \<open>i\<close> in the place of chunk \<open>i + 256\<close>, which
  has the same sequence number. No check of either program notices: the file written is wrong in
  that chunk and both return 0.
\<close>

theorem stale_datagram_corrupts:
  assumes "pktbuf_new True c = Inr (Some sbuf)" and "unat c \<le> 128" and "e_wr es = []" and "257 \<le> K"
    and "pktbuf_new True 32 = Inr (Some rbuf)" and "0 < win" and "win \<le> 31" and "e_wr er = []" and "e_connect er = 0"
    and "list_all (\<lambda>b. b \<noteq> [] \<and> length b \<le> 512) fs" and "i + 256 < length fs"
  shows "\<exists>y. (system_step crc K (file_input fs) (True, True, addr))\<^sup>*\<^sup>* (system_init sbuf es fs win rbuf er) y \<and>
    y_tx y = Tx_end 0 \<and> y_rx y = Rx_end 0 \<and> r_out (y_r y) = concat (fs[i + 256 := fs ! i])"
  by (rule stale_run [OF assms])

lemma last_chunk_replaced: "0 < n \<Longrightarrow> concat ((replicate n [0] @ [[1 :: byte]])[0 + n := (replicate n [0] @ [[1]]) ! 0]) \<noteq>
    concat (replicate n [0] @ [[1]])"
  by (simp add: list_update_append nth_append)

theorem stale_datagram_corrupts_witness:
  "\<exists>sbuf rbuf y. (system_step demo_crc 257 (file_input (replicate 256 [0] @ [[1]])) (True, True, 0))\<^sup>*\<^sup>*
      (system_init sbuf demo_env (replicate 256 [0] @ [[1]]) 31 rbuf demo_env) y \<and>
    y_tx y = Tx_end 0 \<and> y_rx y = Rx_end 0 \<and> r_out (y_r y) \<noteq> concat (replicate 256 [0] @ [[1]])"
proof -
  let ?fs = "replicate 256 [0] @ [[1 :: byte]]"
  obtain sbuf rbuf where b: "pktbuf_new True 4 = Inr (Some sbuf)" "pktbuf_new True 32 = Inr (Some rbuf)"
    using new_buffers by blast
  have n: "unat (4 :: u32) \<le> 128" "(257 :: nat) \<le> 257" "0 < (31 :: u32)" "(31 :: u32) \<le> 31" "0 + 256 < length ?fs"
    by simp_all
  have fs: "list_all (\<lambda>b. b \<noteq> [] \<and> length b \<le> 512) ?fs"
    by (simp add: list_all_length nth_append)
  have wrong: "concat (?fs[0 + 256 := ?fs ! 0]) \<noteq> concat ?fs"
    by (rule last_chunk_replaced) simp
  obtain y where y: "(system_step demo_crc 257 (file_input ?fs) (True, True, 0))\<^sup>*\<^sup>* (system_init sbuf demo_env ?fs 31 rbuf demo_env) y"
    "y_tx y = Tx_end 0" "y_rx y = Rx_end 0" "r_out (y_r y) = concat (?fs[0 + 256 := ?fs ! 0])"
    using stale_datagram_corrupts [OF b(1) n(1) demo_env_quiet(1) n(2) b(2) n(3,4) demo_env_quiet fs n(5), of demo_crc 0] by blast
  have "r_out (y_r y) \<noteq> concat ?fs"
    unfolding y(4) by (rule wrong)
  then show ?thesis
    by (intro exI [of _ sbuf] exI [of _ rbuf] exI [of _ y] conjI y(1-3))
qed

text \<open>
  C5. A file of at most 223 chunks needs no bound on the age of a datagram: whatever the network
  keeps, for however long (\<open>K\<close> is any number), in every state the receiver has written the first
  chunks of the file, in order; and the whole file when \<open>transmit\<close> has returned 0, when \<open>receive\<close>
  sends its last acknowledgement, and when it has returned 0. (More chunks repeat sequence numbers,
  and a segment that is old enough passes for a new one.)
\<close>

theorem short_file_delivers:
  assumes "length fs \<le> 223" and "list_all (\<lambda>b. b \<noteq> [] \<and> length b \<le> 512) fs"
    and "pktbuf_new True c = Inr (Some sbuf)" and "unat c \<le> 128" and "e_wr es = []"
    and "pktbuf_new True 32 = Inr (Some rbuf)" and "win \<le> 31" and "e_wr er = []"
    and "(system_step crc K (file_input fs) unblock)\<^sup>*\<^sup>* (system_init sbuf es fs win rbuf er) y"
  shows "(\<exists>n. r_out (y_r y) = concat (take n fs)) \<and>
    (y_tx y = Tx_end 0 \<or> (\<exists>retry. y_rx y = Rx_linger retry) \<or> y_rx y = Rx_end 0 \<longrightarrow> r_out (y_r y) = concat fs)"
  by (rule system_inv_out [OF system_reachable [OF numbers_fit_short [OF assms(1)] assms(2-9)] assms(2)])

theorem short_file_delivers_witness:
  "\<exists>sbuf rbuf y. pktbuf_new True 4 = Inr (Some sbuf) \<and> pktbuf_new True 32 = Inr (Some rbuf) \<and>
    (system_step demo_crc 1000 (file_input demo_chunks) (True, True, 0))\<^sup>*\<^sup>* (system_init sbuf demo_env demo_chunks 31 rbuf demo_env) y \<and>
    y_tx y = Tx_end 0 \<and> r_out (y_r y) = concat demo_chunks"
proof -
  obtain sbuf rbuf where b: "pktbuf_new True 4 = Inr (Some sbuf)" "pktbuf_new True 32 = Inr (Some rbuf)"
    using new_buffers by blast
  have t: "tolerable (\<lambda>i. 0)"
    by (simp add: tolerable_def)
  obtain y where y: "(system_step demo_crc 1000 (file_input demo_chunks) (True, True, 0))\<^sup>*\<^sup>*
      (system_init sbuf demo_env demo_chunks 31 rbuf demo_env) y" "y_tx y = Tx_end 0"
    using run_to_end [OF b(1) _ demo_env_quiet(1) _ b(2) _ _ demo_env_quiet demo_small t, of 1000 31 demo_crc 0] by auto
  have "length demo_chunks \<le> 223" "unat (4 :: u32) \<le> 128" "(31 :: u32) \<le> 31"
    by (simp_all add: demo_chunks_def)
  from short_file_delivers [OF this(1) demo_small b(1) this(2) demo_env_quiet(1) b(2) this(3) demo_env_quiet(1) y(1)]
  show ?thesis
    using b y by blast
qed

text \<open>
  C6. In every state the system can reach, the next step of \<open>receive\<close>, with any datagrams that are
  not forged and not too old (and any garbage and errors), never stops the process, fails a check
  or leaves an array; it can only block. A round of \<open>transmit\<close>, whatever arrives in it, stops the
  process in exactly two situations: it reads the third acknowledgement in a row that repeats the
  last one while its buffer is empty, and follows a null pointer (\<open>third_repeat\<close>); or a timeout
  comes with something in the buffer when the last packet sent has number 255 and fewer than five
  timeouts have been counted, and a check ends the process. It blocks exactly when it reads a
  socket from which nothing comes.
\<close>

theorem system_faults:
  assumes "unat c + K \<le> 224" and "list_all (\<lambda>b. b \<noteq> [] \<and> length b \<le> 512) fs"
    and "pktbuf_new True c = Inr (Some sbuf)" and "unat c \<le> 128" and "e_wr es = []"
    and "pktbuf_new True 32 = Inr (Some rbuf)" and "win \<le> 31" and "e_wr er = []"
    and "(system_step crc K (file_input fs) unblock)\<^sup>*\<^sup>* (system_init sbuf es fs win rbuf er) y"
  shows "(list_all (data_arrives crc K (chunks_in (file_input fs) (y_s y)) (y_data y)) evs \<longrightarrow>
      receive_next crc unblock rpoll (y_rx y) ((y_r y)\<lparr>e_rx := evs\<rparr>) = Inl f \<longrightarrow> f = Blocked) \<and>
    (y_tx y = Tx_loop both \<longrightarrow>
      (transmit_round crc tpoll both ((y_s y)\<lparr>e_rx := acks\<rparr>) = Inl g \<longleftrightarrow>
       (case tpoll of
          Poll_failed \<Rightarrow> False
        | Poll_events file_ev sock_ev \<Rightarrow>
            sock_ev \<and> (acks = [] \<and> g = Blocked \<or> third_repeat crc ((y_s y)\<lparr>e_rx := acks\<rparr>) \<and> g = Null_deref)
        | Poll_expired \<Rightarrow>
            tx_last_sent (y_s y) = 255 \<and> tx_retry_count (y_s y) < 5 \<and> \<not> pktbuf_empty (tx_buf (y_s y)) \<and>
            g = Exit_failure)))"
proof -
  have inv: "system_inv crc (unat c) fs (receiver_init win rbuf er) y"
    using system_reachable [OF numbers_fitI [OF assms(1)] assms(2-9)] .
  have "transmit_round crc tpoll both ((y_s y)\<lparr>e_rx := acks\<rparr>) = Inl g \<longleftrightarrow>
      round_stops crc tpoll ((y_s y)\<lparr>e_rx := acks\<rparr>) g" if "y_tx y = Tx_loop both"
    using sender_fault [OF inv assms(2) that] .
  then show ?thesis
    using receiver_fault [OF inv assms(2) numbers_fitI [OF assms(1)] assms(6-8), of evs unblock rpoll f]
    by (cases tpoll) (auto simp: round_stops_def)
qed

theorem system_faults_witness:
  "\<exists>sbuf rbuf y both. (system_step demo_crc 220 (file_input demo_chunks) (True, True, 0))\<^sup>*\<^sup>*
      (system_init sbuf demo_env demo_chunks 31 rbuf demo_env) y \<and> y_tx y = Tx_loop both \<and>
    transmit_round demo_crc (Poll_events False True) both ((y_s y)\<lparr>e_rx := [Rx [] (wire_of demo_crc (ack_for 31 0))]\<rparr>) =
      Inl Null_deref \<and>
    (\<forall>f. receive_next demo_crc (True, True, 0) Poll_error (y_rx y) ((y_r y)\<lparr>e_rx := [Rx_error]\<rparr>) = Inl f \<longrightarrow> f = Blocked)"
proof -
  obtain sbuf rbuf where b: "pktbuf_new True 4 = Inr (Some sbuf)" "pktbuf_new True 32 = Inr (Some rbuf)"
    using new_buffers by blast
  have n: "unat (4 :: u32) + 220 \<le> 224" "unat (4 :: u32) \<le> 128" "(31 :: u32) \<le> 31" "(0 :: u32) < 31" "(0 :: nat) < 220"
    by simp_all
  obtain y both where y: "(system_step demo_crc 220 (file_input demo_chunks) (True, True, 0))\<^sup>*\<^sup>*
      (system_init sbuf demo_env demo_chunks 31 rbuf demo_env) y" "y_tx y = Tx_loop both"
    "third_repeat demo_crc ((y_s y)\<lparr>e_rx := [Rx [] (wire_of demo_crc (ack_for 31 0))]\<rparr>)"
    using crash_reached [OF b(1) n(2) demo_env_quiet(1) n(5) b(2) n(4,3) demo_env_quiet demo_small [unfolded demo_chunks_def],
        of demo_crc 0, folded demo_chunks_def] by blast
  note faults = system_faults [OF n(1) demo_small b(1) n(2) demo_env_quiet(1) b(2) n(3) demo_env_quiet(1) y(1)]
  have "transmit_round demo_crc (Poll_events False True) both ((y_s y)\<lparr>e_rx := [Rx [] (wire_of demo_crc (ack_for 31 0))]\<rparr>) =
      Inl Null_deref"
    using faults [of "[]" Poll_error Blocked both "Poll_events False True" "[Rx [] (wire_of demo_crc (ack_for 31 0))]" Null_deref] y(2,3)
    by simp
  moreover have "f = Blocked" if "receive_next demo_crc (True, True, 0) Poll_error (y_rx y) ((y_r y)\<lparr>e_rx := [Rx_error]\<rparr>) = Inl f" for f
    using faults [of "[Rx_error]" Poll_error f both Poll_failed "[]" Blocked] that by (simp add: data_arrives_def)
  ultimately show ?thesis
    using y(1,2) by blast
qed



end
