(* ===== verification/Silence.thy ===== *)
theory Silence
  imports System_Props
begin

text \<open>
  When nothing arrives any more: the sender sends its window again five times and gives up, the
  receiver gives up at once, and neither claims a success that it did not have.
\<close>

unbundle bit_operations_syntax

declare nth_items [simp del]

section \<open>Timeouts in a row\<close>

lemma expired_again:
  assumes "sender_inv crc A R s" and "e_wr s = []" and "A < length R" and "tx_last_sent s \<noteq> 255"
    and "tx_retry_count s < 5"
  shows "transmit_loop crc both (Poll_expired # polls) s = transmit_loop crc both polls
    (s\<lparr>tx_retry_count := tx_retry_count s + 1, tx_dup_ack := 0, e_tx := e_tx s @ sends crc R A (A + outstanding s)\<rparr>)"
proof -
  have "used (tx_buf s) \<noteq> 0"
    using sender_invD(4) [OF assms(1)] assms(3) by simp
  then show ?thesis
    using resends_outstanding [OF assms(1,2,4)] assms(5) by (simp add: transmit_expired_def used_eq_0)
qed

lemma expired_last:
  assumes "sender_inv crc A R s" and "A < length R" and "5 \<le> tx_retry_count s"
  shows "transmit_loop crc both (Poll_expired # polls) s = Inr (-103, s\<lparr>tx_retry_count := tx_retry_count s + 1\<rparr>)"
proof -
  have "used (tx_buf s) \<noteq> 0"
    using sender_invD(4) [OF assms(1)] assms(2) by simp
  then show ?thesis
    using assms(3) by (simp add: transmit_expired_def used_eq_0 handle_retransmission_def Let_def)
qed

text \<open>The state after \<open>k\<close> timeouts.\<close>

definition after_timeouts :: "crc_fun \<Rightarrow> nat \<Rightarrow> byte list list \<Rightarrow> nat \<Rightarrow> sender \<Rightarrow> sender" where
  "after_timeouts crc A R k s = s\<lparr>tx_retry_count := tx_retry_count s + int k,
     tx_dup_ack := (if k = 0 then tx_dup_ack s else 0),
     e_tx := e_tx s @ concat (replicate k (sends crc R A (A + outstanding s)))\<rparr>"

lemma after_timeouts_fields [simp]:
  "tx_retry_count (after_timeouts crc A R k s) = tx_retry_count s + int k"
  "e_wr (after_timeouts crc A R k s) = e_wr s" "tx_last_sent (after_timeouts crc A R k s) = tx_last_sent s"
  "outstanding (after_timeouts crc A R k s) = outstanding s"
  "sender_inv crc' A' R' (after_timeouts crc A R k s) = sender_inv crc' A' R' s"
  by (simp_all add: after_timeouts_def outstanding_def)

lemma after_timeouts_0 [simp]: "after_timeouts crc A R 0 s = s"
  by (simp add: after_timeouts_def)

lemma after_timeouts_Suc:
  "after_timeouts crc A R (Suc k) s = after_timeouts crc A R k
    (s\<lparr>tx_retry_count := tx_retry_count s + 1, tx_dup_ack := 0, e_tx := e_tx s @ sends crc R A (A + outstanding s)\<rparr>)"
  by (simp add: after_timeouts_def outstanding_def)

lemma timeouts_run:
  assumes "sender_inv crc A R s" and "e_wr s = []" and "A < length R" and "tx_last_sent s \<noteq> 255"
    and "tx_retry_count s + int k = 5"
  shows "transmit_loop crc both (replicate (Suc k) Poll_expired @ polls) s =
    Inr (-103, (after_timeouts crc A R k s)\<lparr>tx_retry_count := 6\<rparr>)"
  using assms
proof (induction k arbitrary: s)
  case 0
  then show ?case
    using expired_last [OF 0(1,3), of both polls] by simp
next
  case (Suc k)
  let ?s = "s\<lparr>tx_retry_count := tx_retry_count s + 1, tx_dup_ack := 0, e_tx := e_tx s @ sends crc R A (A + outstanding s)\<rparr>"
  have "transmit_loop crc both (replicate (Suc (Suc k)) Poll_expired @ polls) s =
      transmit_loop crc both (replicate (Suc k) Poll_expired @ polls) ?s"
    using expired_again [OF Suc.prems(1-4), of both "replicate (Suc k) Poll_expired @ polls"] Suc.prems(5)
    by (simp del: transmit_loop.simps)
  also have "\<dots> = Inr (-103, (after_timeouts crc A R k ?s)\<lparr>tx_retry_count := 6\<rparr>)"
    using Suc.prems by (intro Suc.IH) simp_all
  finally show ?case
    by (simp only: after_timeouts_Suc)
qed

lemma timeouts_end:
  assumes "sender_inv crc A R s" and "e_wr s = []" and "A < length R"
    and "0 \<le> tx_retry_count s" and "tx_retry_count s \<le> 5"
  shows "transmit_loop crc both (replicate (nat (6 - tx_retry_count s)) Poll_expired @ polls) s =
    (if tx_last_sent s = 255 \<and> tx_retry_count s < 5 then Inl Exit_failure
     else Inr (-103, s\<lparr>tx_retry_count := 6, tx_dup_ack := (if tx_retry_count s = 5 then tx_dup_ack s else 0),
       e_tx := e_tx s @ concat (replicate (nat (5 - tx_retry_count s)) (sends crc R A (A + outstanding s)))\<rparr>))"
proof -
  define k where "k = nat (5 - tx_retry_count s)"
  have k: "nat (6 - tx_retry_count s) = Suc k" "tx_retry_count s + int k = 5" "tx_retry_count s = 5 \<longleftrightarrow> k = 0"
    using assms(4,5) by (auto simp: k_def nat_diff_distrib')
  have u: "used (tx_buf s) \<noteq> 0"
    using sender_invD(4) [OF assms(1)] assms(3) by simp
  consider "tx_last_sent s = 255" "tx_retry_count s < 5" | "tx_retry_count s = 5" | "tx_last_sent s \<noteq> 255"
    using assms(5) by linarith
  then show ?thesis
  proof cases
    case 1
    then show ?thesis
      using retransmission_at_255 [OF assms(1,2) 1(1) u] u k(1) by (simp add: transmit_expired_def used_eq_0)
  next
    case 2
    then show ?thesis
      using expired_last [OF assms(1,3), of both] k(1,3) by (simp del: transmit_loop.simps add: k_def [symmetric])
  next
    case 3
    then show ?thesis
      using timeouts_run [OF assms(1-3) 3 k(2), of both polls] k(3)
      unfolding k(1) after_timeouts_def k_def [symmetric] by (simp del: transmit_loop.simps)
  qed
qed

text \<open>
  C11. A sender whose packets nobody answers ends: from any state in which something is not
  acknowledged, if only timeouts follow, \<open>transmit\<close> sends all the packets in flight again at each
  timeout until five have been counted, and at the next one returns the error. (When the last
  packet sent has number 255, the first timeout ends the process.)
\<close>

theorem timeouts_end_transmit:
  assumes "sender_inv crc A R s" and "e_wr s = []" and "A < length R"
    and "0 \<le> tx_retry_count s" and "tx_retry_count s \<le> 5"
  shows "transmit_loop crc both (replicate (nat (6 - tx_retry_count s)) Poll_expired @ polls) s =
    (if tx_last_sent s = 255 \<and> tx_retry_count s < 5 then Inl Exit_failure
     else Inr (-103, s\<lparr>tx_retry_count := 6, tx_dup_ack := (if tx_retry_count s = 5 then tx_dup_ack s else 0),
       e_tx := e_tx s @ concat (replicate (nat (5 - tx_retry_count s)) (sends crc R A (A + outstanding s)))\<rparr>))"
  by (rule timeouts_end [OF assms])

theorem timeouts_end_transmit_witness:
  "transmit_loop demo_crc True (replicate 6 Poll_expired) (demo_tx 1 True) =
    Inr (-103, (demo_tx 1 True)\<lparr>tx_retry_count := 6, tx_dup_ack := 0,
      e_tx := replicate 5 (wire_of demo_crc (chunk_segment 1 [7]))\<rparr>)"
proof -
  have n: "(6 :: nat) = Suc 5" "replicate 5 a = [a, a, a, a, a]" for a :: "byte list"
    by (simp_all add: eval_nat_numeral)
  have "outstanding (demo_tx 1 True) = 1" "tx_retry_count (demo_tx 1 True) = 0" "(1 :: nat) < length (replicate (Suc 1) [7 :: byte])"
    by simp_all
  then show ?thesis
    using timeouts_end_transmit [OF demo_tx_inv [of 1 True], of True "[]"]
    by (simp del: transmit_loop.simps add: sends_def n(2))
qed

section \<open>Silence in the system\<close>





end
