(* ===== verification/Programs.thy ===== *)
theory Programs
  imports Sender Receiver "HOL-Library.Char_ord" "HOL-Library.Sublist"
begin

text \<open>
  The two programs, \<open>sender/main.c\<close> and \<open>receiver/main.c\<close>: the command line as \<open>getopt_long\<close>
  and \<open>atoi\<close> of the C library read it, and the acquisition and release of the stream, the buffer
  and the socket on every path of \<open>main\<close>.
\<close>

section \<open>The C library\<close>

text \<open>
  \<open>atoi\<close>: white space, a sign, digits. As \<open>strtol\<close> does, the value is kept within a long of 64
  bits, then converted to an int; the result is given as its 32 bits.
\<close>

definition is_space :: "char \<Rightarrow> bool" where
  "is_space c \<longleftrightarrow> c = CHR '' '' \<or> 9 \<le> (of_char c :: nat) \<and> (of_char c :: nat) \<le> 13"

definition is_digit :: "char \<Rightarrow> bool" where
  "is_digit c \<longleftrightarrow> 48 \<le> (of_char c :: nat) \<and> (of_char c :: nat) \<le> 57"

definition digits_value :: "string \<Rightarrow> int" where
  "digits_value ds = foldl (\<lambda>v d. 10 * v + (of_char d - 48)) 0 (takeWhile is_digit ds)"

definition strtol :: "string \<Rightarrow> int" where
  "strtol str =
    (let v = (case dropWhile is_space str of
        [] \<Rightarrow> 0
      | c # cs \<Rightarrow> if c = CHR ''-'' then - digits_value cs else if c = CHR ''+'' then digits_value cs
                  else digits_value (c # cs)) in
     max (- (2 ^ 63)) (min (2 ^ 63 - 1) v))"

definition atoi :: "string \<Rightarrow> u32" where
  "atoi str = word_of_int (strtol str)"

text \<open>
  \<open>getopt_long\<close> with the short options \<open>f:b:\<close> and the long ones of the table \<open>long_opts\<close>, as glibc
  does it by default: operands may stand between options and are collected, an abbreviation of a long
  name is taken when only one name fits, \<open>--\<close> ends the options. The results are the successive return
  values with \<open>optarg\<close>, and the operands. Anything else is answered with a question mark.
\<close>

definition long_opts :: "(string \<times> char) list" where
  "long_opts = [(''filename'', CHR ''f''), (''buf'', CHR ''b'')]"

definition short_opts :: "char list" where
  "short_opts = ''fb''"

definition bad_option :: "char \<times> string" where
  "bad_option = (CHR ''?'', [])"

text \<open>An option that needs an argument, which is either attached to it or the next word.\<close>

fun option_arg :: "char \<Rightarrow> string option \<Rightarrow> string list \<Rightarrow> (char \<times> string) \<times> string list" where
  "option_arg c (Some arg) rest = ((c, arg), rest)"
| "option_arg c None (arg # rest) = ((c, arg), rest)"
| "option_arg c None [] = (bad_option, [])"

definition long_option :: "string \<Rightarrow> string list \<Rightarrow> (char \<times> string) \<times> string list" where
  "long_option str rest =
    (let name = takeWhile (\<lambda>c. c \<noteq> CHR ''='') str;
         val = dropWhile (\<lambda>c. c \<noteq> CHR ''='') str;
         arg = (if val = [] then None else Some (tl val)) in
     case filter (\<lambda>(long, c). prefix name long) long_opts of
       [(long, c)] \<Rightarrow> option_arg c arg rest
     | _ \<Rightarrow> (bad_option, rest))"

text \<open>The rest of a word of short options after one that is not known is looked at as well.\<close>

fun short_options :: "string \<Rightarrow> string list \<Rightarrow> (char \<times> string) list \<times> string list" where
  "short_options [] rest = ([], rest)"
| "short_options (c # cs) rest =
    (if c \<in> set short_opts
     then (let (ev, rest) = option_arg c (if cs = [] then None else Some cs) rest in ([ev], rest))
     else (let (evs, rest) = short_options cs rest in (bad_option # evs, rest)))"

lemma option_arg_length: "length (snd (option_arg c arg rest)) \<le> length rest"
  by (cases "(c, arg, rest)" rule: option_arg.cases) simp_all

lemma long_option_length: "length (snd (long_option str rest)) \<le> length rest"
  by (auto simp: long_option_def Let_def option_arg_length split: list.splits)

lemma short_options_length: "length (snd (short_options str rest)) \<le> length rest"
  by (induction str rest rule: short_options.induct)
    (auto simp: Let_def case_prod_unfold intro: option_arg_length)

function getopt_long :: "string list \<Rightarrow> (char \<times> string) list \<times> string list" where
  "getopt_long [] = ([], [])"
| "getopt_long (a # as) =
    (if a = ''--'' then ([], as)
     else if prefix ''--'' a then
       (let r = long_option (drop 2 a) as; q = getopt_long (snd r) in (fst r # fst q, snd q))
     else if prefix ''-'' a \<and> a \<noteq> ''-'' then
       (let r = short_options (drop 1 a) as; q = getopt_long (snd r) in (fst r @ fst q, snd q))
     else (let q = getopt_long as in (fst q, a # snd q)))"
  by pat_completeness auto

termination getopt_long
  by (relation "measure length")
    (auto simp: long_option_length short_options_length le_imp_less_Suc)

section \<open>Options\<close>

text \<open>
  What the options set: the stream (none for the standard one, otherwise the number of the one
  opened), the names, the number after \<open>-b\<close>, and the files opened so far. \<open>fopen\<close> is given by the
  \<open>errno\<close> it leaves, 0 when it succeeds.
\<close>

record options =
  o_stream :: "nat option"
  o_host :: string
  o_port :: string
  o_buf :: u32
  o_opened :: "string list"

text \<open>An unknown option prints the usage and ends the process with status 0.\<close>

datatype parsed = Parsed int options | Usage

definition open_file :: "(string \<Rightarrow> int) \<Rightarrow> string \<Rightarrow> options \<Rightarrow> int \<times> options" where
  "open_file fopen path opts =
    (if fopen path \<noteq> 0 then (fopen path, opts\<lparr>o_stream := None\<rparr>)
     else (0, opts\<lparr>o_stream := Some (length (o_opened opts)), o_opened := o_opened opts @ [path]\<rparr>))"

definition names :: "string list \<Rightarrow> options \<Rightarrow> options" where
  "names operands opts =
    (case operands of host # port # _ \<Rightarrow> opts\<lparr>o_host := host, o_port := port\<rparr> | _ \<Rightarrow> opts)"

fun sender_options ::
  "(string \<Rightarrow> int) \<Rightarrow> (char \<times> string) list \<Rightarrow> string list \<Rightarrow> options \<Rightarrow> parsed" where
  "sender_options fopen [] operands opts = Parsed 0 (names operands opts)"
| "sender_options fopen ((c, optarg) # evs) operands opts =
    (if c = CHR ''f'' then
       (let (err, opts) = open_file fopen optarg opts in
        if err \<noteq> 0 then Parsed err opts else sender_options fopen evs operands opts)
     else if c = CHR ''b'' then sender_options fopen evs operands (opts\<lparr>o_buf := atoi optarg\<rparr>)
     else Usage)"

fun receiver_options ::
  "(string \<Rightarrow> int) \<Rightarrow> (char \<times> string) list \<Rightarrow> string list \<Rightarrow> options \<Rightarrow> parsed" where
  "receiver_options fopen [] operands opts = Parsed 0 (names operands opts)"
| "receiver_options fopen ((c, optarg) # evs) operands opts =
    (if c = CHR ''f'' then
       (let (err, opts) = open_file fopen optarg opts in
        if err \<noteq> 0 then Parsed err opts else receiver_options fopen evs operands opts)
     else if c = CHR ''b'' then
       (let n = atoi optarg; opts = opts\<lparr>o_buf := n\<rparr>;
            opts = (if n > MAX_WINDOW_SIZE then opts\<lparr>o_buf := MAX_WINDOW_SIZE\<rparr> else opts) in
        receiver_options fopen evs operands opts)
     else Usage)"

definition sender_defaults :: options where
  "sender_defaults = \<lparr>o_stream = None, o_host = ''::1'', o_port = ''1341'', o_buf = 32, o_opened = []\<rparr>"

definition receiver_defaults :: options where
  "receiver_defaults =
    \<lparr>o_stream = None, o_host = ''::'', o_port = ''1341'', o_buf = MAX_WINDOW_SIZE, o_opened = []\<rparr>"

definition sender_parse_options :: "(string \<Rightarrow> int) \<Rightarrow> string list \<Rightarrow> parsed" where
  "sender_parse_options fopen argv =
    (let (evs, operands) = getopt_long argv in sender_options fopen evs operands sender_defaults)"

definition receiver_parse_options :: "(string \<Rightarrow> int) \<Rightarrow> string list \<Rightarrow> parsed" where
  "receiver_parse_options fopen argv =
    (let (evs, operands) = getopt_long argv in receiver_options fopen evs operands receiver_defaults)"

section \<open>The two programs\<close>

text \<open>
  What the operating system will answer: whether a file can be opened, whether memory is left,
  what a host name resolves to, and the results of \<open>poll\<close>.
\<close>

record 'p system =
  sys_fopen :: "string \<Rightarrow> int"
  sys_calloc :: bool
  sys_resolve :: "string \<Rightarrow> string \<Rightarrow> int \<times> addr_try list"
  sys_polls :: "'p list"

text \<open>
  What \<open>main\<close> holds: besides what the options set, the buffers allocated and freed and the
  streams closed. A finished process also has the value \<open>main\<close> returns and the state of the
  transfer, if it got that far. After the usage text \<open>main\<close> does not return.
\<close>

record process = options +
  m_allocated :: nat
  m_freed :: nat
  m_fclosed :: "nat list"

record 's ended =
  m_status :: int
  m_process :: process
  m_state :: 's

definition process_of :: "options \<Rightarrow> process" where
  "process_of opts =
    \<lparr>o_stream = o_stream opts, o_host = o_host opts, o_port = o_port opts, o_buf = o_buf opts,
     o_opened = o_opened opts, m_allocated = 0, m_freed = 0, m_fclosed = []\<rparr>"

text \<open>The labels at the end of both \<open>main\<close>: \<open>exit\<close>, \<open>err_options\<close> or \<open>err_file\<close>, \<open>err_buffer\<close> or \<open>err_buf\<close>.\<close>

definition leave :: "int \<Rightarrow> process \<Rightarrow> 's \<Rightarrow> 's ended" where
  "leave err p s = \<lparr>m_status = err, m_process = p, m_state = s\<rparr>"

definition err_options :: "int \<Rightarrow> process \<Rightarrow> 's \<Rightarrow> 's ended" where
  "err_options err p s =
    leave err (case o_stream p of None \<Rightarrow> p | Some i \<Rightarrow> p\<lparr>m_fclosed := m_fclosed p @ [i]\<rparr>) s"

definition err_buffer :: "int \<Rightarrow> process \<Rightarrow> 's \<Rightarrow> 's ended" where
  "err_buffer err p s = err_options err (p\<lparr>m_freed := m_freed p + 1\<rparr>) s"

definition net_status_value :: "net_status_t \<Rightarrow> int" where
  "net_status_value st = (case st of NET_OK \<Rightarrow> 0 | NET_ERROR \<Rightarrow> 1 | NET_DROP \<Rightarrow> 2)"

text \<open>The contents of the standard input or of a stream opened, as the reads will return them.\<close>

definition sender_main ::
  "crc_fun \<Rightarrow> poll_event system \<Rightarrow> (nat option \<Rightarrow> in_event list) \<Rightarrow> string list \<Rightarrow> env
     \<Rightarrow> (env + sender) ended res" where
  "sender_main crc32 sys input argv e =
    (case sender_parse_options (sys_fopen sys) argv of
       Usage \<Rightarrow> Inl Exit_success
     | Parsed err opts \<Rightarrow>
         let p = process_of opts in
         if err \<noteq> 0 then Inr (leave err p (Inl e)) else
         rbind (pktbuf_new (sys_calloc sys) (o_buf p)) (\<lambda>buf.
           case buf of
             None \<Rightarrow> Inr (err_options err p (Inl e))
           | Some buf \<Rightarrow>
               let p = p\<lparr>m_allocated := m_allocated p + 1\<rparr>;
                   (st, e) = net_open_socket (sys_resolve sys (o_host p) (o_port p)) e;
                   err = net_status_value st in
               if st \<noteq> NET_OK then Inr (err_buffer err p (Inl e)) else
               rbind (transmit crc32 (sys_polls sys) buf (input (o_stream p)) e) (\<lambda>(err, s).
               Inr (err_buffer err p (Inr (net_close_socket s))))))"

definition receiver_main ::
  "crc_fun \<Rightarrow> poll_result system \<Rightarrow> bool \<times> bool \<times> u32 \<Rightarrow> string list \<Rightarrow> env
     \<Rightarrow> (env + receiver) ended res" where
  "receiver_main crc32 sys unblock argv e =
    (case receiver_parse_options (sys_fopen sys) argv of
       Usage \<Rightarrow> Inl Exit_success
     | Parsed err opts \<Rightarrow>
         let p = process_of opts in
         if err \<noteq> 0 then Inr (leave err p (Inl e)) else
         rbind (pktbuf_new (sys_calloc sys) 32) (\<lambda>buf.
           case buf of
             None \<Rightarrow> Inr (err_options err p (Inl e))
           | Some buf \<Rightarrow>
               let p = p\<lparr>m_allocated := m_allocated p + 1\<rparr>;
                   (st, e) = net_open_socket (sys_resolve sys (o_host p) (o_port p)) e in
               if st \<noteq> NET_OK then Inr (err_buffer err p (Inl e)) else
               rbind (receive crc32 unblock (sys_polls sys) (receiver_init (o_buf p) buf e)) (\<lambda>(err, s).
               Inr (err_buffer err p (Inr (net_close_socket s))))))"

end
