(* ===== verification/Program_Props.thy ===== *)
theory Program_Props
  imports Programs Pktbuf_Props Net_Props
begin

text \<open>
  What the command line sets, and the failures the programs do not report.
\<close>

section \<open>Numbers on the command line\<close>

fun decimal :: "nat \<Rightarrow> string" where
  "decimal n = (if n < 10 then [char_of (48 + n)] else decimal (n div 10) @ [char_of (48 + n mod 10)])"

declare decimal.simps [simp del]

lemma of_char_digit: "n < 10 \<Longrightarrow> of_char (char_of (48 + n) :: char) = (48 + n :: nat)"
  by simp

lemma decimal_digits: "list_all is_digit (decimal n)"
proof (induction n rule: decimal.induct)
  case (1 n)
  have d: "is_digit (char_of (48 + m))" if "m < 10" for m :: nat
    using that by (simp add: is_digit_def)
  show ?case
    using 1 d [of n] d [of "n mod 10"] by (subst decimal.simps) simp
qed

lemma decimal_nonempty: "decimal n \<noteq> []"
  by (subst decimal.simps) simp

lemma foldl_decimal: "foldl (\<lambda>v d. 10 * v + (of_char d - 48)) 0 (decimal n) = int n"
proof (induction n rule: decimal.induct)
  case (1 n)
  have d: "(of_char (char_of (48 + m) :: char) :: int) = 48 + int m" if "m < 10" for m :: nat
    using arg_cong [OF of_char_digit [OF that], of int] by (simp only: of_nat_of_char)
  show ?case
  proof (cases "n < 10")
    case True
    then show ?thesis
      using d [of n] by (subst decimal.simps) simp
  next
    case False
    then have "foldl (\<lambda>v d. 10 * v + (of_char d - 48)) 0 (decimal n) = 10 * int (n div 10) + int (n mod 10)"
      using 1 d [of "n mod 10"] by (subst decimal.simps) simp
    then show ?thesis
      by (simp add: zmod_int zdiv_int)
  qed
qed

lemma atoi_decimal:
  assumes "n < 2 ^ 31"
  shows "atoi (decimal n) = of_nat n"
proof -
  obtain c cs where c: "decimal n = c # cs"
    using decimal_nonempty by (cases "decimal n") blast+
  then have "is_digit c"
    using decimal_digits [of n] by simp
  then have "\<not> is_space c" "c \<noteq> CHR ''-''" "c \<noteq> CHR ''+''"
    by (auto simp: is_digit_def is_space_def)
  moreover have "takeWhile is_digit (decimal n) = decimal n"
    using decimal_digits by (simp add: list_all_iff takeWhile_eq_all_conv)
  ultimately have "strtol (decimal n) = max (- (2 ^ 63)) (min (2 ^ 63 - 1) (int n))"
    using foldl_decimal [of n] by (simp add: strtol_def digits_value_def c)
  then show ?thesis
    using assms by (simp add: atoi_def)
qed

section \<open>The command line\<close>

text \<open>Words that are not options.\<close>

definition operand :: "string \<Rightarrow> bool" where
  "operand w \<longleftrightarrow> \<not> prefix ''-'' w"

lemma getopt_operand: "operand w \<Longrightarrow> getopt_long (w # ws) = (fst (getopt_long ws), w # snd (getopt_long ws))"
  by (cases w) (auto simp: operand_def Let_def)

lemma getopt_short:
  "c \<in> set short_opts \<Longrightarrow> getopt_long ([CHR ''-'', c] # arg # ws) =
    ((c, arg) # fst (getopt_long ws), snd (getopt_long ws))"
  by (auto simp: short_opts_def Let_def)

text \<open>
  C36. The number written after \<open>-b\<close>, in decimal, is the size the sender asks for; with a file after
  \<open>-f\<close> that can be opened and two names the options are exactly those, and when the file cannot be
  opened the result is the \<open>errno\<close> of \<open>fopen\<close>.
\<close>

theorem sender_command_line:
  assumes "n < 2 ^ 31" and "operand host" and "operand port"
  shows "sender_parse_options fopen [''-b'', decimal n, ''-f'', path, host, port] =
    (if fopen path = 0
     then Parsed 0 \<lparr>o_stream = Some 0, o_host = host, o_port = port, o_buf = of_nat n, o_opened = [path]\<rparr>
     else Parsed (fopen path) (sender_defaults\<lparr>o_buf := of_nat n\<rparr>))"
proof -
  have "getopt_long [''-b'', decimal n, ''-f'', path, host, port] =
      ([(CHR ''b'', decimal n), (CHR ''f'', path)], [host, port])"
    using getopt_short [of "CHR ''b''" "decimal n"] getopt_short [of "CHR ''f''" path]
      getopt_operand [OF assms(2)] getopt_operand [OF assms(3)]
    by (simp add: short_opts_def del: getopt_long.simps(2))
  then show ?thesis
    using atoi_decimal [OF assms(1)]
    by (simp add: sender_parse_options_def open_file_def names_def sender_defaults_def)
qed

theorem sender_command_line_witness:
  "sender_parse_options (\<lambda>_. 0) [''-b'', decimal 64, ''-f'', ''data'', ''localhost'', ''1341''] =
    Parsed 0 \<lparr>o_stream = Some 0, o_host = ''localhost'', o_port = ''1341'', o_buf = 64, o_opened = [''data'']\<rparr>"
  using sender_command_line [of 64 "''localhost''" "''1341''" "\<lambda>_. 0"] by (simp add: operand_def)

text \<open>What the options of both programs keep: every stream is one that was opened.\<close>

definition streams_ok :: "(string \<Rightarrow> int) \<Rightarrow> options \<Rightarrow> bool" where
  "streams_ok fopen opts \<longleftrightarrow>
     (\<forall>path \<in> set (o_opened opts). fopen path = 0) \<and>
     (case o_stream opts of None \<Rightarrow> True | Some i \<Rightarrow> Suc i = length (o_opened opts))"

lemma open_file_ok:
  "streams_ok fopen opts \<Longrightarrow> streams_ok fopen (snd (open_file fopen path opts))"
  by (auto simp: streams_ok_def open_file_def)

lemma open_file_buf [simp]: "o_buf (snd (open_file fopen path opts)) = o_buf opts"
  by (simp add: open_file_def)

lemma names_fields [simp]:
  "o_buf (names ops opts) = o_buf opts" "o_stream (names ops opts) = o_stream opts"
  "o_opened (names ops opts) = o_opened opts"
  by (auto simp: names_def split: list.split)

lemma receiver_options_ok:
  assumes "receiver_options fopen evs ops opts = Parsed err opts'"
    and "streams_ok fopen opts" and "o_buf opts \<le> MAX_WINDOW_SIZE"
  shows "streams_ok fopen opts' \<and> o_buf opts' \<le> MAX_WINDOW_SIZE"
  using assms
proof (induction fopen evs ops opts rule: receiver_options.induct)
  case (1 fopen ops opts)
  then show ?case
    by (auto simp: streams_ok_def split: option.splits)
next
  case (2 fopen c optarg evs ops opts)
  consider "c = CHR ''f''" | "c = CHR ''b''" | "c \<noteq> CHR ''f''" "c \<noteq> CHR ''b''"
    by blast
  then show ?case
  proof cases
    case 1
    obtain err1 opts1 where o: "open_file fopen optarg opts = (err1, opts1)"
      by fastforce
    then have "streams_ok fopen opts1" "o_buf opts1 \<le> MAX_WINDOW_SIZE"
      using open_file_ok [OF 2(4), of optarg] open_file_buf [of fopen optarg opts] 2(5) by simp_all
    then show ?thesis
      using 2(1) [OF 1 o [symmetric] refl] 2(3) 1 o by (auto split: if_splits)
  next
    case 2
    let ?n = "atoi optarg"
    let ?opts = "if ?n > MAX_WINDOW_SIZE then opts\<lparr>o_buf := ?n, o_buf := MAX_WINDOW_SIZE\<rparr> else opts\<lparr>o_buf := ?n\<rparr>"
    have "streams_ok fopen ?opts" "o_buf ?opts \<le> MAX_WINDOW_SIZE"
      using \<open>streams_ok fopen opts\<close> by (auto simp: streams_ok_def not_less split: option.splits)
    moreover have "receiver_options fopen evs ops ?opts = Parsed err opts'"
      using \<open>receiver_options fopen ((c, optarg) # evs) ops opts = _\<close> 2 by (simp add: Let_def)
    ultimately show ?thesis
      using "2.IH"(2) 2 by (simp add: Let_def)
  next
    case 3
    then show ?thesis
      using 2(3) by simp
  qed
qed

text \<open>
  C37. Whatever the command line, what the receiver is started with has a window of at most 31 and
  a stream that \<open>fopen\<close> opened (or the standard output).
\<close>

theorem receiver_options_type:
  "case receiver_parse_options fopen argv of
     Usage \<Rightarrow> True
   | Parsed err opts \<Rightarrow> o_buf opts \<le> MAX_WINDOW_SIZE \<and> streams_ok fopen opts"
proof -
  obtain evs ops where g: "getopt_long argv = (evs, ops)"
    by fastforce
  have "streams_ok fopen receiver_defaults" "o_buf receiver_defaults \<le> MAX_WINDOW_SIZE"
    by (simp_all add: streams_ok_def receiver_defaults_def)
  then show ?thesis
    using receiver_options_ok [of fopen evs ops receiver_defaults] g
    by (auto simp: receiver_parse_options_def split: parsed.split)
qed

section \<open>Failures that are not reported\<close>

definition demo_system :: "'p system" where
  "demo_system = \<lparr>sys_fopen = \<lambda>_. 0, sys_calloc = False, sys_resolve = \<lambda>_ _. (0, []), sys_polls = []\<rparr>"

definition demo_argv :: "string list" where
  "demo_argv = [''-f'', ''data'', ''localhost'', ''1341'']"

lemma demo_getopt: "getopt_long demo_argv = ([(CHR ''f'', ''data'')], [''localhost'', ''1341''])"
  by code_simp

text \<open>
  C40. When its buffer cannot be allocated or its socket cannot be opened, the receiver ends with
  status 0, as after a transfer that succeeded, and so does the sender in the first case: the variable
  that is returned was set to 0 by the parsing of the options.
\<close>

theorem failures_exit_zero:
  assumes "receiver_parse_options (sys_fopen sys) argv = Parsed 0 opts"
    and "\<not> sys_calloc sys \<or> fst (net_open_socket (sys_resolve sys (o_host opts) (o_port opts)) e) \<noteq> NET_OK"
  shows "\<exists>r. receiver_main crc sys unblock argv e = Inr r \<and> m_status r = 0 \<and> isl (m_state r)"
proof (cases "sys_calloc sys")
  case False
  then show ?thesis
    using assms(1) by (simp add: receiver_main_def pktbuf_new_def popcount_powers err_options_def leave_def Let_def)
next
  case True
  then obtain st e1 where st: "net_open_socket (sys_resolve sys (o_host opts) (o_port opts)) e = (st, e1)" "st \<noteq> NET_OK"
    using assms(2) by (cases "net_open_socket (sys_resolve sys (o_host opts) (o_port opts)) e") auto
  moreover have "o_host (process_of opts) = o_host opts" "o_port (process_of opts) = o_port opts"
    by (simp_all add: process_of_def)
  ultimately show ?thesis
    using True assms(1)
    by (simp add: receiver_main_def pktbuf_new_def popcount_powers err_buffer_def err_options_def leave_def Let_def)
qed

theorem failures_exit_zero_witness:
  "\<exists>r. receiver_main demo_crc demo_system (True, True, 0) demo_argv demo_env = Inr r \<and> m_status r = 0 \<and> isl (m_state r)"
proof -
  have "receiver_parse_options (sys_fopen demo_system) demo_argv =
      Parsed 0 \<lparr>o_stream = Some 0, o_host = ''localhost'', o_port = ''1341'', o_buf = 31, o_opened = [''data'']\<rparr>"
    by (simp add: receiver_parse_options_def demo_getopt open_file_def names_def receiver_defaults_def demo_system_def)
  then show ?thesis
    by (rule failures_exit_zero) (simp add: demo_system_def)
qed

end
