(* ===== verification/Program_Sockets.thy ===== *)
theory Program_Sockets
  imports Programs Net_Props
begin

text \<open>
  Between \<open>net_open_socket\<close> and \<open>net_close_socket\<close> nothing touches \<open>net_fd\<close> or closes a
  descriptor: what \<open>transmit\<close> and \<open>receive\<close> return with is the socket they were started with.
\<close>

unbundle bit_operations_syntax

definition same_socket :: "'a env_scheme \<Rightarrow> 'b env_scheme \<Rightarrow> bool" where
  "same_socket e e' \<longleftrightarrow> e_fd e' = e_fd e \<and> e_closed e' = e_closed e"

lemma same_socket_refl [simp]: "same_socket e e"
  by (simp add: same_socket_def)

lemma same_socket_trans: "same_socket e e' \<Longrightarrow> same_socket e' e'' \<Longrightarrow> same_socket e e''"
  by (simp add: same_socket_def)

lemma rbind_pairE: "rbind m (\<lambda>(a, b). f a b) = Inr y \<Longrightarrow> (\<And>a b. m = Inr (a, b) \<Longrightarrow> f a b = Inr y \<Longrightarrow> P) \<Longrightarrow> P"
  by (auto simp: rbind_Inr_iff)

section \<open>The socket layer\<close>

lemma sys_recv_socket: "sys_recv e = Inr (ev, e') \<Longrightarrow> same_socket e e'"
  by (auto simp: sys_recv_def same_socket_def split: list.splits)

lemma net_recvfrom_socket: "net_recvfrom crc q addr e = Inr (st, q', addr', e') \<Longrightarrow> same_socket e e'"
  unfolding net_recvfrom_def
  by (elim rbind_InrE) (auto simp: Let_def case_prod_unfold dest: sys_recv_socket split: rx_event.split_asm)

lemma net_recv_pkt_socket: "net_recv_pkt crc q seq win e = Inr (st, q', e') \<Longrightarrow> same_socket e e'"
  by (auto simp: net_recv_pkt_def rbind_Inr_iff split: if_splits dest: net_recvfrom_socket)

lemma wait_loop_socket: "wait_loop n crc q seq addr e = Inr (st, q', e') \<Longrightarrow> same_socket e e'"
proof (induction n arbitrary: q addr e)
  case (Suc n)
  then obtain st1 q1 addr1 e1 where e1: "net_recvfrom crc q (Some addr) e = Inr (st1, q1, addr1, e1)"
    by (auto simp: rbind_Inr_iff)
  have "same_socket e1 e'"
    using Suc.prems e1 Suc.IH by (auto simp: Let_def same_socket_def split: if_splits)
  then show ?case
    using net_recvfrom_socket [OF e1] same_socket_trans by blast
qed simp

lemma net_wait_and_connect_socket:
  "net_wait_and_connect crc q seq e = Inr (st, q', e') \<Longrightarrow> same_socket e e'"
  by (auto simp: net_wait_and_connect_def Let_def dest: wait_loop_socket)

lemma sys_write_socket: "sys_write bs e = (r, e') \<Longrightarrow> same_socket e e'"
  by (auto simp: sys_write_def same_socket_def split: list.splits if_splits)

lemma net_send_socket: "net_send p e = Inr (st, e') \<Longrightarrow> same_socket e e'"
  by (auto simp: net_send_def Let_def split: if_splits prod.splits dest: sys_write_socket)

text \<open>Changes of the other variables.\<close>

lemma same_socket_sender [simp]:
  "same_socket e (s\<lparr>tx_buf := a\<rparr>) = same_socket e s" "same_socket (s\<lparr>tx_buf := a\<rparr>) e' = same_socket s e'"
  "same_socket e (s\<lparr>tx_last_ack := b\<rparr>) = same_socket e s" "same_socket (s\<lparr>tx_last_ack := b\<rparr>) e' = same_socket s e'"
  "same_socket e (s\<lparr>tx_last_win := b\<rparr>) = same_socket e s" "same_socket (s\<lparr>tx_last_win := b\<rparr>) e' = same_socket s e'"
  "same_socket e (s\<lparr>tx_last_sent := b\<rparr>) = same_socket e s" "same_socket (s\<lparr>tx_last_sent := b\<rparr>) e' = same_socket s e'"
  "same_socket e (s\<lparr>tx_last_chunk_read := b\<rparr>) = same_socket e s" "same_socket (s\<lparr>tx_last_chunk_read := b\<rparr>) e' = same_socket s e'"
  "same_socket e (s\<lparr>tx_dup_ack := c\<rparr>) = same_socket e s" "same_socket (s\<lparr>tx_dup_ack := c\<rparr>) e' = same_socket s e'"
  "same_socket e (s\<lparr>tx_retry_count := d\<rparr>) = same_socket e s" "same_socket (s\<lparr>tx_retry_count := d\<rparr>) e' = same_socket s e'"
  "same_socket e (s\<lparr>tx_last_in_read := d\<rparr>) = same_socket e s" "same_socket (s\<lparr>tx_last_in_read := d\<rparr>) e' = same_socket s e'"
  "same_socket e (s\<lparr>tx_input := i\<rparr>) = same_socket e s" "same_socket (s\<lparr>tx_input := i\<rparr>) e' = same_socket s e'"
  by (simp_all add: same_socket_def)

lemma same_socket_receiver [simp]:
  "same_socket e (s\<lparr>r_buf := a\<rparr>) = same_socket e s" "same_socket (s\<lparr>r_buf := a\<rparr>) e' = same_socket s e'"
  "same_socket e (s\<lparr>r_oos_mask := b\<rparr>) = same_socket e s" "same_socket (s\<lparr>r_oos_mask := b\<rparr>) e' = same_socket s e'"
  "same_socket e (s\<lparr>r_expected_seq := c\<rparr>) = same_socket e s" "same_socket (s\<lparr>r_expected_seq := c\<rparr>) e' = same_socket s e'"
  "same_socket e (s\<lparr>r_last_ts := b\<rparr>) = same_socket e s" "same_socket (s\<lparr>r_last_ts := b\<rparr>) e' = same_socket s e'"
  "same_socket e (s\<lparr>r_need_ack := d\<rparr>) = same_socket e s" "same_socket (s\<lparr>r_need_ack := d\<rparr>) e' = same_socket s e'"
  "same_socket e (s\<lparr>r_need_nack := d\<rparr>) = same_socket e s" "same_socket (s\<lparr>r_need_nack := d\<rparr>) e' = same_socket s e'"
  "same_socket e (s\<lparr>r_nack_seq := c\<rparr>) = same_socket e s" "same_socket (s\<lparr>r_nack_seq := c\<rparr>) e' = same_socket s e'"
  "same_socket e (s\<lparr>r_last_written_len := i\<rparr>) = same_socket e s" "same_socket (s\<lparr>r_last_written_len := i\<rparr>) e' = same_socket s e'"
  "same_socket e (s\<lparr>r_ack_pkt := p\<rparr>) = same_socket e s" "same_socket (s\<lparr>r_ack_pkt := p\<rparr>) e' = same_socket s e'"
  "same_socket e (s\<lparr>r_nack_pkt := p\<rparr>) = same_socket e s" "same_socket (s\<lparr>r_nack_pkt := p\<rparr>) e' = same_socket s e'"
  "same_socket e (s\<lparr>r_out_results := rs\<rparr>) = same_socket e s" "same_socket (s\<lparr>r_out_results := rs\<rparr>) e' = same_socket s e'"
  "same_socket e (s\<lparr>r_out := bs\<rparr>) = same_socket e s" "same_socket (s\<lparr>r_out := bs\<rparr>) e' = same_socket s e'"
  "same_socket e (s\<lparr>r_fd_flags := b\<rparr>) = same_socket e s" "same_socket (s\<lparr>r_fd_flags := b\<rparr>) e' = same_socket s e'"
  "same_socket e (put_slot s n p) = same_socket e s" "same_socket (put_slot s n p) e' = same_socket s e'"
  by (simp_all add: same_socket_def put_slot_def)

section \<open>The sender\<close>

lemma nack_loop_socket: "nack_loop n i nack s = Inr (err, s') \<Longrightarrow> same_socket s s'"
  by (induction n i nack s rule: nack_loop.induct)
    (auto simp: rbind_Inr_iff split: if_splits dest: net_send_socket)

lemma dequeue_acked_socket: "same_socket s (dequeue_acked ack s)"
proof (induction ack s rule: dequeue_acked.induct)
  case (1 ack s)
  then show ?case
    by (subst dequeue_acked.simps) auto
qed

lemma dequeue_acked_after [simp]: "same_socket e (dequeue_acked ack s) = same_socket e s"
  using dequeue_acked_socket [of s ack] by (simp add: same_socket_def)

lemma dup_ack_socket: "process_dup_ack ack s = Inr (err, s') \<Longrightarrow> same_socket s s'"
  by (auto simp: process_dup_ack_def Let_def rbind_Inr_iff split: if_splits option.splits dest!: net_send_socket)

lemma handle_socket_read_socket:
  assumes "handle_socket_read crc s = Inr (err, s')"
  shows "same_socket s s'"
proof -
  obtain st q s1 where s1: "net_recv_pkt crc pkt_zero (tx_last_ack s) (tx_last_sent s - tx_last_ack s + 1)
      (s\<lparr>tx_retry_count := 0\<rparr>) = Inr (st, q, s1)"
    using assms by (auto simp: handle_socket_read_def Let_def rbind_Inr_iff)
  then have "same_socket s1 s'"
    using assms
    by (auto simp: handle_socket_read_def Let_def process_nack_def process_ack_def split: if_splits
        dest!: nack_loop_socket dup_ack_socket)
  then show ?thesis
    using net_recv_pkt_socket [OF s1] same_socket_trans by fastforce
qed

lemma handle_input_read_socket: "handle_input_read crc s = Inr (err, s') \<Longrightarrow> same_socket s s'"
  by (auto simp: handle_input_read_def Let_def rbind_Inr_iff sys_read_def same_socket_def
      split: prod.splits list.splits in_event.splits)

lemma do_send_sbuf_socket: "do_send_sbuf s = Inr (err, s') \<Longrightarrow> same_socket s s'"
proof (induction s arbitrary: err s' rule: do_send_sbuf.induct)
  case (1 s)
  let ?s = "s\<lparr>tx_last_sent := tx_last_sent s + 1\<rparr>"
  show ?case
  proof (cases "tx_last_sent s \<noteq> tx_last_chunk_read s \<and> can_send s")
    case True
    then obtain j buf st s1 where s1: "pktbuf_slotfor_seq (tx_buf ?s) (tx_last_sent ?s) = Inr (j, buf)"
      "net_send (slot buf j) (?s\<lparr>tx_buf := buf\<rparr>) = Inr (st, s1)"
      using 1(2) by (subst (asm) do_send_sbuf.simps) (auto simp: Let_def rbind_Inr_iff)
    then have run: "do_send_sbuf s = (if st \<noteq> NET_OK then Inr (-1, s1) else do_send_sbuf s1)"
      using True by (subst do_send_sbuf.simps) simp
    have "same_socket s1 s'"
    proof (cases "st = NET_OK")
      case st: True
      then have "do_send_sbuf s1 = Inr (err, s')"
        using 1(2) run by simp
      then show ?thesis
        using 1(1) [OF True refl s1(1) refl s1(2) refl] st by simp
    qed (use 1(2) run in simp)
    then show ?thesis
      using net_send_socket [OF s1(2)] same_socket_trans by fastforce
  next
    case False
    then show ?thesis
      using 1(2) by (subst (asm) do_send_sbuf.simps) (simp only: if_False sum.inject prod.inject same_socket_refl)
  qed
qed

lemma resend_loop_socket:
  assumes ret: "resend_loop sseq s = Some r"
  shows "\<forall>err s'. r = Inr (err, s') \<longrightarrow> same_socket s s'"
proof (rule resend_loop.raw_induct [where P = "\<lambda>sseq s r. \<forall>err s'. r = Inr (err, s') \<longrightarrow> same_socket s s'", OF _ ret])
  fix f sseq and r :: "(int \<times> sender) res" and s :: sender
  let ?body = "(if unat sseq \<noteq> unat (tx_last_sent s) + 1 then
       case pktbuf_slotfor_seq (tx_buf s) sseq of
         Inl f \<Rightarrow> Some (Inl f)
       | Inr (j, buf) \<Rightarrow>
           case net_send (slot buf j) (s\<lparr>tx_buf := buf\<rparr>) of
             Inl f \<Rightarrow> Some (Inl f)
           | Inr (st, s) \<Rightarrow> if st \<noteq> NET_OK then Some (Inr (-1, s)) else f (sseq + 1) s
     else Some (Inr (0, s\<lparr>tx_dup_ack := 0\<rparr>))) :: (int \<times> sender) res option"
  assume IH: "\<And>sseq s r. f sseq s = Some r \<Longrightarrow> \<forall>err s'. r = Inr (err, s') \<longrightarrow> same_socket s s'"
    and eq: "?body = Some r"
  have sent: "same_socket s s2" if "net_send p (s\<lparr>tx_buf := b\<rparr>) = Inr (st, s2)" for p b st s2
    using net_send_socket [OF that] by simp
  moreover have "same_socket s s'"
    if "net_send p (s\<lparr>tx_buf := b\<rparr>) = Inr (st, s2)" "f q s2 = Some (Inr (err, s'))" for p b st s2 q err s'
    using sent [OF that(1)] IH [OF that(2)] same_socket_trans by blast
  ultimately show "\<forall>err s'. r = Inr (err, s') \<longrightarrow> same_socket s s'"
    using eq by (auto split: sum.splits prod.splits if_splits)
qed

lemma handle_retransmission_socket: "handle_retransmission s = Inr (err, s') \<Longrightarrow> same_socket s s'"
  by (auto simp: handle_retransmission_def Let_def split: if_splits option.splits dest!: resend_loop_socket)

lemma transmit_ready_socket:
  "transmit_ready crc file_ev sock_ev s = Inr (go_on, both, s') \<Longrightarrow> same_socket s s'"
  by (auto simp: transmit_ready_def rbind_Inr_iff split: if_splits
      dest!: handle_socket_read_socket handle_input_read_socket do_send_sbuf_socket intro: same_socket_trans)

lemma transmit_expired_socket: "transmit_expired both s = Inr (go_on, both', s') \<Longrightarrow> same_socket s s'"
  by (auto simp: transmit_expired_def rbind_Inr_iff split: if_splits dest!: handle_retransmission_socket)

lemma transmit_loop_socket: "transmit_loop crc both polls s = Inr (ret, s') \<Longrightarrow> same_socket s s'"
proof (induction polls arbitrary: both s)
  case (Cons ev polls)
  then obtain go_on both' s1 where s1: "(case ev of
        Poll_failed \<Rightarrow> Inr (False, both, s)
      | Poll_events file_ev sock_ev \<Rightarrow> transmit_ready crc (both \<and> file_ev) sock_ev s
      | Poll_expired \<Rightarrow> transmit_expired both s) = Inr (go_on, both', s1)"
    by (auto simp: rbind_Inr_iff)
  then have "same_socket s s1"
    by (auto split: poll_event.splits dest: transmit_ready_socket transmit_expired_socket)
  moreover have "same_socket s1 s'"
    using Cons.prems Cons.IH s1 by (auto split: if_splits)
  ultimately show ?case
    by (rule same_socket_trans)
qed simp

lemma transmit_socket: "transmit crc polls buf input e = Inr (ret, s') \<Longrightarrow> same_socket e s'"
  using transmit_loop_socket [of crc True polls "sender_init buf input e" ret s']
  by (simp add: transmit_def) (simp add: sender_init_def same_socket_def)

section \<open>The receiver\<close>

lemma send_ack_socket: "send_ack crc s = Inr (st, s') \<Longrightarrow> same_socket s s'"
  by (auto simp: send_ack_def Let_def rbind_Inr_iff dest!: net_send_socket)

lemma send_nack_socket: "send_nack crc seq s = Inr (st, s') \<Longrightarrow> same_socket s s'"
  by (auto simp: send_nack_def Let_def rbind_Inr_iff dest!: net_send_socket)

lemma process_incoming_socket: "process_incoming_pkt i s = Inr (err, s') \<Longrightarrow> same_socket s s'"
  by (auto simp: process_incoming_pkt_def Let_def rbind_Inr_iff split: if_splits)

lemma do_receive_data_socket:
  assumes "do_receive_data crc s = Inr (err, s')"
  shows "same_socket s s'"
proof -
  obtain i buf st q s1 where s1: "pktbuf_slotfor_seq (r_buf s) (r_expected_seq s) = Inr (i, buf)"
    "net_recv_pkt crc (buf_slot (s\<lparr>r_buf := buf\<rparr>) i) (r_expected_seq s) (ucast (window_size s)) (s\<lparr>r_buf := buf\<rparr>) = Inr (st, q, s1)"
    using assms by (auto simp: do_receive_data_def Let_def rbind_Inr_iff)
  then have "same_socket s1 s'"
    using assms by (auto simp: do_receive_data_def Let_def split: if_splits dest!: process_incoming_socket)
  then show ?thesis
    using net_recv_pkt_socket [OF s1(2)] same_socket_trans by fastforce
qed

lemma do_read_sock_socket: "do_read_sock crc s = Inr (err, s') \<Longrightarrow> same_socket s s'"
  by (auto simp: do_read_sock_def discard_incoming_data_def rbind_Inr_iff split: if_splits
      dest: do_receive_data_socket sys_recv_socket)

lemma write_first_socket: "write_first s = Inr (w, s') \<Longrightarrow> same_socket s s'"
  by (auto simp: write_first_def Let_def sys_write_out_def
      split: option.splits if_splits list.splits out_result.splits)

lemma do_empty_rbuf_socket: "do_empty_rbuf s = Inr (err, s') \<Longrightarrow> same_socket s s'"
proof (induction s arbitrary: err s' rule: do_empty_rbuf.induct)
  case (1 s)
  show ?case
  proof (cases "r_oos_mask s AND 1 \<noteq> 0")
    case True
    then obtain w s1 where s1: "write_first s = Inr (w, s1)"
      using 1(2) by (subst (asm) do_empty_rbuf.simps) (auto simp: rbind_Inr_iff)
    have "same_socket s1 s'"
    proof (cases w)
      case Write_done
      then have "do_empty_rbuf (drop_first s1) = Inr (err, s')"
        using 1(2) True s1 by (subst (asm) do_empty_rbuf.simps) simp
      then have "same_socket (drop_first s1) s'"
        using 1(1) [OF True, of "(w, s1)" w s1] s1 Write_done by blast
      then show ?thesis
        by (simp add: drop_first_def)
    qed (use 1(2) True s1 in \<open>subst (asm) do_empty_rbuf.simps, simp\<close>)+
    then show ?thesis
      using write_first_socket [OF s1] same_socket_trans by blast
  next
    case False
    then show ?thesis
      using 1(2) by (subst (asm) do_empty_rbuf.simps) simp
  qed
qed

lemma receive_ready_socket:
  assumes "receive_ready crc file_ev sock_ev s = Inr (go_on, both, s')"
  shows "same_socket s s'"
proof -
  let ?ends = "\<lambda>err s. if err \<noteq> NET_OK then Inr (False, True, s) else Inr (True, can_empty_rbuf s, s)"
  let ?nack = "\<lambda>s. rbind (if r_need_nack s then send_nack crc (r_nack_seq s) s else Inr (NET_OK, s)) (\<lambda>(err, s). ?ends err s)"
  let ?ack = "\<lambda>s. rbind (if r_need_ack s then send_ack crc s else Inr (NET_OK, s)) (\<lambda>(err, s).
    if err \<noteq> NET_OK then Inr (False, True, s) else ?nack s)"
  let ?empty = "\<lambda>s. rbind (if file_ev \<or> can_empty_rbuf s then do_empty_rbuf s else Inr (0, s)) (\<lambda>(err, s).
    if err \<noteq> 0 then Inr (False, True, s) else ?ack s)"
  have nack: "same_socket t s'" if "?nack t = Inr (go_on, both, s')" for t
    using that by (elim rbind_InrE) (auto split: if_splits dest: send_nack_socket)
  have ack: "same_socket t s'" if t: "?ack t = Inr (go_on, both, s')" for t
  proof -
    obtain err t1 where t1: "(if r_need_ack t then send_ack crc t else Inr (NET_OK, t)) = Inr (err, t1)"
      "(if err \<noteq> NET_OK then Inr (False, True, t1) else ?nack t1) = Inr (go_on, both, s')"
      by (rule rbind_pairE [OF t])
    have "same_socket t t1"
      using t1(1) send_ack_socket by (cases "r_need_ack t") auto
    moreover have "same_socket t1 s'"
      using t1(2) nack by (cases "err = NET_OK") simp_all
    ultimately show ?thesis
      by (rule same_socket_trans)
  qed
  have empty: "same_socket t s'" if t: "?empty t = Inr (go_on, both, s')" for t
  proof -
    obtain err t1 where t1: "(if file_ev \<or> can_empty_rbuf t then do_empty_rbuf t else Inr (0, t)) = Inr (err, t1)"
      "(if err \<noteq> 0 then Inr (False, True, t1) else ?ack t1) = Inr (go_on, both, s')"
      by (rule rbind_pairE [OF t])
    have "same_socket t t1"
      using t1(1) do_empty_rbuf_socket by (cases "file_ev \<or> can_empty_rbuf t") auto
    moreover have "same_socket t1 s'"
      using t1(2) ack by (cases "err = 0") simp_all
    ultimately show ?thesis
      by (rule same_socket_trans)
  qed
  obtain err t1 where t1: "(if sock_ev then rbind (do_read_sock crc s) (\<lambda>(err, s).
        Inr (err, if err = 0 \<and> \<not> r_need_nack s then s\<lparr>r_need_ack := True\<rparr> else s)) else Inr (0, s)) = Inr (err, t1)"
    "(if err \<noteq> 0 then Inr (False, True, t1) else ?empty t1) = Inr (go_on, both, s')"
    by (rule rbind_pairE [OF assms [unfolded receive_ready_def]])
  have "same_socket s t1"
    using t1(1) by (auto simp: rbind_Inr_iff split: if_splits dest!: do_read_sock_socket)
  moreover have "same_socket t1 s'"
    using t1(2) empty by (cases "err = 0") simp_all
  ultimately show ?thesis
    by (rule same_socket_trans)
qed

lemma receive_loop_socket: "receive_loop crc both polls s = Inr (ok, polls', s') \<Longrightarrow> same_socket s s'"
proof (induction polls arbitrary: both s)
  case (Cons ev polls)
  show ?case
  proof (cases ev)
    case (Poll_ready file_ev sock_ev)
    then obtain go_on both' s1 where s1: "receive_ready crc (both \<and> file_ev) sock_ev s = Inr (go_on, both', s1)"
      using Cons.prems by (auto simp: rbind_Inr_iff)
    have "same_socket s1 s'"
      using Cons.prems Cons.IH s1 Poll_ready by (fastforce simp: Let_def split: if_splits)
    then show ?thesis
      using receive_ready_socket [OF s1] same_socket_trans by blast
  qed (use Cons.prems in simp_all)
qed simp

lemma linger_loop_socket: "linger_loop crc retry polls s = Inr (ret, s') \<Longrightarrow> same_socket s s'"
proof (induction polls arbitrary: retry s)
  case (Cons ev polls)
  show ?case
  proof (cases "ev = Poll_timeout \<or> \<not> retry < MAX_LINGER_RETRY \<or> ev = Poll_error")
    case False
    then obtain st s1 where s1: "send_ack crc s = Inr (st, s1)"
      using Cons.prems by (auto simp: rbind_Inr_iff)
    have "same_socket s1 s'"
      using Cons.prems Cons.IH s1 False by (auto split: if_splits)
    then show ?thesis
      using send_ack_socket [OF s1] same_socket_trans by blast
  qed (use Cons.prems in \<open>auto split: if_splits\<close>)
qed simp

lemma unblock_socket: "unblock_out_file get_ok set_ok addr s = (err, s') \<Longrightarrow> same_socket s s'"
  by (auto simp: unblock_out_file_def sys_fcntl_def Let_def split: if_splits)

lemma receive_socket:
  assumes "receive crc unblock polls s = Inr (ret, s')"
  shows "same_socket s s'"
proof -
  obtain get_ok set_ok addr err s1 where u: "unblock = (get_ok, set_ok, addr)"
    "unblock_out_file get_ok set_ok addr s = (err, s1)"
    by (metis prod_cases3 surj_pair)
  have s1: "same_socket s s1"
    using unblock_socket [OF u(2)] .
  show ?thesis
  proof (cases "err = 0")
    case False
    then show ?thesis
      using assms u s1 by (simp add: receive_def Let_def)
  next
    case True
    obtain i buf where b: "pktbuf_enqueue (r_buf s1) = (i, buf)"
      by fastforce
    obtain st q s2 where s2: "net_wait_and_connect crc (buf_slot (s1\<lparr>r_buf := buf\<rparr>) i) INITIAL_SEQNUM (s1\<lparr>r_buf := buf\<rparr>) = Inr (st, q, s2)"
      using assms u b True by (auto simp: receive_def Let_def rbind_Inr_iff)
    have "same_socket s s2"
      using net_wait_and_connect_socket [OF s2] s1 same_socket_trans by fastforce
    moreover have "same_socket s2 s'"
    proof (cases "st = NET_OK")
      case False
      then show ?thesis
        using assms u b True s2 by (auto simp: receive_def Let_def)
    next
      case st: True
      obtain x s3 ok polls' s4 where s3: "process_incoming_pkt i (put_slot s2 i q) = Inr (x, s3)"
        "receive_loop crc True polls (s3\<lparr>r_need_ack := True\<rparr>) = Inr (ok, polls', s4)"
        "(if \<not> ok then Inr (- ECONNABORTED, s4) else linger_loop crc 0 polls' s4) = Inr (ret, s')"
        using assms u b True s2 st by (auto simp: receive_def Let_def rbind_Inr_iff)
      have "same_socket s2 s3" "same_socket s3 s4" "same_socket s4 s'"
        using process_incoming_socket [OF s3(1)] receive_loop_socket [OF s3(2)] s3(3) linger_loop_socket
        by (auto split: if_splits)
      then show ?thesis
        using same_socket_trans by blast
    qed
    ultimately show ?thesis
      by (rule same_socket_trans)
  qed
qed

end
