(* ===== verification/Program_Release.thy ===== *)
theory Program_Release
  imports Program_Props Program_Sockets
begin

text \<open>
  What both programs have acquired when \<open>main\<close> returns they have given back: the buffer, the
  stream, and every socket.
\<close>

section \<open>The stream\<close>

text \<open>With at most one \<open>-f\<close>, the stream in use is the only one opened.\<close>

definition files_named :: "(char \<times> string) list \<Rightarrow> nat" where
  "files_named evs = length (filter (\<lambda>(c, _). c = CHR ''f'') evs)"

lemma files_named_simps [simp]:
  "files_named [] = 0" "files_named ((c, arg) # evs) = (if c = CHR ''f'' then 1 else 0) + files_named evs"
  by (simp_all add: files_named_def)

definition one_stream :: "options \<Rightarrow> bool" where
  "one_stream opts \<longleftrightarrow>
     (case o_stream opts of None \<Rightarrow> o_opened opts = [] | Some i \<Rightarrow> i = 0 \<and> length (o_opened opts) = 1)"

lemma one_stream_update [simp]:
  "one_stream (opts\<lparr>o_buf := n\<rparr>) = one_stream opts" "one_stream (names operands opts) = one_stream opts"
  by (auto simp: one_stream_def split: option.split)

text \<open>Opening a file when none has been opened.\<close>

lemma open_file_one:
  assumes "o_opened opts = []" and "open_file fopen path opts = (err, opts')"
  shows "one_stream opts' \<and> (err \<noteq> 0 \<longrightarrow> o_opened opts' = []) \<and> (err = 0 \<longrightarrow> length (o_opened opts') = 1)"
  using assms by (auto simp: open_file_def one_stream_def split: if_splits)

lemma sender_options_one_stream:
  assumes "sender_options fopen evs ops opts = Parsed err opts'"
    and "one_stream opts" and "files_named evs + length (o_opened opts) \<le> 1"
  shows "one_stream opts' \<and> (err \<noteq> 0 \<longrightarrow> o_opened opts' = [])"
  using assms
proof (induction fopen evs ops opts rule: sender_options.induct)
  case (2 fopen c arg evs ops opts)
  obtain err1 opts1 where o: "open_file fopen arg opts = (err1, opts1)"
    by fastforce
  consider "c = CHR ''f''" | "c = CHR ''b''" | "c \<noteq> CHR ''f''" "c \<noteq> CHR ''b''"
    by blast
  then show ?case
  proof cases
    case 1
    then have "o_opened opts = []"
      using "2.prems"(3) by simp
    from open_file_one [OF this o] show ?thesis
      using "2.IH"(1) [OF 1 o [symmetric] refl] "2.prems"(1,3) 1 o by (auto split: if_splits)
  next
    case 2
    then show ?thesis
      using "2.IH"(2) "2.prems" by simp
  next
    case 3
    then show ?thesis
      using "2.prems"(1) by simp
  qed
qed (auto simp: one_stream_def split: option.splits)

lemma receiver_options_one_stream:
  assumes "receiver_options fopen evs ops opts = Parsed err opts'"
    and "one_stream opts" and "files_named evs + length (o_opened opts) \<le> 1"
  shows "one_stream opts' \<and> (err \<noteq> 0 \<longrightarrow> o_opened opts' = [])"
  using assms
proof (induction fopen evs ops opts rule: receiver_options.induct)
  case (2 fopen c arg evs ops opts)
  obtain err1 opts1 where o: "open_file fopen arg opts = (err1, opts1)"
    by fastforce
  consider "c = CHR ''f''" | "c = CHR ''b''" | "c \<noteq> CHR ''f''" "c \<noteq> CHR ''b''"
    by blast
  then show ?case
  proof cases
    case 1
    then have "o_opened opts = []"
      using "2.prems"(3) by simp
    from open_file_one [OF this o] show ?thesis
      using "2.IH"(1) [OF 1 o [symmetric] refl] "2.prems"(1,3) 1 o by (auto split: if_splits)
  next
    case 2
    then show ?thesis
      using "2.IH"(2) "2.prems" by (simp add: Let_def)
  next
    case 3
    then show ?thesis
      using "2.prems"(1) by simp
  qed
qed (auto simp: one_stream_def split: option.splits)

lemma parsed_one_stream:
  assumes "files_named (fst (getopt_long argv)) \<le> 1"
  shows "sender_parse_options fopen argv = Parsed err opts \<Longrightarrow> one_stream opts \<and> (err \<noteq> 0 \<longrightarrow> o_opened opts = [])"
    and "receiver_parse_options fopen argv = Parsed err opts \<Longrightarrow> one_stream opts \<and> (err \<noteq> 0 \<longrightarrow> o_opened opts = [])"
proof -
  obtain evs ops where g: "getopt_long argv = (evs, ops)"
    by fastforce
  have d: "one_stream sender_defaults" "o_opened sender_defaults = []" "one_stream receiver_defaults" "o_opened receiver_defaults = []"
    by (simp_all add: one_stream_def sender_defaults_def receiver_defaults_def)
  show "sender_parse_options fopen argv = Parsed err opts \<Longrightarrow> one_stream opts \<and> (err \<noteq> 0 \<longrightarrow> o_opened opts = [])"
    using sender_options_one_stream [of fopen evs ops sender_defaults err opts] assms g d
    by (simp add: sender_parse_options_def)
  show "receiver_parse_options fopen argv = Parsed err opts \<Longrightarrow> one_stream opts \<and> (err \<noteq> 0 \<longrightarrow> o_opened opts = [])"
    using receiver_options_one_stream [of fopen evs ops receiver_defaults err opts] assms g d
    by (simp add: receiver_parse_options_def)
qed

section \<open>The sockets\<close>

text \<open>The descriptors \<open>net_open_socket\<close> obtains, for what a name resolves to.\<close>

definition sockets_of :: "int \<times> addr_try list \<Rightarrow> int list" where
  "sockets_of gai = (if fst gai \<noteq> 0 then [] else opened (snd gai))"

lemma open_socket_closed:
  assumes "net_open_socket gai e = (st, e1)" and "list_all (\<lambda>a. t_socket a \<ge> -1) (snd gai)"
  shows "st \<noteq> NET_OK \<Longrightarrow> e_closed e1 = e_closed e @ sockets_of gai"
    and "st = NET_OK \<Longrightarrow> same_socket e1 s \<Longrightarrow> e_closed (net_close_socket s) = e_closed e @ sockets_of gai"
proof -
  obtain err addrs where g: "gai = (err, addrs)"
    by (cases gai)
  have fd: "fst (try_addrs addrs cl) = Some fd \<Longrightarrow> fd \<ge> 0" for fd cl
    using assms(2) unfolding g by (induction addrs cl rule: try_addrs.induct) (auto simp: Let_def split: if_splits)
  note c = try_addrs_closed [where addrs = addrs and cl = "e_closed e"]
  show "st \<noteq> NET_OK \<Longrightarrow> e_closed e1 = e_closed e @ sockets_of gai"
    using assms(1) c by (auto simp: g net_open_socket_def sockets_of_def split: prod.splits option.splits if_splits)
  assume "st = NET_OK" and s: "same_socket e1 s"
  then obtain fd cl where t: "err = 0" "try_addrs addrs (e_closed e) = (Some fd, cl)" "e1 = e\<lparr>e_fd := fd, e_closed := cl\<rparr>"
    using assms(1) by (auto simp: g net_open_socket_def split: prod.splits option.splits if_splits)
  then have "0 \<le> fd" "cl @ [fd] = e_closed e @ opened addrs"
    using fd [of "e_closed e" fd] c by simp_all
  then show "e_closed (net_close_socket s) = e_closed e @ sockets_of gai"
    using s t by (simp add: g same_socket_def net_close_socket_def sockets_of_def)
qed

section \<open>Both programs\<close>

text \<open>
  A finished process: the buffer freed if it was allocated, every stream opened closed, once, and
  every socket opened closed, once. The socket is opened after the buffer is allocated.
\<close>

definition closed_by :: "(env + 's env_scheme) ended \<Rightarrow> int list" where
  "closed_by r = (case m_state r of Inl e \<Rightarrow> e_closed e | Inr s \<Rightarrow> e_closed s)"

definition released :: "'p system \<Rightarrow> env \<Rightarrow> (env + 's env_scheme) ended \<Rightarrow> bool" where
  "released sys e r \<longleftrightarrow>
     (let p = m_process r in
      m_freed p = m_allocated p \<and> m_fclosed p = [0..<length (o_opened p)] \<and>
      closed_by r = e_closed e @ (if m_allocated p = 0 then [] else sockets_of (sys_resolve sys (o_host p) (o_port p))))"

definition sockets_ok :: "'p system \<Rightarrow> bool" where
  "sockets_ok sys \<longleftrightarrow> (\<forall>host port. list_all (\<lambda>a. t_socket a \<ge> -1) (snd (sys_resolve sys host port)))"

text \<open>The three ways out of \<open>main\<close>.\<close>

lemma leave_released: "o_opened opts = [] \<Longrightarrow> released sys e (leave err (process_of opts) (Inl e))"
  by (simp add: released_def leave_def process_of_def closed_by_def)

lemma err_options_released: "one_stream opts \<Longrightarrow> released sys e (err_options err (process_of opts) (Inl e))"
  by (auto simp: released_def err_options_def leave_def process_of_def closed_by_def one_stream_def Let_def split: option.splits)

lemma err_buffer_released:
  assumes "one_stream opts" and "sockets_ok sys"
    and "net_open_socket (sys_resolve sys (o_host opts) (o_port opts)) e = (st, e1)"
    and "st \<noteq> NET_OK \<and> x = Inl e1 \<or> st = NET_OK \<and> (\<exists>s. x = Inr (net_close_socket s) \<and> same_socket e1 s)"
  shows "released sys e (err_buffer err (process_of opts\<lparr>m_allocated := 1\<rparr>) x)"
proof -
  let ?gai = "sys_resolve sys (o_host opts) (o_port opts)"
  have ok: "list_all (\<lambda>a. t_socket a \<ge> -1) (snd ?gai)"
    using assms(2) by (simp add: sockets_ok_def)
  have "(case x of Inl e \<Rightarrow> e_closed e | Inr s \<Rightarrow> e_closed s) = e_closed e @ sockets_of ?gai"
    using assms(4) open_socket_closed [OF assms(3) ok] by auto
  then show ?thesis
    using assms(1)
    by (auto simp: released_def err_buffer_def err_options_def leave_def process_of_def closed_by_def one_stream_def Let_def
        split: option.splits)
qed

lemma sender_main_released:
  assumes "sender_main crc sys input argv e = Inr r" and "files_named (fst (getopt_long argv)) \<le> 1" and "sockets_ok sys"
  shows "released sys e r"
proof (cases "sender_parse_options (sys_fopen sys) argv")
  case Usage
  then show ?thesis
    using assms(1) by (simp add: sender_main_def)
next
  case (Parsed err opts)
  note one = parsed_one_stream(1) [OF assms(2) Parsed]
  show ?thesis
  proof (cases "err = 0")
    case False
    then show ?thesis
      using assms(1) Parsed one leave_released by (auto simp: sender_main_def Let_def)
  next
    case True
    let ?p1 = "process_of opts\<lparr>m_allocated := m_allocated (process_of opts) + 1\<rparr>"
    have p: "?p1 = process_of opts\<lparr>m_allocated := 1\<rparr>" "o_host ?p1 = o_host opts" "o_port ?p1 = o_port opts"
      by (simp_all add: process_of_def)
    obtain buf where buf: "pktbuf_new (sys_calloc sys) (o_buf (process_of opts)) = Inr buf"
      using assms(1) Parsed True by (cases "pktbuf_new (sys_calloc sys) (o_buf (process_of opts))") (auto simp: sender_main_def Let_def)
    obtain st e1 where st: "net_open_socket (sys_resolve sys (o_host opts) (o_port opts)) e = (st, e1)"
      by fastforce
    show ?thesis
    proof (cases buf)
      case None
      then show ?thesis
        using assms(1) Parsed True buf one err_options_released by (auto simp: sender_main_def Let_def)
    next
      case (Some b)
      have run: "sender_main crc sys input argv e =
        (if st \<noteq> NET_OK then Inr (err_buffer (net_status_value st) (process_of opts\<lparr>m_allocated := 1\<rparr>) (Inl e1))
         else rbind (transmit crc (sys_polls sys) b (input (o_stream (process_of opts\<lparr>m_allocated := 1\<rparr>))) e1) (\<lambda>(err, s).
           Inr (err_buffer err (process_of opts\<lparr>m_allocated := 1\<rparr>) (Inr (net_close_socket s)))))"
        using Parsed True buf Some st p by (simp add: sender_main_def Let_def)
      note released = err_buffer_released [OF conjunct1 [OF one] assms(3) st]
      show ?thesis
      proof (cases "st = NET_OK")
        case True
        then obtain ret s where s: "transmit crc (sys_polls sys) b (input (o_stream (process_of opts\<lparr>m_allocated := 1\<rparr>))) e1 = Inr (ret, s)"
          "r = err_buffer ret (process_of opts\<lparr>m_allocated := 1\<rparr>) (Inr (net_close_socket s))"
          using assms(1) unfolding run by (auto simp: rbind_Inr_iff)
        then show ?thesis
          using released [of "Inr (net_close_socket s)" ret] transmit_socket [OF s(1)] True by blast
      next
        case False
        then show ?thesis
          using assms(1) released [of "Inl e1"] unfolding run by auto
      qed
    qed
  qed
qed

lemma receiver_main_released:
  assumes "receiver_main crc sys unblock argv e = Inr r" and "files_named (fst (getopt_long argv)) \<le> 1" and "sockets_ok sys"
  shows "released sys e r"
proof (cases "receiver_parse_options (sys_fopen sys) argv")
  case Usage
  then show ?thesis
    using assms(1) by (simp add: receiver_main_def)
next
  case (Parsed err opts)
  note one = parsed_one_stream(2) [OF assms(2) Parsed]
  show ?thesis
  proof (cases "err = 0")
    case False
    then show ?thesis
      using assms(1) Parsed one leave_released by (auto simp: receiver_main_def Let_def)
  next
    case True
    let ?p1 = "process_of opts\<lparr>m_allocated := m_allocated (process_of opts) + 1\<rparr>"
    have p: "?p1 = process_of opts\<lparr>m_allocated := 1\<rparr>" "o_host ?p1 = o_host opts" "o_port ?p1 = o_port opts"
      by (simp_all add: process_of_def)
    obtain st e1 where st: "net_open_socket (sys_resolve sys (o_host opts) (o_port opts)) e = (st, e1)"
      by fastforce
    show ?thesis
    proof (cases "sys_calloc sys")
      case False
      then have "pktbuf_new (sys_calloc sys) 32 = Inr None"
        by (simp add: pktbuf_new_def popcount_powers)
      then show ?thesis
        using assms(1) Parsed True one err_options_released by (auto simp: receiver_main_def Let_def)
    next
      case calloc: True
      obtain b where b: "pktbuf_new (sys_calloc sys) 32 = Inr (Some b)"
        using new_buffers(2) calloc by auto
      have run: "receiver_main crc sys unblock argv e =
        (if st \<noteq> NET_OK then Inr (err_buffer 0 (process_of opts\<lparr>m_allocated := 1\<rparr>) (Inl e1))
         else rbind (receive crc unblock (sys_polls sys) (receiver_init (o_buf (process_of opts\<lparr>m_allocated := 1\<rparr>)) b e1)) (\<lambda>(err, s).
           Inr (err_buffer err (process_of opts\<lparr>m_allocated := 1\<rparr>) (Inr (net_close_socket s)))))"
        using Parsed True b st p by (simp add: receiver_main_def Let_def)
      note released = err_buffer_released [OF conjunct1 [OF one] assms(3) st]
      show ?thesis
      proof (cases "st = NET_OK")
        case True
        then obtain ret s where s: "receive crc unblock (sys_polls sys)
            (receiver_init (o_buf (process_of opts\<lparr>m_allocated := 1\<rparr>)) b e1) = Inr (ret, s)"
          "r = err_buffer ret (process_of opts\<lparr>m_allocated := 1\<rparr>) (Inr (net_close_socket s))"
          using assms(1) unfolding run by (auto simp: rbind_Inr_iff)
        have "same_socket e1 s"
          using receive_socket [OF s(1)] by (simp add: same_socket_def receiver_init_def)
        then show ?thesis
          using released [of "Inr (net_close_socket s)" ret] s(2) True by blast
      next
        case False
        then show ?thesis
          using assms(1) released [of "Inl e1"] unfolding run by auto
      qed
    qed
  qed
qed

text \<open>A system in which the only address cannot be used: a socket is opened and closed again.\<close>

definition demo_refusing :: "'p system" where
  "demo_refusing = \<lparr>sys_fopen = \<lambda>_. 0, sys_calloc = True,
     sys_resolve = \<lambda>_ _. (0, [\<lparr>t_socket = 5, t_reuse = 0, t_v6only = 0, t_test = -1\<rparr>]), sys_polls = []\<rparr>"

lemma demo_refusing_fields [simp]: "sys_fopen demo_refusing = (\<lambda>_. 0)" "sys_calloc demo_refusing"
  by (simp_all add: demo_refusing_def)

lemma demo_refused: "sockets_ok demo_refusing"
  "net_open_socket (sys_resolve demo_refusing host port) e = (NET_ERROR, e\<lparr>e_closed := e_closed e @ [5]\<rparr>)"
  "sockets_of (sys_resolve demo_refusing host port) = [5]"
  by (simp_all add: sockets_ok_def demo_refusing_def net_open_socket_def sockets_of_def)

lemma demo_named: "files_named (fst (getopt_long demo_argv)) \<le> 1"
  by (simp add: demo_getopt)

lemma released_refused:
  assumes "released demo_refusing e r" and "m_allocated (m_process r) = 1"
  shows "m_freed (m_process r) = 1" and "closed_by r = e_closed e @ [5]"
  using assms by (simp_all add: released_def demo_refused(3) Let_def)

text \<open>
  C38. When \<open>main\<close> of the sender returns, on whatever path, and at most one \<open>-f\<close> was given, the buffer
  has been freed if it was allocated, every stream opened has been closed, once, and so has every
  socket the search for an address opened.
\<close>

theorem sender_main_releases:
  assumes "sender_main crc sys input argv e = Inr r" and "files_named (fst (getopt_long argv)) \<le> 1" and "sockets_ok sys"
  shows "released sys e r"
  by (rule sender_main_released [OF assms])

theorem sender_main_releases_witness:
  "\<exists>r. sender_main demo_crc demo_refusing (\<lambda>_. []) demo_argv demo_env = Inr r \<and>
    m_allocated (m_process r) = 1 \<and> m_freed (m_process r) = 1 \<and> closed_by r = e_closed demo_env @ [5]"
proof -
  have "sender_parse_options (\<lambda>_. 0) demo_argv =
      Parsed 0 \<lparr>o_stream = Some 0, o_host = ''localhost'', o_port = ''1341'', o_buf = 32, o_opened = [''data'']\<rparr>"
    by (simp add: sender_parse_options_def demo_getopt open_file_def names_def sender_defaults_def)
  moreover obtain buf where "pktbuf_new True 32 = Inr (Some buf)"
    using new_buffers(2) by blast
  ultimately have "\<exists>r. sender_main demo_crc demo_refusing (\<lambda>_. []) demo_argv demo_env = Inr r \<and> m_allocated (m_process r) = 1"
    by (simp add: sender_main_def demo_refused(2) process_of_def err_buffer_def err_options_def leave_def Let_def)
  then obtain r where r: "sender_main demo_crc demo_refusing (\<lambda>_. []) demo_argv demo_env = Inr r" "m_allocated (m_process r) = 1"
    by blast
  show ?thesis
    using r released_refused [OF sender_main_releases [OF r(1) demo_named demo_refused(1)] r(2)] by blast
qed

text \<open>
  C39. When \<open>main\<close> of the receiver returns, on whatever path, and at most one \<open>-f\<close> was given, the
  buffer, the stream and every socket have been given back, once.
\<close>

theorem receiver_main_releases:
  assumes "receiver_main crc sys unblock argv e = Inr r" and "files_named (fst (getopt_long argv)) \<le> 1" and "sockets_ok sys"
  shows "released sys e r"
  by (rule receiver_main_released [OF assms])

theorem receiver_main_releases_witness:
  "\<exists>r. receiver_main demo_crc demo_refusing (True, True, 0) demo_argv demo_env = Inr r \<and>
    m_allocated (m_process r) = 1 \<and> m_freed (m_process r) = 1 \<and> closed_by r = e_closed demo_env @ [5]"
proof -
  have "receiver_parse_options (\<lambda>_. 0) demo_argv =
      Parsed 0 \<lparr>o_stream = Some 0, o_host = ''localhost'', o_port = ''1341'', o_buf = 31, o_opened = [''data'']\<rparr>"
    by (simp add: receiver_parse_options_def demo_getopt open_file_def names_def receiver_defaults_def)
  moreover obtain buf where "pktbuf_new True 32 = Inr (Some buf)"
    using new_buffers(2) by blast
  ultimately have "\<exists>r. receiver_main demo_crc demo_refusing (True, True, 0) demo_argv demo_env = Inr r \<and> m_allocated (m_process r) = 1"
    by (simp add: receiver_main_def demo_refused(2) process_of_def err_buffer_def err_options_def leave_def Let_def)
  then obtain r where r: "receiver_main demo_crc demo_refusing (True, True, 0) demo_argv demo_env = Inr r" "m_allocated (m_process r) = 1"
    by blast
  show ?thesis
    using r released_refused [OF receiver_main_releases [OF r(1) demo_named demo_refused(1)] r(2)] by blast
qed

end
