(* ===== verification/Program_Transfer.thy ===== *)
theory Program_Transfer
  imports Program_Release Lockstep
begin

text \<open>
  The two programs from their command lines to their exit: a file given to the sender is the file
  the receiver writes.
\<close>

section \<open>Command lines\<close>

definition sender_argv :: "nat \<Rightarrow> string \<Rightarrow> string \<Rightarrow> string \<Rightarrow> string list" where
  "sender_argv n path host port = [''-b'', decimal n, ''-f'', path, host, port]"

lemma getopt_argv:
  assumes "operand host" and "operand port"
  shows "getopt_long (sender_argv n path host port) = ([(CHR ''b'', decimal n), (CHR ''f'', path)], [host, port])"
  using getopt_short [of "CHR ''b''" "decimal n"] getopt_short [of "CHR ''f''" path]
    getopt_operand [OF assms(1)] getopt_operand [OF assms(2)]
  by (simp add: sender_argv_def short_opts_def del: getopt_long.simps(2))

definition opts_of :: "u32 \<Rightarrow> string \<Rightarrow> string \<Rightarrow> string \<Rightarrow> options" where
  "opts_of b path host port = \<lparr>o_stream = Some 0, o_host = host, o_port = port, o_buf = b, o_opened = [path]\<rparr>"

lemma sender_parses:
  assumes "n < 2 ^ 31" and "operand host" and "operand port" and "fopen path = 0"
  shows "sender_parse_options fopen (sender_argv n path host port) = Parsed 0 (opts_of (of_nat n) path host port)"
  using getopt_argv [OF assms(2,3)] atoi_decimal [OF assms(1)] assms(4)
  by (simp add: sender_parse_options_def open_file_def names_def sender_defaults_def opts_of_def)

definition window_for :: "nat \<Rightarrow> u32" where
  "window_for n = (let w = of_nat n in if w > 31 then 31 else w)"

lemma receiver_parses:
  assumes "n < 2 ^ 31" and "operand host" and "operand port" and "fopen path = 0"
  shows "receiver_parse_options fopen (sender_argv n path host port) =
    Parsed 0 (opts_of (window_for n) path host port)"
  using getopt_argv [OF assms(2,3)] atoi_decimal [OF assms(1)] assms(4)
  by (simp add: receiver_parse_options_def open_file_def names_def receiver_defaults_def opts_of_def window_for_def Let_def)

section \<open>The file\<close>

text \<open>What the reads of 512 bytes from a regular file return before its end.\<close>

function blocks :: "byte list \<Rightarrow> byte list list" where
  "blocks bs = (if bs = [] then [] else take 512 bs # blocks (drop 512 bs))"
  by pat_completeness auto

termination blocks
  by (relation "measure length") simp_all

declare blocks.simps [simp del]

lemma blocks_concat: "concat (blocks bs) = bs"
  by (induction bs rule: blocks.induct) (subst blocks.simps, simp)

lemma blocks_small: "list_all (\<lambda>b. b \<noteq> [] \<and> length b \<le> 512) (blocks bs)"
  by (induction bs rule: blocks.induct) (subst blocks.simps, simp)

section \<open>From the command lines to the exit\<close>

text \<open>What a program that gets its socket goes on with.\<close>

lemma sender_main_runs:
  assumes "n < 2 ^ 31" and "operand host" and "operand port" and "sys_fopen sys path = 0" and "sys_calloc sys"
    and "pktbuf_new True (of_nat n) = Inr (Some buf)" and "net_open_socket (sys_resolve sys host port) e = (NET_OK, e1)"
    and "transmit crc (sys_polls sys) buf (input (Some 0)) e1 = Inr (ret, s)"
  shows "\<exists>r. sender_main crc sys input (sender_argv n path host port) e = Inr r \<and> m_status r = ret \<and> m_state r = Inr (net_close_socket s)"
  using sender_parses [where fopen = "sys_fopen sys", OF assms(1-4)] assms(5-8)
  by (simp add: sender_main_def opts_of_def process_of_def err_buffer_def err_options_def leave_def Let_def)

lemma receiver_main_runs:
  assumes "n < 2 ^ 31" and "operand host" and "operand port" and "sys_fopen sys path = 0" and "sys_calloc sys"
    and "pktbuf_new True 32 = Inr (Some buf)" and "net_open_socket (sys_resolve sys host port) e = (NET_OK, e1)"
    and "receive crc unblock (sys_polls sys) (receiver_init (window_for n) buf e1) = Inr (ret, s)"
  shows "\<exists>r. receiver_main crc sys unblock (sender_argv n path host port) e = Inr r \<and> m_status r = ret \<and> m_state r = Inr (net_close_socket s)"
  using receiver_parses [where fopen = "sys_fopen sys", OF assms(1-4)] assms(5-8)
  by (simp add: receiver_main_def opts_of_def process_of_def err_buffer_def err_options_def leave_def Let_def)

lemma open_socket_env:
  assumes "fst (net_open_socket gai e) = NET_OK"
  shows "\<exists>fd cl. \<forall>evs. net_open_socket gai (e\<lparr>e_rx := evs\<rparr>) = (NET_OK, e\<lparr>e_rx := evs, e_fd := fd, e_closed := cl\<rparr>)"
proof -
  obtain fd cl where "fst gai = 0" "try_addrs (snd gai) (e_closed e) = (Some fd, cl)"
    using assms by (cases gai; cases "try_addrs (snd gai) (e_closed e)"; cases "fst (try_addrs (snd gai) (e_closed e))")
      (auto simp: net_open_socket_def split: if_splits)
  then show ?thesis
    by (intro exI [of _ fd] exI [of _ cl] allI) (cases gai; simp add: net_open_socket_def)
qed

lemma close_socket_keeps: "e_tx (net_close_socket e) = e_tx e" "r_out (net_close_socket r) = r_out r"
  by (simp_all add: net_close_socket_def)

text \<open>
  C3. The two programs, from their command lines to their exit, in one schedule. The sender is
  given a ring whose size is a power of two up to 128 and a file that can be opened, the receiver
  a window size that is not 0 and a file; memory and addresses are there. Each reads all the
  datagrams the other writes, in order, and \<open>poll\<close> lets them go in lockstep: a chunk is read and
  sent, then its acknowledgement is read, and no call times out but the receiver's last one. Then
  for every file of any length both programs return 0 and the bytes the receiver has written are
  those of the file. Other schedules, with losses and timeouts, are in \<open>System_Props\<close> (and some of
  them end in a crash); with a window of 0 the receiver takes no packet after the first. That each
  side gets what the other writes is an assumption on the network: the receiver's socket
  is connected to an address of which only the first four bytes, family and port, are the sender's
  (\<open>first_peer_address_truncated\<close>) and the rest, the host, is zero, which stands for the own host.
\<close>

theorem programs_transfer_file:
  assumes "k \<le> 7" and "operand host" and "operand port" and "sys_fopen ssys path = 0" and "sys_calloc ssys"
    and "fst (net_open_socket (sys_resolve ssys host port) es) = NET_OK" and "e_wr es = []" and "e_tx es = []"
    and "input (Some 0) = map In_data (blocks file @ [[]])"
    and "sys_polls ssys = concat (replicate (Suc (length (blocks file))) [Poll_events True False, Poll_events False True])"
    and "0 < n" and "n < 2 ^ 31" and "operand rhost" and "operand rport" and "sys_fopen rsys out = 0" and "sys_calloc rsys"
    and "fst (net_open_socket (sys_resolve rsys rhost rport) er) = NET_OK" and "e_wr er = []" and "e_tx er = []" and "e_connect er = 0"
    and "sys_polls rsys = Poll_ready True False # replicate (length (blocks file)) (Poll_ready False True) @ [Poll_timeout]"
  shows "\<exists>sp rp s r.
    sender_main crc ssys input (sender_argv (2 ^ k) path host port) (es\<lparr>e_rx := map (Rx dst) (e_tx r)\<rparr>) = Inr sp \<and>
    receiver_main crc rsys (True, True, addr) (sender_argv n out rhost rport) (er\<lparr>e_rx := map (Rx src) (e_tx s)\<rparr>) = Inr rp \<and>
    m_state sp = Inr s \<and> m_state rp = Inr r \<and> m_status sp = 0 \<and> m_status rp = 0 \<and> r_out r = file"
proof -
  let ?c = "of_nat (2 ^ k) :: u32" and ?win = "window_for n"
  have k: "(2 :: nat) ^ k \<le> 128"
    using power_increasing [OF assms(1), of "2 :: nat"] by simp
  then have c: "unat ?c = 2 ^ k"
    by (simp add: unat_of_nat del: of_nat_power of_nat_numeral)
  obtain sbuf where sbuf: "pktbuf_new True ?c = Inr (Some sbuf)"
    using pktbuf_new_result [of ?c] c assms(1) by (auto simp del: of_nat_power of_nat_numeral)
  obtain rbuf where rbuf: "pktbuf_new True 32 = Inr (Some rbuf)"
    using new_buffers(2) by blast
  have "unat (of_nat n :: u32) = n"
    using assms(12) by (simp add: unat_of_nat)
  then have "(of_nat n :: u32) \<noteq> 0"
    using assms(11) by (metis not_less_zero unat_0)
  then have win: "0 < ?win" "?win \<le> 31"
    by (auto simp: window_for_def Let_def word_gt_0 not_less)
  obtain sfd scl where se: "net_open_socket (sys_resolve ssys host port) (es\<lparr>e_rx := evs\<rparr>) =
      (NET_OK, es\<lparr>e_rx := evs, e_fd := sfd, e_closed := scl\<rparr>)" for evs
    using open_socket_env [OF assms(6)] by blast
  obtain rfd rcl where re: "net_open_socket (sys_resolve rsys rhost rport) (er\<lparr>e_rx := evs\<rparr>) =
      (NET_OK, er\<lparr>e_rx := evs, e_fd := rfd, e_closed := rcl\<rparr>)" for evs
    using open_socket_env [OF assms(17)] by blast
  let ?es = "es\<lparr>e_fd := sfd, e_closed := scl\<rparr>" and ?er = "er\<lparr>e_fd := rfd, e_closed := rcl\<rparr>"
  have env: "e_wr ?es = []" "e_tx ?es = []" "e_wr ?er = []" "e_tx ?er = []" "e_connect ?er = 0" "unat ?c \<le> 128"
    using assms(7,8,18-20) c k by simp_all
  obtain s r where t: "transmit crc (sys_polls ssys) sbuf (input (Some 0)) (?es\<lparr>e_rx := map (Rx dst) (e_tx r)\<rparr>) = Inr (0, s)"
    "receive crc (True, True, addr) (sys_polls rsys) (receiver_init ?win rbuf (?er\<lparr>e_rx := map (Rx src) (e_tx s)\<rparr>)) = Inr (0, r)"
    "r_out r = concat (blocks file)"
    using transfer_completes [where crc = crc and dst = dst and addr = addr and src = src,
        OF sbuf env(6,1,2) rbuf win env(3-5) blocks_small [where bs = "file"]]
    unfolding assms(9,10,21) by blast
  have small: "(2 :: nat) ^ k < 2 ^ 31"
    using k by simp
  have comm: "?es\<lparr>e_rx := evs\<rparr> = es\<lparr>e_rx := evs, e_fd := sfd, e_closed := scl\<rparr>"
    "?er\<lparr>e_rx := evs\<rparr> = er\<lparr>e_rx := evs, e_fd := rfd, e_closed := rcl\<rparr>" for evs
    by simp_all
  obtain sp where sp: "sender_main crc ssys input (sender_argv (2 ^ k) path host port) (es\<lparr>e_rx := map (Rx dst) (e_tx r)\<rparr>) = Inr sp"
    "m_status sp = 0" "m_state sp = Inr (net_close_socket s)"
    using sender_main_runs [where input = input, OF small assms(2-5) sbuf se t(1) [unfolded comm]] by blast
  obtain rp where rp: "receiver_main crc rsys (True, True, addr) (sender_argv n out rhost rport) (er\<lparr>e_rx := map (Rx src) (e_tx s)\<rparr>) = Inr rp"
    "m_status rp = 0" "m_state rp = Inr (net_close_socket r)"
    using receiver_main_runs [OF assms(12-16) rbuf re t(2) [unfolded comm]] by blast
  show ?thesis
    using sp rp t(3) by (intro exI [of _ sp] exI [of _ rp] exI [of _ "net_close_socket s"] exI [of _ "net_close_socket r"])
      (simp add: close_socket_keeps blocks_concat)
qed

text \<open>Three bytes from \<open>data\<close> to \<open>copy\<close>, with a ring of four packets and a window of 20.\<close>

definition demo_host :: "'p list \<Rightarrow> 'p system" where
  "demo_host polls = \<lparr>sys_fopen = \<lambda>_. 0, sys_calloc = True,
     sys_resolve = \<lambda>_ _. (0, [\<lparr>t_socket = 5, t_reuse = 0, t_v6only = 0, t_test = 0\<rparr>]), sys_polls = polls\<rparr>"

lemma demo_host_fields: "sys_fopen (demo_host polls) path = 0" "sys_calloc (demo_host polls)"
  "sys_polls (demo_host polls) = polls" "fst (net_open_socket (sys_resolve (demo_host polls) host port) e) = NET_OK"
  by (simp_all add: demo_host_def net_open_socket_def)

lemma demo_blocks: "blocks [1, 2, 3] = [[1, 2, 3]]"
  by (simp add: blocks.simps [of "[1, 2, 3]"] blocks.simps [of "[]"])

theorem programs_transfer_file_witness:
  "\<exists>sp rp s r.
    sender_main demo_crc (demo_host [Poll_events True False, Poll_events False True, Poll_events True False, Poll_events False True])
      (\<lambda>_. [In_data [1, 2, 3], In_data []]) (sender_argv (2 ^ 2) ''data'' ''localhost'' ''1341'')
      (demo_env\<lparr>e_rx := map (Rx []) (e_tx r)\<rparr>) = Inr sp \<and>
    receiver_main demo_crc (demo_host [Poll_ready True False, Poll_ready False True, Poll_timeout])
      (True, True, 0) (sender_argv 20 ''copy'' ''localhost'' ''1341'')
      (demo_env\<lparr>e_rx := map (Rx []) (e_tx s)\<rparr>) = Inr rp \<and>
    m_state sp = Inr s \<and> m_state rp = Inr r \<and> m_status sp = 0 \<and> m_status rp = 0 \<and> r_out r = [1, 2, 3]"
  by (rule programs_transfer_file [where k = 2 and n = 20])
    (simp_all add: demo_host_fields demo_blocks demo_env_def operand_def)

end
